(* ===== verification/Prelude.thy ===== *)
theory Prelude
  imports Main "HOL-Library.Word" "HOL-Library.Char_ord" "HOL-Library.List_Lexorder"
begin

text \<open>
  Shared vocabulary of the development: machine types, C++ exceptions as values, a result
  type with its bind, the ordered containers \<open>std::map\<close> and \<open>std::set\<close> as sorted
  lists, the few \<open>std::string\<close> searches the program uses, and the generic lemmas the
  components share. The collections \<open>result_simps\<close> and \<open>omap_simps\<close> gather the rules
  that carry the component proofs.
\<close>

unbundle bit_operations_syntax

named_theorems result_simps \<open>unfolding rules of the result type\<close>
named_theorems omap_simps \<open>laws of the ordered containers\<close>

section \<open>Machine types\<close>

type_synonym byte = "8 word"
type_synonym u16 = "16 word"
type_synonym u32 = "32 word"
type_synonym u64 = "64 word"

text \<open>The conversions \<open>static_cast<int>\<close> and \<open>static_cast<uint16_t>\<close> of a wider integer.\<close>

definition to_int32 :: "int \<Rightarrow> int" where
  "to_int32 n = sint (word_of_int n :: u32)"

definition in_int32 :: "int \<Rightarrow> bool" where
  "in_int32 n \<longleftrightarrow> - (2 ^ 31) \<le> n \<and> n < 2 ^ 31"

lemma in_int32_to_int32: "in_int32 (to_int32 n)"
  using sint_ge [of "word_of_int n :: u32"] sint_lt [of "word_of_int n :: u32"]
  by (simp add: in_int32_def to_int32_def)

lemma to_int32_id: "in_int32 n \<Longrightarrow> to_int32 n = n"
  by (simp add: to_int32_def in_int32_def sint_sbintrunc' signed_take_bit_int_eq_self)

section \<open>Exceptions and results\<close>

text \<open>
  A C++ exception is a value carrying its \<open>what()\<close> text. \<open>UndefinedBehaviour\<close> is not an
  exception of the program: it marks a read outside a buffer, so that memory safety is the
  statement that it never occurs.
\<close>

datatype exn =
    JsonError string
  | LengthError string
  | InvalidArgument string
  | StdOutOfRange string
  | FilesystemError string
  | UndefinedBehaviour string

primrec what :: "exn \<Rightarrow> string" where
  "what (JsonError s) = s"
| "what (LengthError s) = s"
| "what (InvalidArgument s) = s"
| "what (StdOutOfRange s) = s"
| "what (FilesystemError s) = s"
| "what (UndefinedBehaviour s) = s"

type_synonym 'a result = "exn + 'a"

definition rbind :: "'a result \<Rightarrow> ('a \<Rightarrow> 'b result) \<Rightarrow> 'b result" where
  "rbind m f = (case m of Inl e \<Rightarrow> Inl e | Inr x \<Rightarrow> f x)"

lemma rbind_simps [simp, result_simps]:
  "rbind (Inl e) f = Inl e"
  "rbind (Inr x) f = f x"
  by (simp_all add: rbind_def)

lemma rbind_eq_Inr [result_simps]:
  "rbind m f = Inr y \<longleftrightarrow> (\<exists>x. m = Inr x \<and> f x = Inr y)"
  by (cases m) simp_all

lemma rbind_eq_Inl [result_simps]:
  "rbind m f = Inl e \<longleftrightarrow> m = Inl e \<or> (\<exists>x. m = Inr x \<and> f x = Inl e)"
  by (cases m) auto

section \<open>Ordered maps: \<open>std::map\<close>\<close>

text \<open>
  A \<open>std::map\<close> is the association list of its entries in key order, which is the order
  its iterators visit. Look-up is \<open>map_of\<close>.
\<close>

type_synonym ('k, 'v) omap = "('k \<times> 'v) list"

fun om_upd :: "'k::linorder \<Rightarrow> 'v \<Rightarrow> ('k, 'v) omap \<Rightarrow> ('k, 'v) omap" where
  "om_upd k v [] = [(k, v)]"
| "om_upd k v ((a, b) # m) =
     (if k < a then (k, v) # (a, b) # m
      else if k = a then (k, v) # m
      else (a, b) # om_upd k v m)"

definition om_del :: "'k \<Rightarrow> ('k, 'v) omap \<Rightarrow> ('k, 'v) omap" where
  "om_del k m = filter (\<lambda>e. fst e \<noteq> k) m"

definition om_ok :: "('k::linorder, 'v) omap \<Rightarrow> bool" where
  "om_ok m \<longleftrightarrow> sorted_wrt (<) (map fst m)"

lemma map_of_om_upd [omap_simps, simp]: "map_of (om_upd k v m) = (map_of m)(k \<mapsto> v)"
  by (induction k v m rule: om_upd.induct) (auto simp: fun_eq_iff)

lemma map_of_om_del [omap_simps, simp]: "map_of (om_del k m) = (map_of m)(k := None)"
  by (induction m) (auto simp: om_del_def fun_eq_iff)

lemma set_keys_om_upd [omap_simps]: "fst ` set (om_upd k v m) = insert k (fst ` set m)"
  by (induction k v m rule: om_upd.induct) auto

lemma set_keys_om_del [omap_simps]: "fst ` set (om_del k m) = fst ` set m - {k}"
  by (auto simp: om_del_def)

lemma om_ok_Nil [simp]: "om_ok []"
  by (simp add: om_ok_def)

lemma om_ok_Cons: "om_ok ((k, v) # m) \<longleftrightarrow> (\<forall>x \<in> fst ` set m. k < x) \<and> om_ok m"
  by (simp add: om_ok_def)

lemma om_ok_upd [intro]: "om_ok m \<Longrightarrow> om_ok (om_upd k v m)"
  by (induction k v m rule: om_upd.induct)
    (auto simp: om_ok_Cons set_keys_om_upd split: if_splits dest: order.strict_trans)

lemma om_ok_filter [intro]: "om_ok m \<Longrightarrow> om_ok (filter P m)"
  by (induction m) (auto simp: om_ok_def)

lemma om_ok_del [intro]: "om_ok m \<Longrightarrow> om_ok (om_del k m)"
  by (simp add: om_del_def om_ok_filter)

lemma om_ok_distinct: "om_ok m \<Longrightarrow> distinct (map fst m)"
  by (auto simp: om_ok_def strict_sorted_iff)

lemma om_ok_mem_iff: "om_ok m \<Longrightarrow> (k, v) \<in> set m \<longleftrightarrow> map_of m k = Some v"
  by (simp add: om_ok_distinct)

section \<open>Ordered sets: \<open>std::set\<close>\<close>

text \<open>A \<open>std::set\<close> is the strictly sorted list of its elements.\<close>

definition os_insert :: "'a::linorder \<Rightarrow> 'a list \<Rightarrow> 'a list" where
  "os_insert x xs = (if x \<in> set xs then xs else insort x xs)"

definition os_erase :: "'a \<Rightarrow> 'a list \<Rightarrow> 'a list" where
  "os_erase x xs = filter (\<lambda>y. y \<noteq> x) xs"

lemma set_os_insert [simp, omap_simps]: "set (os_insert x xs) = insert x (set xs)"
  by (auto simp: os_insert_def set_insort_key)

lemma set_os_erase [simp, omap_simps]: "set (os_erase x xs) = set xs - {x}"
  by (auto simp: os_erase_def)

definition os_ok :: "'a::linorder list \<Rightarrow> bool" where
  "os_ok xs \<longleftrightarrow> sorted_wrt (<) xs"

lemma os_ok_iff: "os_ok xs \<longleftrightarrow> sorted xs \<and> distinct xs"
  by (simp add: os_ok_def strict_sorted_iff)

lemma os_ok_Nil [simp]: "os_ok []"
  by (simp add: os_ok_def)

lemma os_ok_insert [intro]: "os_ok xs \<Longrightarrow> os_ok (os_insert x xs)"
  by (auto simp: os_ok_iff os_insert_def sorted_insort distinct_insort)

lemma os_ok_erase [intro]: "os_ok xs \<Longrightarrow> os_ok (os_erase x xs)"
  by (simp add: os_ok_def os_erase_def sorted_wrt_filter)

section \<open>Decimal text: \<open>std::to_string\<close> and zero padding\<close>

definition digit_char :: "nat \<Rightarrow> char" where
  "digit_char d = char_of (48 + d)"

fun nat_to_dec :: "nat \<Rightarrow> string" where
  "nat_to_dec n =
     (if n < 10 then [digit_char n] else nat_to_dec (n div 10) @ [digit_char (n mod 10)])"

declare nat_to_dec.simps [simp del]

definition int_to_dec :: "int \<Rightarrow> string" where
  "int_to_dec i = (if i < 0 then CHR ''-'' # nat_to_dec (nat (- i)) else nat_to_dec (nat i))"

text \<open>The \<open>printf\<close> conversion with a zero-padded width: the sign, then zeros, then digits.\<close>

definition pad_dec :: "nat \<Rightarrow> int \<Rightarrow> string" where
  "pad_dec w i =
     (let sign = (if i < 0 then ''-'' else []); digits = nat_to_dec (nat \<bar>i\<bar>)
      in sign @ replicate (w - length sign - length digits) (CHR ''0'') @ digits)"

lemma length_nat_to_dec: "0 < k \<Longrightarrow> n < 10 ^ k \<Longrightarrow> length (nat_to_dec n) \<le> k"
proof (induction n arbitrary: k rule: nat_to_dec.induct)
  case (1 n)
  show ?case
  proof (cases "n < 10")
    case True
    with "1.prems" show ?thesis by (simp add: nat_to_dec.simps [of n])
  next
    case False
    with "1.prems" obtain j where j: "k = Suc j" "0 < j"
      by (cases k; cases "k - 1") auto
    then have "n div 10 < 10 ^ j"
      using "1.prems"(2) by (simp add: div_less_iff_less_mult mult.commute)
    with False j "1.IH" [of j] show ?thesis
      by (simp add: nat_to_dec.simps [of n])
  qed
qed

lemma nat_to_dec_nonempty [simp]: "nat_to_dec n \<noteq> []"
  by (subst nat_to_dec.simps) simp

lemma length_pad_dec:
  assumes "0 \<le> i" "i < 10 ^ w" "0 < w"
  shows "length (pad_dec w i) = w"
proof -
  have "nat i < 10 ^ w" using assms by (simp add: nat_less_iff)
  then have "length (nat_to_dec (nat i)) \<le> w" using assms(3) by (rule length_nat_to_dec [rotated])
  with assms(1) show ?thesis by (simp add: pad_dec_def Let_def)
qed

section \<open>Searching strings: \<open>find\<close>, \<open>find_last_of\<close>, \<open>substr\<close>, \<open>tolower\<close>\<close>

text \<open>
  \<open>find_sub pat s\<close> is \<open>s.find(pat)\<close> and \<open>find_sub_from pat s pos\<close> is \<open>s.find(pat, pos)\<close>,
  with \<open>None\<close> for \<open>npos\<close>.
\<close>

definition starts_with :: "string \<Rightarrow> string \<Rightarrow> bool" where
  "starts_with pat s \<longleftrightarrow> take (length pat) s = pat"

fun find_sub :: "string \<Rightarrow> string \<Rightarrow> nat option" where
  "find_sub pat [] = (if pat = [] then Some 0 else None)"
| "find_sub pat (c # s) =
     (if starts_with pat (c # s) then Some 0 else map_option Suc (find_sub pat s))"

definition find_sub_from :: "string \<Rightarrow> string \<Rightarrow> nat \<Rightarrow> nat option" where
  "find_sub_from pat s pos =
     (if pos \<le> length s then map_option (\<lambda>i. i + pos) (find_sub pat (drop pos s)) else None)"

definition find_last_char :: "char \<Rightarrow> string \<Rightarrow> nat option" where
  "find_last_char c s = map_option (\<lambda>i. length s - 1 - i) (find_sub [c] (rev s))"

definition substr :: "string \<Rightarrow> nat \<Rightarrow> nat \<Rightarrow> string" where
  "substr s pos n = take n (drop pos s)"

definition tolower_char :: "char \<Rightarrow> char" where
  "tolower_char c =
     (let n = of_char c :: nat in if 65 \<le> n \<and> n \<le> 90 then char_of (n + 32) else c)"

definition to_lower :: "string \<Rightarrow> string" where
  "to_lower s = map tolower_char s"

lemma find_sub_Some_match: "find_sub pat s = Some i \<Longrightarrow> take (length pat) (drop i s) = pat"
  by (induction pat s arbitrary: i rule: find_sub.induct)
    (auto simp: starts_with_def split: if_splits)

lemma find_sub_Some_bound: "find_sub pat s = Some i \<Longrightarrow> i + length pat \<le> length s"
proof (induction pat s arbitrary: i rule: find_sub.induct)
  case (2 pat c s)
  show ?case
  proof (cases "starts_with pat (c # s)")
    case True
    then have "length (take (length pat) (c # s)) = length pat" by (simp add: starts_with_def)
    with True "2.prems" show ?thesis by simp
  next
    case False
    with 2 show ?thesis by auto
  qed
qed (auto split: if_splits)

lemma find_sub_first:
  "find_sub pat s = Some i \<Longrightarrow> j < i \<Longrightarrow> take (length pat) (drop j s) \<noteq> pat"
proof (induction pat s arbitrary: i j rule: find_sub.induct)
  case (2 pat c s)
  then show ?case
    by (cases j) (auto simp: starts_with_def split: if_splits)
qed (auto split: if_splits)

lemma find_sub_None:
  "find_sub pat s = None \<Longrightarrow> j \<le> length s \<Longrightarrow> take (length pat) (drop j s) \<noteq> pat"
proof (induction pat s arbitrary: j rule: find_sub.induct)
  case (2 pat c s)
  then show ?case
    by (cases j) (auto simp: starts_with_def split: if_splits)
qed (auto split: if_splits)

lemma length_to_lower [simp]: "length (to_lower s) = length s"
  by (simp add: to_lower_def)

lemma tolower_char_idem [simp]: "tolower_char (tolower_char c) = tolower_char c"
proof (cases "65 \<le> (of_char c :: nat) \<and> (of_char c :: nat) \<le> 90")
  case True
  then show ?thesis by (simp add: tolower_char_def Let_def)
next
  case False
  then show ?thesis by (auto simp: tolower_char_def Let_def)
qed

lemma to_lower_idem [simp]: "to_lower (to_lower s) = to_lower s"
  by (simp add: to_lower_def)

end
