(* ===== verification/SimTypes.thy ===== *)
theory SimTypes
  imports Prelude
begin

text \<open>
  \<open>include/sim_vision/common/Types.h\<close> and \<open>src/common/Types.cpp\<close>: the data types and
  their groups, the lookup table and its readers, the clock readings, and the two records
  that flow through the pipeline, \<open>DataBundle\<close> and \<open>ChannelFrame\<close>. A
  \<open>shared_ptr\<close> is an option, \<open>None\<close> being the null pointer.
\<close>

section \<open>Data types and groups\<close>

datatype data_type =
    StereoImage
  | DepthMap
  | PointCloud
  | IMU
  | DisparityMap
  | ConfidenceMap
  | Temperature
  | Magnetometer
  | Barometer

datatype data_group = Visual2D | Visual3D | SensorData

definition kDataTypeCount :: int where
  "kDataTypeCount = 9"

text \<open>The enumerators' values, \<open>static_cast<int>(t)\<close>.\<close>

fun dt_int :: "data_type \<Rightarrow> int" where
  "dt_int StereoImage = 0"
| "dt_int DepthMap = 1"
| "dt_int PointCloud = 2"
| "dt_int IMU = 3"
| "dt_int DisparityMap = 4"
| "dt_int ConfidenceMap = 5"
| "dt_int Temperature = 6"
| "dt_int Magnetometer = 7"
| "dt_int Barometer = 8"

lemma dt_int_inj: "dt_int a = dt_int b \<longleftrightarrow> a = b"
  by (cases a; cases b) simp_all

text \<open>
  The order of the enumerators is the order of their values: it is the key order of the
  \<open>std::map<int, ...>\<close> and \<open>std::set<int>\<close> that hold data types.
\<close>

instantiation data_type :: linorder
begin

definition less_eq_data_type :: "data_type \<Rightarrow> data_type \<Rightarrow> bool" where
  "less_eq_data_type a b \<longleftrightarrow> dt_int a \<le> dt_int b"

definition less_data_type :: "data_type \<Rightarrow> data_type \<Rightarrow> bool" where
  "less_data_type a b \<longleftrightarrow> dt_int a < dt_int b"

instance
  by standard (auto simp: less_eq_data_type_def less_data_type_def dt_int_inj)

end

lemmas dt_order = less_eq_data_type_def less_data_type_def

definition kTable :: "(data_type \<times> string \<times> data_group) list" where
  "kTable =
    [(StereoImage,   ''stereo_image'',   Visual2D),
     (DepthMap,      ''depth_map'',      Visual2D),
     (PointCloud,    ''point_cloud'',    Visual3D),
     (IMU,           ''imu'',            SensorData),
     (DisparityMap,  ''disparity_map'',  Visual3D),
     (ConfidenceMap, ''confidence_map'', Visual3D),
     (Temperature,   ''temperature'',    SensorData),
     (Magnetometer,  ''magnetometer'',   SensorData),
     (Barometer,     ''barometer'',      SensorData)]"

definition data_type_to_string :: "data_type \<Rightarrow> string" where
  "data_type_to_string t =
     (case find (\<lambda>e. fst e = t) kTable of Some e \<Rightarrow> fst (snd e) | None \<Rightarrow> ''unknown'')"

definition data_type_from_string :: "string \<Rightarrow> data_type option" where
  "data_type_from_string s = map_option fst (find (\<lambda>e. s = fst (snd e)) kTable)"

definition data_type_to_group :: "data_type \<Rightarrow> data_group" where
  "data_type_to_group t =
     (case find (\<lambda>e. fst e = t) kTable of Some e \<Rightarrow> snd (snd e) | None \<Rightarrow> SensorData)"

fun group_to_string :: "data_group \<Rightarrow> string" where
  "group_to_string Visual2D = ''visual_2d''"
| "group_to_string Visual3D = ''visual_3d''"
| "group_to_string SensorData = ''sensor_data''"

fun group_to_channel :: "data_group \<Rightarrow> string" where
  "group_to_channel Visual2D = ''visual_geometric_2d''"
| "group_to_channel Visual3D = ''visual_geometric_3d''"
| "group_to_channel SensorData = ''sensor_tracking''"

definition group_members :: "data_group \<Rightarrow> data_type list" where
  "group_members g = map fst (filter (\<lambda>e. snd (snd e) = g) kTable)"

definition all_data_types :: "data_type list" where
  "all_data_types = map fst kTable"

text \<open>The table's readers, evaluated once.\<close>

lemma data_type_to_string_simps [simp]:
  "data_type_to_string StereoImage = ''stereo_image''"
  "data_type_to_string DepthMap = ''depth_map''"
  "data_type_to_string PointCloud = ''point_cloud''"
  "data_type_to_string IMU = ''imu''"
  "data_type_to_string DisparityMap = ''disparity_map''"
  "data_type_to_string ConfidenceMap = ''confidence_map''"
  "data_type_to_string Temperature = ''temperature''"
  "data_type_to_string Magnetometer = ''magnetometer''"
  "data_type_to_string Barometer = ''barometer''"
  by (simp_all add: data_type_to_string_def kTable_def)

lemma data_type_to_group_simps [simp]:
  "data_type_to_group StereoImage = Visual2D"
  "data_type_to_group DepthMap = Visual2D"
  "data_type_to_group PointCloud = Visual3D"
  "data_type_to_group IMU = SensorData"
  "data_type_to_group DisparityMap = Visual3D"
  "data_type_to_group ConfidenceMap = Visual3D"
  "data_type_to_group Temperature = SensorData"
  "data_type_to_group Magnetometer = SensorData"
  "data_type_to_group Barometer = SensorData"
  by (simp_all add: data_type_to_group_def kTable_def)

lemma group_members_simps [simp]:
  "group_members Visual2D = [StereoImage, DepthMap]"
  "group_members Visual3D = [PointCloud, DisparityMap, ConfidenceMap]"
  "group_members SensorData = [IMU, Temperature, Magnetometer, Barometer]"
  by (simp_all add: group_members_def kTable_def)

lemma all_data_types_simp:
  "all_data_types = [StereoImage, DepthMap, PointCloud, IMU, DisparityMap, ConfidenceMap,
     Temperature, Magnetometer, Barometer]"
  by (simp add: all_data_types_def kTable_def)

lemma group_members_iff: "t \<in> set (group_members g) \<longleftrightarrow> data_type_to_group t = g"
  by (cases t; cases g) simp_all

lemma distinct_group_members [simp]: "distinct (group_members g)"
  by (cases g) simp_all

lemma mem_all_data_types [simp]: "t \<in> set all_data_types"
  by (cases t) (simp_all add: all_data_types_simp)

lemma data_type_from_to_string: "data_type_from_string (data_type_to_string t) = Some t"
  by (cases t) (simp_all add: data_type_from_string_def kTable_def)

lemma data_type_to_from_string:
  "data_type_from_string s = Some t \<Longrightarrow> data_type_to_string t = s"
  by (auto simp: data_type_from_string_def kTable_def split: if_splits)

lemma data_type_to_string_lower: "to_lower (data_type_to_string t) = data_type_to_string t"
  by (cases t) (simp_all add: to_lower_def tolower_char_def)

text \<open>
  The type names are a faithful encoding: reading back the printed name of a data type
  gives that type, a name is accepted only if it is the printed name of the type it yields,
  and each type is a member of exactly the group it maps to.
\<close>

theorem data_type_names_roundtrip:
  "data_type_from_string (data_type_to_string t) = Some t \<and>
   (data_type_from_string s = Some u \<longleftrightarrow> s = data_type_to_string u) \<and>
   (t \<in> set (group_members g) \<longleftrightarrow> g = data_type_to_group t)"
  using data_type_from_to_string data_type_to_from_string
  by (auto simp: group_members_iff)

section \<open>Clock readings\<close>

text \<open>
  \<open>system_clock::now()\<close> is read as the number of nanoseconds since the epoch; the casts to
  coarser units truncate towards zero. Each function below makes its own reading of the
  clock, which is therefore its argument.
\<close>

definition ns_per_sec :: int where
  "ns_per_sec = 1000000000"

definition trunc_quot :: "int \<Rightarrow> int \<Rightarrow> int" where
  "trunc_quot a b = sgn a * sgn b * (\<bar>a\<bar> div \<bar>b\<bar>)"

definition now_unix_sec :: "int \<Rightarrow> int" where
  "now_unix_sec clock = trunc_quot clock ns_per_sec"

definition now_unix_nsec :: "int \<Rightarrow> int" where
  "now_unix_nsec clock = clock - trunc_quot clock ns_per_sec * ns_per_sec"

lemma now_unix_nonneg:
  "0 \<le> clock \<Longrightarrow> now_unix_sec clock = clock div ns_per_sec"
  "0 \<le> clock \<Longrightarrow> now_unix_nsec clock = clock mod ns_per_sec"
  by (auto simp: now_unix_sec_def now_unix_nsec_def trunc_quot_def ns_per_sec_def
      sgn_if minus_div_mult_eq_mod)

text \<open>The broken-down local time that \<open>localtime_r\<close> returns, and the log's time stamp.\<close>

record tm =
  tm_year :: int
  tm_mon :: int
  tm_mday :: int
  tm_hour :: int
  tm_min :: int
  tm_sec :: int

text \<open>\<open>snprintf\<close> keeps at most \<open>sizeof(buf) - 1\<close> characters.\<close>

definition format_log_timestamp :: "(int \<Rightarrow> tm) \<Rightarrow> int \<Rightarrow> string" where
  "format_log_timestamp localtime clock =
     (let secs = trunc_quot clock ns_per_sec;
          ms = trunc_quot (clock - secs * ns_per_sec) 1000000;
          t = localtime secs
      in take 47
        (pad_dec 4 (tm_year t + 1900) @ pad_dec 2 (tm_mon t + 1) @ pad_dec 2 (tm_mday t) @
         ''-'' @
         pad_dec 2 (tm_hour t) @ pad_dec 2 (tm_min t) @ pad_dec 2 (tm_sec t) @
         ''-'' @ pad_dec 3 ms))"

definition tm_ok :: "tm \<Rightarrow> bool" where
  "tm_ok t \<longleftrightarrow>
     - 1900 \<le> tm_year t \<and> tm_year t \<le> 8099 \<and> 0 \<le> tm_mon t \<and> tm_mon t \<le> 11 \<and>
     1 \<le> tm_mday t \<and> tm_mday t \<le> 31 \<and> 0 \<le> tm_hour t \<and> tm_hour t \<le> 23 \<and>
     0 \<le> tm_min t \<and> tm_min t \<le> 59 \<and> 0 \<le> tm_sec t \<and> tm_sec t \<le> 60"

lemma length_format_log_timestamp:
  assumes "tm_ok (lt (clock div ns_per_sec))" "0 \<le> clock"
  shows "length (format_log_timestamp lt clock) = 19"
proof -
  let ?t = "lt (clock div ns_per_sec)"
  have q: "trunc_quot clock ns_per_sec = clock div ns_per_sec"
    using now_unix_nonneg(1) [OF assms(2)] by (simp add: now_unix_sec_def)
  have r: "0 \<le> clock mod ns_per_sec" "clock mod ns_per_sec < 1000000000"
    by (simp_all add: ns_per_sec_def)
  have m: "trunc_quot (clock mod ns_per_sec) 1000000 = clock mod ns_per_sec div 1000000"
    using r by (simp add: trunc_quot_def sgn_if)
  have ms: "0 \<le> clock mod ns_per_sec div 1000000" "clock mod ns_per_sec div 1000000 < 10 ^ 3"
    using r by (simp_all add: pos_imp_zdiv_nonneg_iff div_less_iff_less_mult)
  show ?thesis
    using assms(1) ms m
    by (simp add: format_log_timestamp_def Let_def q minus_div_mult_eq_mod tm_ok_def length_pad_dec)
qed

section \<open>The records of the data flow\<close>

record data_bundle =
  b_type :: data_type
  b_part_id :: string
  b_data :: "byte list"
  b_ts_sec :: int
  b_ts_nsec :: int
  b_source :: string
  b_format :: string
  b_is_encoded :: bool
  b_channels :: int
  b_code :: string
  b_right_channels :: int
  b_right_code :: string
  b_width :: int
  b_height :: int

record channel_frame =
  cf_group :: data_group
  cf_ts_sec :: int
  cf_ts_nsec :: int
  cf_pair_id :: u64
  cf_frame_index :: u64
  cf_pub_id :: string
  cf_bundles :: "data_bundle list"

type_synonym frame_ptr = "channel_frame option"

end
