(* ===== verification/SPSCQueue.thy ===== *)
theory SPSCQueue
  imports SimTypes
begin

text \<open>
  \<open>include/sim_vision/data/SPSCQueue.h\<close> and \<open>src/data/SPSCQueue.cpp\<close>: the ring buffer
  \<open>ChannelFrameQueue\<close>, run by one thread at a time (the theory \<open>SPSCThreads\<close> interleaves
  the producer and the consumer). The counters \<open>head_\<close> and \<open>tail_\<close> are 64-bit words that
  only grow, modulo \<open>2^64\<close>. The locale \<open>bounded_queue\<close> is the contract of a bounded FIFO that
  refuses the newest element when full; the ring is proved to provide it.
\<close>

section \<open>The ring buffer\<close>

record 'a spsc =
  q_capacity :: u64
  q_buffer :: "'a option list"
  q_head :: u64
  q_tail :: u64
  q_pushed :: u64
  q_dropped :: u64

text \<open>
  The constructor; \<open>buffer_.resize\<close> throws above \<open>vector::max_size()\<close>, which for 16-byte
  pointers is \<open>PTRDIFF_MAX / 16\<close>.
\<close>

definition queue_max_size :: nat where
  "queue_max_size = (2 ^ 63 - 1) div 16"

definition queue_new :: "u64 \<Rightarrow> 'a spsc result" where
  "queue_new capacity =
     (let cap = (if capacity < 1 then 1 else capacity)
      in if queue_max_size < unat cap then Inl (LengthError ''vector::_M_default_append'')
         else Inr \<lparr>q_capacity = cap, q_buffer = replicate (unat cap) None,
                   q_head = 0, q_tail = 0, q_pushed = 0, q_dropped = 0\<rparr>)"

text \<open>\<open>i % capacity_\<close>, the slot of a counter value.\<close>

definition slot :: "'a spsc \<Rightarrow> u64 \<Rightarrow> nat" where
  "slot q i = unat (i mod q_capacity q)"

definition try_push :: "'a option \<Rightarrow> 'a spsc \<Rightarrow> bool \<times> 'a spsc" where
  "try_push frame q =
     (let h = q_head q; t = q_tail q
      in if q_capacity q \<le> h - t then (False, q\<lparr>q_dropped := q_dropped q + 1\<rparr>)
         else (True, q\<lparr>q_buffer := (q_buffer q)[slot q h := frame],
                       q_head := h + 1, q_pushed := q_pushed q + 1\<rparr>))"

text \<open>\<open>None\<close> is the return value \<open>false\<close>; otherwise \<open>out\<close> and the queue after the call.\<close>

definition try_pop :: "'a spsc \<Rightarrow> ('a option \<times> 'a spsc) option" where
  "try_pop q =
     (let t = q_tail q; h = q_head q
      in if h = t then None
         else Some (q_buffer q ! slot q t,
                    q\<lparr>q_buffer := (q_buffer q)[slot q t := None], q_tail := t + 1\<rparr>))"

definition q_empty :: "'a spsc \<Rightarrow> bool" where
  "q_empty q \<longleftrightarrow> q_head q = q_tail q"

definition q_full :: "'a spsc \<Rightarrow> bool" where
  "q_full q \<longleftrightarrow> q_capacity q \<le> q_head q - q_tail q"

definition q_size :: "'a spsc \<Rightarrow> u64" where
  "q_size q = q_head q - q_tail q"

definition total_pushed :: "'a spsc \<Rightarrow> u64" where
  "total_pushed q = q_pushed q"

definition total_dropped :: "'a spsc \<Rightarrow> u64" where
  "total_dropped q = q_dropped q"

definition reset_stats :: "'a spsc \<Rightarrow> 'a spsc" where
  "reset_stats q = q\<lparr>q_pushed := 0, q_dropped := 0\<rparr>"

text \<open>
  The loop \<open>while (q.try_pop(f)) out.push_back(std::move(f));\<close>: each round moves the tail
  one step towards the head, so it ends after \<open>head_ - tail_\<close> rounds.
\<close>

lemma try_pop_decreases:
  assumes "try_pop q = Some (x, q')"
  shows "unat (q_head q' - q_tail q') < unat (q_head q - q_tail q)"
proof -
  let ?d = "q_head q - q_tail q"
  from assms have ne: "?d \<noteq> 0" and q': "q_head q' - q_tail q' = ?d - 1"
    by (auto simp: try_pop_def Let_def split: if_splits)
  from ne have "unat (?d - 1) = unat ?d - 1" by (rule unat_minus_one)
  moreover from ne have "unat ?d \<noteq> 0" by (simp only: unat_eq_0 not_False_eq_True)
  ultimately show ?thesis by (simp add: q')
qed

function pop_loop :: "'a spsc \<Rightarrow> 'a option list \<times> 'a spsc" where
  "pop_loop q =
     (case try_pop q of
        None \<Rightarrow> ([], q)
      | Some (f, q') \<Rightarrow> (let r = pop_loop q' in (f # fst r, snd r)))"
  by pat_completeness auto
termination
  by (relation "measure (\<lambda>q. unat (q_head q - q_tail q))") (auto dest: try_pop_decreases)

declare pop_loop.simps [simp del]

lemma pop_loop_induct [case_names 1]:
  assumes "\<And>q. (\<And>x q'. try_pop q = Some (x, q') \<Longrightarrow> P q') \<Longrightarrow> P q"
  shows "P q"
  by (induction q rule: pop_loop.induct) (auto intro: assms)

definition q_clear :: "'a spsc \<Rightarrow> 'a spsc" where
  "q_clear q = snd (pop_loop q)"

section \<open>The contract of a bounded queue\<close>

text \<open>
  \<open>items\<close> is what the queue holds, oldest first. A push below capacity appends; a push at
  capacity refuses the new element and keeps the old ones. \<open>room\<close> is the provider's own
  side condition on accepting an element.
\<close>

locale bounded_queue =
  fixes push :: "'e \<Rightarrow> 'q \<Rightarrow> bool \<times> 'q"
    and pop :: "'q \<Rightarrow> ('e \<times> 'q) option"
    and items :: "'q \<Rightarrow> 'e list"
    and cap :: "'q \<Rightarrow> nat"
    and invar :: "'q \<Rightarrow> bool"
    and room :: "'q \<Rightarrow> bool"
  assumes push_accepts: "invar q \<Longrightarrow> room q \<Longrightarrow> length (items q) < cap q \<Longrightarrow>
        fst (push x q) \<and> items (snd (push x q)) = items q @ [x] \<and> invar (snd (push x q))"
    and push_refuses: "invar q \<Longrightarrow> cap q \<le> length (items q) \<Longrightarrow>
        \<not> fst (push x q) \<and> items (snd (push x q)) = items q \<and> invar (snd (push x q))"
    and pop_empty: "invar q \<Longrightarrow> pop q = None \<longleftrightarrow> items q = []"
    and pop_first: "invar q \<Longrightarrow> pop q = Some (x, q') \<Longrightarrow>
        items q = x # items q' \<and> invar q' \<and> cap q' = cap q"
    and cap_push: "cap (snd (push x q)) = cap q"
    and items_bound: "invar q \<Longrightarrow> length (items q) \<le> cap q"
begin

lemma push_items:
  "invar q \<Longrightarrow> room q \<Longrightarrow>
   items (snd (push x q)) = items q @ (if fst (push x q) then [x] else []) \<and>
   (fst (push x q) \<longleftrightarrow> length (items q) < cap q)"
  using push_accepts [of q x] push_refuses [of q x] by (cases "length (items q) < cap q") auto

lemma push_invar: "invar q \<Longrightarrow> room q \<Longrightarrow> invar (snd (push x q))"
  using push_accepts [of q x] push_refuses [of q x] by (cases "length (items q) < cap q") auto

lemma pop_nonempty:
  assumes "invar q" "items q \<noteq> []"
  obtains q' where "pop q = Some (hd (items q), q')" "items q' = tl (items q)"
    "invar q'" "cap q' = cap q"
proof -
  obtain x q' where p: "pop q = Some (x, q')"
    using pop_empty [OF assms(1)] assms(2) by auto
  show ?thesis using that p pop_first [OF assms(1) p] by auto
qed

end

text \<open>A queue with the loop that empties it.\<close>

locale drained_queue = bounded_queue push pop items cap invar room
  for push :: "'e \<Rightarrow> 'q \<Rightarrow> bool \<times> 'q"
    and pop :: "'q \<Rightarrow> ('e \<times> 'q) option"
    and items :: "'q \<Rightarrow> 'e list"
    and cap :: "'q \<Rightarrow> nat"
    and invar :: "'q \<Rightarrow> bool"
    and room :: "'q \<Rightarrow> bool" +
  fixes drain :: "'q \<Rightarrow> 'e list \<times> 'q"
  assumes drain_unfold: "drain q =
      (case pop q of None \<Rightarrow> ([], q)
       | Some (x, q') \<Rightarrow> (x # fst (drain q'), snd (drain q')))"
begin

lemma drain_items:
  "invar q \<Longrightarrow>
   fst (drain q) = items q \<and> items (snd (drain q)) = [] \<and> invar (snd (drain q)) \<and>
   cap (snd (drain q)) = cap q"
proof (induction "items q" arbitrary: q)
  case Nil
  then show ?case using pop_empty [of q] by (subst (1 2 3 4) drain_unfold) auto
next
  case (Cons x xs)
  then obtain q' where p: "pop q = Some (x, q')" "items q' = xs" "invar q'" "cap q' = cap q"
    by (metis list.distinct(1) list.sel(1,3) pop_nonempty)
  with Cons.hyps(1) [of q'] Cons.hyps(2) show ?case
    by (subst (1 2 3 4) drain_unfold) auto
qed

lemma drain_idle: "invar q \<Longrightarrow> items q = [] \<Longrightarrow> drain q = ([], q)"
  using pop_empty [of q] by (subst drain_unfold) auto

end

section \<open>The ring implements the contract\<close>

text \<open>
  \<open>q_items\<close> reads the window \<open>tail_, tail_ + 1, ..., head_ - 1\<close> off the buffer. The slots of
  a window are distinct as long as the capacity divides \<open>2^64\<close> or the window does not
  straddle the point where the counters wrap to 0 (\<open>ring_ok\<close>); \<open>q_room\<close> is that condition
  for the window with one more element.
\<close>

definition q_count :: "'a spsc \<Rightarrow> nat" where
  "q_count q = unat (q_head q - q_tail q)"

definition wslot :: "'a spsc \<Rightarrow> nat \<Rightarrow> nat" where
  "wslot q i = slot q (q_tail q + of_nat i)"

definition q_items :: "'a spsc \<Rightarrow> 'a option list" where
  "q_items q = map (\<lambda>i. q_buffer q ! wslot q i) [0..<q_count q]"

definition q_cap :: "'a spsc \<Rightarrow> nat" where
  "q_cap q = unat (q_capacity q)"

definition ring_ok :: "'a spsc \<Rightarrow> nat \<Rightarrow> bool" where
  "ring_ok q n \<longleftrightarrow> q_cap q dvd 2 ^ 64 \<or> unat (q_tail q) + n \<le> 2 ^ 64"

definition q_room :: "'a spsc \<Rightarrow> bool" where
  "q_room q \<longleftrightarrow> ring_ok q (Suc (q_count q))"

text \<open>The slots outside the window hold the null pointer.\<close>

definition q_invar :: "'a spsc \<Rightarrow> bool" where
  "q_invar q \<longleftrightarrow>
     0 < q_cap q \<and> length (q_buffer q) = q_cap q \<and> q_count q \<le> q_cap q \<and>
     ring_ok q (q_count q) \<and>
     (\<forall>j < q_cap q. (\<forall>i < q_count q. wslot q i \<noteq> j) \<longrightarrow> q_buffer q ! j = None)"

lemma slot_less: "0 < q_cap q \<Longrightarrow> slot q i < q_cap q"
  by (simp add: slot_def q_cap_def unat_mod)

lemma wslot_less: "0 < q_cap q \<Longrightarrow> wslot q i < q_cap q"
  by (simp add: wslot_def slot_less)

lemma length_q_items [simp]: "length (q_items q) = q_count q"
  by (simp add: q_items_def)

lemma wslot_mod:
  assumes "ring_ok q n" "i < n"
  shows "wslot q i = (unat (q_tail q) + i) mod q_cap q"
proof (cases "q_cap q dvd 2 ^ 64")
  case True
  have "unat (q_tail q + of_nat i) = (unat (q_tail q) + i) mod 2 ^ 64"
    by (simp add: unat_word_ariths unat_of_nat mod_add_right_eq)
  with True show ?thesis
    by (simp add: wslot_def slot_def unat_mod q_cap_def mod_mod_cancel)
next
  case False
  with assms have "unat (q_tail q) + i < 2 ^ 64" by (simp add: ring_ok_def)
  then have "unat (q_tail q + of_nat i) = unat (q_tail q) + i"
    by (simp add: unat_word_ariths unat_of_nat)
  then show ?thesis by (simp add: wslot_def slot_def unat_mod q_cap_def)
qed

lemma wslot_distinct:
  assumes "ring_ok q n" "n \<le> q_cap q" "i < j" "j < n"
  shows "wslot q i \<noteq> wslot q j"
proof
  assume "wslot q i = wslot q j"
  with assms have "(unat (q_tail q) + j) mod q_cap q = (unat (q_tail q) + i) mod q_cap q"
    using wslot_mod [OF assms(1)] by simp
  then have "q_cap q dvd j - i"
    using assms(3) by (simp add: mod_eq_dvd_iff_nat)
  with assms show False by (auto dest: dvd_imp_le)
qed

lemma wslot_distinct':
  "ring_ok q n \<Longrightarrow> n \<le> q_cap q \<Longrightarrow> i < n \<Longrightarrow> j < n \<Longrightarrow> i \<noteq> j \<Longrightarrow> wslot q i \<noteq> wslot q j"
  by (metis linorder_neqE_nat wslot_distinct)

lemma head_slot: "slot q (q_head q) = wslot q (q_count q)"
  by (simp add: wslot_def q_count_def)

lemma q_full_count: "q_capacity q \<le> q_head q - q_tail q \<longleftrightarrow> q_cap q \<le> q_count q"
  by (simp add: word_le_nat_alt q_cap_def q_count_def)

lemma q_cap_less: "q_cap q < 2 ^ 64"
  unfolding q_cap_def using unsigned_less [of "q_capacity q"] by simp

lemma ring_ok_mono: "ring_ok q n \<Longrightarrow> m \<le> n \<Longrightarrow> ring_ok q m"
  by (auto simp: ring_ok_def)

lemma push_refused:
  "q_cap q \<le> q_count q \<Longrightarrow> try_push f q = (False, q\<lparr>q_dropped := q_dropped q + 1\<rparr>)"
  by (simp add: try_push_def q_full_count)

lemma push_accepted:
  assumes "q_count q < q_cap q"
  shows "try_push f q = (True, q\<lparr>q_buffer := (q_buffer q)[wslot q (q_count q) := f],
            q_head := q_head q + 1, q_pushed := q_pushed q + 1\<rparr>)"
  using assms by (simp add: try_push_def q_full_count head_slot Let_def)

lemma q_count_push:
  assumes "q_count q < q_cap q"
  shows "unat (q_head q + 1 - q_tail q) = Suc (q_count q)"
proof -
  let ?d = "q_head q - q_tail q"
  have "unat ?d + 1 < 2 ^ 64"
    using assms q_cap_less [of q] by (simp add: q_count_def)
  then have "unat (?d + 1) = unat ?d + 1" by (simp add: unat_word_ariths)
  then show ?thesis by (simp add: q_count_def diff_add_eq)
qed

lemma spsc_dropped_frame [simp]:
  "q_items (q\<lparr>q_dropped := d\<rparr>) = q_items q" "q_invar (q\<lparr>q_dropped := d\<rparr>) = q_invar q"
  "q_cap (q\<lparr>q_dropped := d\<rparr>) = q_cap q" "q_count (q\<lparr>q_dropped := d\<rparr>) = q_count q"
  by (simp_all add: q_items_def q_invar_def q_cap_def q_count_def wslot_def slot_def ring_ok_def)

lemma push_accepted_spec:
  assumes inv: "q_invar q" and room: "q_room q" and free: "q_count q < q_cap q"
  shows "q_items (snd (try_push f q)) = q_items q @ [f]" (is ?items)
    and "q_invar (snd (try_push f q))" (is ?inv)
proof -
  define q' where "q' = snd (try_push f q)"
  have q': "q' = q\<lparr>q_buffer := (q_buffer q)[wslot q (q_count q) := f],
              q_head := q_head q + 1, q_pushed := q_pushed q + 1\<rparr>"
    by (simp add: q'_def push_accepted [OF free])
  have cnt: "q_count q' = Suc (q_count q)"
    using q_count_push [OF free] by (simp add: q' q_count_def)
  have ws: "wslot q' i = wslot q i" and cap: "q_cap q' = q_cap q" for i
    by (simp_all add: q' wslot_def slot_def q_cap_def)
  have ring: "ring_ok q (Suc (q_count q))" using room by (simp add: q_room_def)
  have neq: "wslot q i \<noteq> wslot q (q_count q)" if "i < q_count q" for i
    using wslot_distinct [OF ring _ that] free by simp
  have len: "length (q_buffer q) = q_cap q" and pos: "0 < q_cap q"
    using inv by (simp_all add: q_invar_def)
  have buf: "q_buffer q' = (q_buffer q)[wslot q (q_count q) := f]" by (simp add: q')
  have old: "q_buffer q' ! wslot q i = q_buffer q ! wslot q i" if "i < q_count q" for i
    using neq [OF that] by (simp add: q')
  have new: "q_buffer q' ! wslot q (q_count q) = f"
    using wslot_less [OF pos] by (simp add: q' len)
  show ?items
    unfolding q'_def [symmetric] by (simp add: q_items_def cnt ws old new)
  have outside: "q_buffer q' ! j = None"
    if "j < q_cap q'" "\<forall>i < q_count q'. wslot q' i \<noteq> j" for j
    using that inv by (auto simp: buf cap cnt ws q_invar_def less_Suc_eq nth_list_update)
  have "q_tail q' = q_tail q" by (simp add: q')
  then have "ring_ok q' (q_count q')"
    using ring by (simp add: cnt cap ring_ok_def)
  with outside show ?inv
    unfolding q'_def [symmetric] using pos len free cap cnt by (auto simp: q_invar_def q')
qed

lemma pop_spec:
  assumes inv: "q_invar q" and ne: "q_head q \<noteq> q_tail q"
  shows "try_pop q = Some (q_buffer q ! wslot q 0,
           q\<lparr>q_buffer := (q_buffer q)[wslot q 0 := None], q_tail := q_tail q + 1\<rparr>)"
  using ne by (simp add: try_pop_def Let_def wslot_def)

lemma pop_empty_iff: "try_pop q = None \<longleftrightarrow> q_items q = []"
proof -
  have "q_head q = q_tail q \<longleftrightarrow> q_count q = 0"
    by (simp add: q_count_def unat_eq_0)
  then show ?thesis by (simp add: try_pop_def Let_def q_items_def)
qed

lemma pop_first_spec:
  assumes inv: "q_invar q" and pop: "try_pop q = Some (x, q')"
  shows "q_items q = x # q_items q'" and "q_invar q'" and "q_cap q' = q_cap q"
proof -
  have ne: "q_head q \<noteq> q_tail q"
    using pop by (auto simp: try_pop_def Let_def split: if_splits)
  have x: "x = q_buffer q ! wslot q 0" and buf: "q_buffer q' = (q_buffer q)[wslot q 0 := None]"
    and tail: "q_tail q' = q_tail q + 1" and head: "q_head q' = q_head q"
    and capw: "q_capacity q' = q_capacity q"
    using pop pop_spec [OF inv ne] by auto
  have cnt: "q_count q = Suc (q_count q')"
  proof -
    have d: "q_head q' - q_tail q' = (q_head q - q_tail q) - 1" by (simp add: head tail)
    have "q_head q - q_tail q \<noteq> 0" using ne by simp
    then show ?thesis
      by (simp add: q_count_def d unat_minus_one unat_gt_0 Suc_diff_1)
  qed
  have cap: "q_cap q' = q_cap q" by (simp add: q_cap_def capw)
  have ws: "wslot q' i = wslot q (Suc i)" for i
    by (simp add: wslot_def slot_def tail capw add.assoc)
  have pos: "0 < q_cap q" and len: "length (q_buffer q) = q_cap q"
    and ring: "ring_ok q (q_count q)" and le: "q_count q \<le> q_cap q"
    using inv by (simp_all add: q_invar_def)
  have neq: "wslot q 0 \<noteq> wslot q (Suc i)" if "i < q_count q'" for i
    using wslot_distinct [OF ring le, of 0 "Suc i"] that cnt by auto
  show "q_items q = x # q_items q'"
  proof -
    have "q_items q = map (\<lambda>i. q_buffer q ! wslot q i) (0 # map Suc [0..<q_count q'])"
      by (simp add: q_items_def cnt map_Suc_upt upt_conv_Cons del: upt_Suc)
    then show ?thesis
      using neq by (simp add: q_items_def x buf ws comp_def)
  qed
  show "q_cap q' = q_cap q" by (rule cap)
  have "ring_ok q' (q_count q')"
  proof (cases "q_cap q dvd 2 ^ 64")
    case False
    then have "unat (q_tail q) + Suc (q_count q') \<le> 2 ^ 64"
      using ring by (simp add: ring_ok_def cnt)
    moreover have "unat (q_tail q + 1) \<le> unat (q_tail q) + 1"
      by (simp add: unat_word_ariths)
    ultimately show ?thesis by (simp add: ring_ok_def tail)
  qed (simp add: ring_ok_def cap)
  moreover have "q_buffer q' ! j = None"
    if j: "j < q_cap q'" and out: "\<forall>i < q_count q'. wslot q' i \<noteq> j" for j
  proof (cases "wslot q 0 = j")
    case True
    then show ?thesis using j by (simp add: buf len cap)
  next
    case False
    then have "\<forall>i < q_count q. wslot q i \<noteq> j"
      using out by (auto simp: cnt ws less_Suc_eq_0_disj)
    then have "q_buffer q ! j = None" using inv j by (simp add: q_invar_def cap)
    then show ?thesis using False by (simp add: buf)
  qed
  ultimately show "q_invar q'"
    using pos len le cnt cap by (auto simp: q_invar_def buf)
qed

lemma q_cap_push: "q_cap (snd (try_push f q)) = q_cap q"
  by (simp add: try_push_def q_cap_def Let_def)

text \<open>The ring provides the contract, with the loop of \<open>pop_all\<close> and \<open>clear\<close>.\<close>

interpretation ring: drained_queue try_push try_pop q_items q_cap q_invar q_room pop_loop
proof (unfold_locales, goal_cases)
  case (1 q x)
  then show ?case using push_accepted_spec [of q x] push_accepted [of q x] by simp
next
  case (2 q x)
  then show ?case using push_refused [of q x] by simp
next
  case (3 q)
  show ?case by (rule pop_empty_iff)
next
  case (4 q x q')
  then show ?case using pop_first_spec [of q x q'] by simp
next
  case (5 x q)
  show ?case by (rule q_cap_push)
next
  case (6 q)
  then show ?case by (simp add: q_invar_def)
next
  case (7 q)
  show ?case by (subst pop_loop.simps) (simp add: Let_def split: option.splits)
qed

section \<open>Refinement of an abstract drop-newest FIFO\<close>

text \<open>What \<open>ChannelFrameQueue\<close> promises its callers: a bounded list with two counters.\<close>

record 'a fifo =
  fi_items :: "'a list"
  fi_cap :: nat
  fi_pushed :: u64
  fi_dropped :: u64

definition fifo_push :: "'a \<Rightarrow> 'a fifo \<Rightarrow> bool \<times> 'a fifo" where
  "fifo_push x s =
     (if length (fi_items s) < fi_cap s
      then (True, s\<lparr>fi_items := fi_items s @ [x], fi_pushed := fi_pushed s + 1\<rparr>)
      else (False, s\<lparr>fi_dropped := fi_dropped s + 1\<rparr>))"

definition fifo_pop :: "'a fifo \<Rightarrow> ('a \<times> 'a fifo) option" where
  "fifo_pop s =
     (case fi_items s of [] \<Rightarrow> None | x # xs \<Rightarrow> Some (x, s\<lparr>fi_items := xs\<rparr>))"

definition q_abs :: "'a spsc \<Rightarrow> 'a option fifo" where
  "q_abs q = \<lparr>fi_items = q_items q, fi_cap = q_cap q,
              fi_pushed = q_pushed q, fi_dropped = q_dropped q\<rparr>"

lemma try_push_abs:
  assumes "q_invar q" "q_room q"
  shows "map_prod id q_abs (try_push f q) = fifo_push f (q_abs q)"
proof (cases "q_count q < q_cap q")
  case True
  with push_accepted_spec(1) [OF assms True, of f] push_accepted [OF True, of f] q_cap_push [of f q]
  show ?thesis by (simp add: fifo_push_def q_abs_def)
next
  case False
  then show ?thesis using push_refused [of q f] by (simp add: fifo_push_def q_abs_def)
qed

lemma try_pop_abs:
  assumes "q_invar q"
  shows "map_option (map_prod id q_abs) (try_pop q) = fifo_pop (q_abs q)"
proof (cases "try_pop q")
  case None
  then show ?thesis using pop_empty_iff [of q] by (simp add: fifo_pop_def q_abs_def)
next
  case (Some r)
  then obtain x q' where r: "try_pop q = Some (x, q')" by (cases r) auto
  have "q_pushed q' = q_pushed q" "q_dropped q' = q_dropped q"
    using r by (auto simp: try_pop_def Let_def split: if_splits)
  then show ?thesis using pop_first_spec [OF assms r] r by (simp add: fifo_pop_def q_abs_def)
qed

text \<open>The operations as a script, and what a caller observes of each.\<close>

datatype 'a qop = QPush "'a option" | QPop | QSize | QResetStats | QClear

datatype 'a qobs = ObsBool bool | ObsPop "'a option option" | ObsSize u64 | ObsNone

fun q_step :: "'a qop \<Rightarrow> 'a spsc \<Rightarrow> 'a qobs \<times> 'a spsc" where
  "q_step (QPush f) q = map_prod ObsBool id (try_push f q)"
| "q_step QPop q = (case try_pop q of None \<Rightarrow> (ObsPop None, q) | Some (f, q') \<Rightarrow> (ObsPop (Some f), q'))"
| "q_step QSize q = (ObsSize (q_size q), q)"
| "q_step QResetStats q = (ObsNone, reset_stats q)"
| "q_step QClear q = (ObsNone, q_clear q)"

fun fifo_step :: "'a qop \<Rightarrow> 'a option fifo \<Rightarrow> 'a qobs \<times> 'a option fifo" where
  "fifo_step (QPush f) s = map_prod ObsBool id (fifo_push f s)"
| "fifo_step QPop s = (case fifo_pop s of None \<Rightarrow> (ObsPop None, s) | Some (f, s') \<Rightarrow> (ObsPop (Some f), s'))"
| "fifo_step QSize s = (ObsSize (of_nat (length (fi_items s))), s)"
| "fifo_step QResetStats s = (ObsNone, s\<lparr>fi_pushed := 0, fi_dropped := 0\<rparr>)"
| "fifo_step QClear s = (ObsNone, s\<lparr>fi_items := []\<rparr>)"

fun q_run :: "'a qop list \<Rightarrow> 'a spsc \<Rightarrow> 'a qobs list" where
  "q_run [] q = []"
| "q_run (op # ops) q = (let r = q_step op q in fst r # q_run ops (snd r))"

fun fifo_run :: "'a qop list \<Rightarrow> 'a option fifo \<Rightarrow> 'a qobs list" where
  "fifo_run [] s = []"
| "fifo_run (op # ops) s = (let r = fifo_step op s in fst r # fifo_run ops (snd r))"

text \<open>
  The strengthened invariant of a run: \<open>n\<close> elements have been accepted since the counters
  were 0, or the capacity divides \<open>2^64\<close> and the number does not matter.
\<close>

definition q_at :: "nat \<Rightarrow> 'a spsc \<Rightarrow> bool" where
  "q_at n q \<longleftrightarrow> q_invar q \<and> (q_cap q dvd 2 ^ 64 \<or> unat (q_tail q) + q_count q \<le> n)"

lemma q_at_room: "q_at n q \<Longrightarrow> n < 2 ^ 64 \<Longrightarrow> q_room q"
  by (auto simp: q_at_def q_room_def ring_ok_def)

lemma q_at_push:
  assumes "q_at n q" "n < 2 ^ 64"
  shows "q_at (Suc n) (snd (try_push f q))"
proof -
  have inv: "q_invar q" and room: "q_room q"
    using assms q_at_room by (auto simp: q_at_def)
  show ?thesis
  proof (cases "q_count q < q_cap q")
    case True
    have "q_count (snd (try_push f q)) = Suc (q_count q)"
      using q_count_push [OF True] by (simp add: push_accepted [OF True] q_count_def)
    moreover have "q_tail (snd (try_push f q)) = q_tail q" by (simp add: push_accepted [OF True])
    ultimately show ?thesis
      using assms(1) ring.push_invar [OF inv room] by (auto simp: q_at_def q_cap_push)
  next
    case False
    then show ?thesis using assms(1) push_refused [of q f] by (auto simp: q_at_def)
  qed
qed

lemma q_at_pop: "q_at n q \<Longrightarrow> try_pop q = Some (x, q') \<Longrightarrow> q_at n q'"
proof -
  assume at: "q_at n q" and pop: "try_pop q = Some (x, q')"
  then have inv: "q_invar q" by (simp add: q_at_def)
  have "q_count q = Suc (q_count q')"
    using pop_first_spec(1) [OF inv pop] length_q_items [of q] by simp
  moreover have "q_tail q' = q_tail q + 1"
    using pop by (auto simp: try_pop_def Let_def split: if_splits)
  then have "unat (q_tail q') \<le> Suc (unat (q_tail q))"
    by (simp add: unat_word_ariths)
  ultimately show ?thesis
    using at pop_first_spec(2,3) [OF inv pop] by (auto simp: q_at_def)
qed

lemma q_at_loop: "q_at n q \<Longrightarrow> q_at n (snd (pop_loop q))"
proof (induction q rule: pop_loop_induct)
  case (1 q)
  then show ?case
    by (subst pop_loop.simps) (auto simp: Let_def split: option.splits intro: q_at_pop)
qed

lemma q_at_mono: "q_at n q \<Longrightarrow> n \<le> m \<Longrightarrow> q_at m q"
  by (auto simp: q_at_def)

lemma pop_loop_counters:
  "q_pushed (snd (pop_loop q)) = q_pushed q \<and> q_dropped (snd (pop_loop q)) = q_dropped q"
proof (induction q rule: pop_loop_induct)
  case (1 q)
  have "q_pushed q' = q_pushed q \<and> q_dropped q' = q_dropped q"
    if "try_pop q = Some (x, q')" for x q'
    using that by (auto simp: try_pop_def Let_def split: if_splits)
  with "1.IH" show ?case
    by (subst (1 2) pop_loop.simps) (auto simp: Let_def split: option.splits)
qed

lemma q_step_refines:
  assumes "q_at n q" "n < 2 ^ 64"
  shows "map_prod id q_abs (q_step op q) = fifo_step op (q_abs q)"
    and "q_at (Suc n) (snd (q_step op q))"
proof -
  have inv: "q_invar q" and room: "q_room q"
    using assms q_at_room by (auto simp: q_at_def)
  have "q_size q = of_nat (q_count q)" by (simp add: q_size_def q_count_def)
  moreover have "q_invar (reset_stats q) = q_invar q" "q_cap (reset_stats q) = q_cap q"
      "q_count (reset_stats q) = q_count q" "q_items (reset_stats q) = q_items q"
    by (simp_all add: reset_stats_def q_invar_def q_items_def q_cap_def q_count_def wslot_def
        slot_def ring_ok_def)
  moreover have "q_abs (q_clear q) = (q_abs q)\<lparr>fi_items := []\<rparr>"
    using ring.drain_items [OF inv] pop_loop_counters [of q] by (simp add: q_abs_def q_clear_def)
  moreover have "map_prod id q_abs (q_step (QPush f) q) = fifo_step (QPush f) (q_abs q)" for f
    by (simp add: map_prod.compositionality comp_def prod.map_comp flip: try_push_abs [OF inv room])
  moreover have "map_prod id q_abs (q_step QPop q) = fifo_step QPop (q_abs q)"
    by (auto simp: split: option.splits simp flip: try_pop_abs [OF inv])
  ultimately show "map_prod id q_abs (q_step op q) = fifo_step op (q_abs q)"
    by (cases op) (auto simp: q_abs_def reset_stats_def)
  show "q_at (Suc n) (snd (q_step op q))"
    using q_at_mono [OF assms(1)] q_at_push [OF assms] q_at_pop [OF assms(1)] q_at_loop [OF assms(1)]
    by (cases op)
      (auto simp: q_clear_def reset_stats_def q_at_def q_invar_def q_items_def q_cap_def q_count_def
        wslot_def slot_def ring_ok_def split: option.splits)
qed

lemma q_run_refines:
  "q_at n q \<Longrightarrow> n + length ops \<le> 2 ^ 64 \<Longrightarrow> q_run ops q = fifo_run ops (q_abs q)"
proof (induction ops arbitrary: n q)
  case (Cons op ops)
  have n: "n < 2 ^ 64" using Cons.prems(2) by simp
  obtain ob q' where st: "q_step op q = (ob, q')" by (cases "q_step op q")
  have "fifo_step op (q_abs q) = (ob, q_abs q')"
    using q_step_refines(1) [OF Cons.prems(1) n, of op] by (simp add: st)
  moreover have "q_at (Suc n) q'"
    using q_step_refines(2) [OF Cons.prems(1) n, of op] by (simp add: st)
  ultimately show ?case using Cons.IH [of "Suc n" q'] Cons.prems(2) by (simp add: st)
qed simp

text \<open>For a capacity that divides \<open>2^64\<close> the length of the run does not matter.\<close>

lemma q_at_zero: "q_at n q \<Longrightarrow> q_cap q dvd 2 ^ 64 \<Longrightarrow> q_at 0 q"
  by (simp add: q_at_def)

lemma q_cap_q_step: "q_at n q \<Longrightarrow> n < 2 ^ 64 \<Longrightarrow> q_cap (snd (q_step op q)) = q_cap q"
proof -
  assume "q_at n q" "n < 2 ^ 64"
  then have r: "map_prod id q_abs (q_step op q) = fifo_step op (q_abs q)"
    by (rule q_step_refines(1))
  have "fi_cap (snd (fifo_step op s)) = fi_cap s" for s :: "'a option fifo"
    by (cases op) (auto simp: fifo_push_def fifo_pop_def split: option.splits list.splits)
  from this [of "q_abs q"] r [symmetric] show ?thesis by (simp add: q_abs_def)
qed

lemma q_run_refines_dvd:
  "q_at 0 q \<Longrightarrow> q_cap q dvd 2 ^ 64 \<Longrightarrow> q_run ops q = fifo_run ops (q_abs q)"
proof (induction ops arbitrary: q)
  case (Cons op ops)
  obtain ob q' where st: "q_step op q = (ob, q')" by (cases "q_step op q")
  have "fifo_step op (q_abs q) = (ob, q_abs q')"
    using q_step_refines(1) [OF Cons.prems(1), of op] by (simp add: st)
  moreover have cap: "q_cap q' = q_cap q"
    using q_cap_q_step [OF Cons.prems(1), of op] by (simp add: st)
  moreover have "q_at 0 q'"
    using q_step_refines(2) [OF Cons.prems(1), of op] Cons.prems(2) cap
    by (intro q_at_zero [of "Suc 0"]) (simp_all add: st)
  ultimately show ?case using Cons.IH [of q'] Cons.prems(2) by (simp add: st)
qed simp

lemma queue_new_at:
  assumes "queue_new c = Inr q"
  shows "q_at 0 q" and "q_items q = []" and "q_cap q = max 1 (unat c)"
    and "q_pushed q = 0" and "q_dropped q = 0" and "q_head q = 0" and "q_tail q = 0"
proof -
  have cap: "q_cap q = max 1 (unat c)" and rest: "length (q_buffer q) = q_cap q" "q_head q = 0"
    "q_tail q = 0" "q_pushed q = 0" "q_dropped q = 0" "q_buffer q = replicate (q_cap q) None"
    using assms
    by (auto simp: queue_new_def q_cap_def Let_def word_less_nat_alt split: if_splits)
  moreover have cnt: "q_count q = 0" by (simp add: q_count_def rest)
  ultimately show "q_at 0 q" by (simp add: q_at_def q_invar_def ring_ok_def)
  show "q_items q = []" by (simp add: q_items_def cnt)
  show "q_cap q = max 1 (unat c)" "q_pushed q = 0" "q_dropped q = 0" "q_head q = 0" "q_tail q = 0"
    by (fact cap rest)+
qed

text \<open>A small queue for the witnesses.\<close>

definition ring2 :: "'a spsc" where
  "ring2 = \<lparr>q_capacity = 2, q_buffer = [None, None], q_head = 0, q_tail = 0,
             q_pushed = 0, q_dropped = 0\<rparr>"

lemma queue_new_ring2: "queue_new 2 = Inr (ring2 :: 'a spsc)"
proof -
  have "replicate 2 None = [None, None :: 'a option]" by (simp add: numeral_2_eq_2)
  then show ?thesis by (simp add: queue_new_def queue_max_size_def ring2_def)
qed

text \<open>
  C5. The ring buffer is observably a bounded first-in first-out list that drops the newest
  element when full: whatever script of pushes, pops, size queries, statistic resets and
  clears is run on a freshly constructed queue, every value a caller sees is the one the
  abstract FIFO of capacity \<open>max 1 capacity\<close> gives, provided the capacity divides \<open>2^64\<close> or
  the script is no longer than \<open>2^64\<close> operations.
\<close>

theorem spsc_refines_fifo:
  assumes "queue_new c = Inr q"
    and "max 1 (unat c) dvd 2 ^ 64 \<or> length ops \<le> 2 ^ 64"
  shows "q_run ops q =
    fifo_run ops \<lparr>fi_items = [], fi_cap = max 1 (unat c), fi_pushed = 0, fi_dropped = 0\<rparr>"
proof -
  note new = queue_new_at [OF assms(1)]
  have "q_run ops q = fifo_run ops (q_abs q)"
    using assms(2) q_run_refines [OF new(1), of ops] q_run_refines_dvd [OF new(1), of ops] new(3)
    by auto
  then show ?thesis by (simp add: q_abs_def new)
qed

theorem spsc_refines_fifo_witness:
  "q_run [QPush (Some True), QPush (Some False), QPush None, QPop, QSize] ring2 =
   [ObsBool True, ObsBool True, ObsBool False, ObsPop (Some (Some True)), ObsSize 1]"
  by (subst spsc_refines_fifo [OF queue_new_ring2]) (simp_all add: fifo_push_def fifo_pop_def)

lemma q_clear_buffer: "q_invar q \<Longrightarrow> q_buffer (q_clear q) = replicate (q_cap q) None"
proof -
  assume "q_invar q"
  then have c: "q_items (q_clear q) = []" "q_invar (q_clear q)" "q_cap (q_clear q) = q_cap q"
    using ring.drain_items [of q] by (simp_all add: q_clear_def)
  then have "q_count (q_clear q) = 0" using length_q_items [of "q_clear q"] by simp
  with c show ?thesis by (intro nth_equalityI) (auto simp: q_invar_def)
qed

lemma q_empty_items: "q_empty q \<longleftrightarrow> q_items q = []"
  using pop_empty_iff [of q] by (auto simp: q_empty_def try_pop_def Let_def split: if_splits)

text \<open>
  The accepted window never exceeds the capacity, the queries agree with it, and no slot
  outside it keeps a frame alive: after \<open>clear\<close> every slot of the buffer is a null pointer.
\<close>

theorem spsc_bounds_and_release:
  assumes "q_invar q"
  shows "unat (q_size q) \<le> q_cap q \<and>
    unat (q_size q) = length (q_items q) \<and>
    (q_empty q \<longleftrightarrow> q_items q = []) \<and>
    (q_full q \<longleftrightarrow> length (q_items q) = q_cap q) \<and>
    q_buffer (q_clear q) = replicate (q_cap q) None"
proof -
  have le: "q_count q \<le> q_cap q" using assms by (simp add: q_invar_def)
  have size: "unat (q_size q) = q_count q" by (simp add: q_size_def q_count_def)
  have full: "q_full q \<longleftrightarrow> length (q_items q) = q_cap q"
    using le by (auto simp: q_full_def q_full_count)
  show ?thesis using le size full q_empty_items [of q] q_clear_buffer [OF assms] by simp
qed

theorem spsc_bounds_and_release_witness:
  "q_buffer (q_clear (snd (try_push (Some True) ring2))) = replicate 2 None"
proof -
  define q :: "bool spsc" where "q = snd (try_push (Some True) ring2)"
  have "q_at 1 q"
    unfolding q_def using q_at_push [OF queue_new_at(1) [OF queue_new_ring2], of "Some True"]
    by simp
  then have "q_invar q" by (simp add: q_at_def)
  moreover have "q_cap q = 2" unfolding q_def q_cap_push by (simp add: q_cap_def ring2_def)
  ultimately show ?thesis unfolding q_def [symmetric] using spsc_bounds_and_release [of q] by simp
qed

section \<open>The wrap of the counters\<close>

text \<open>
  A capacity that does not divide \<open>2^64\<close>: the counters wrap to 0 after \<open>2^64\<close> operations and
  two elements of one window then share a slot.
\<close>

definition push_pop :: "'a spsc \<Rightarrow> 'a spsc" where
  "push_pop q =
     (case try_pop (snd (try_push None q)) of None \<Rightarrow> snd (try_push None q) | Some (_, q') \<Rightarrow> q')"

definition ring3 :: "u64 \<Rightarrow> 'a spsc" where
  "ring3 n = \<lparr>q_capacity = 3, q_buffer = [None, None, None], q_head = n, q_tail = n,
              q_pushed = n, q_dropped = 0\<rparr>"

lemma slot3_cases: "unat (n mod 3 :: u64) \<in> {0, 1, 2}"
proof -
  have "unat (n mod 3) < 3" by (simp add: unat_mod)
  then show ?thesis by auto
qed

lemma push_pop_ring3: "push_pop (ring3 n) = ring3 (n + 1)"
proof -
  have "(n + 1 = n) = False" by simp
  with slot3_cases [of n] show ?thesis
    by (auto simp: push_pop_def ring3_def try_push_def try_pop_def Let_def slot_def
        word_le_nat_alt)
qed

lemma push_pop_iterate: "(push_pop ^^ k) (ring3 0) = ring3 (of_nat k)"
  by (induction k) (simp_all add: push_pop_ring3 add.commute)

text \<open>
  Wrap-around: a fresh queue of capacity 3 that has been pushed and popped \<open>2^64 - 1\<close>
  times accepts two further frames \<open>a\<close> and \<open>b\<close> (both pushes return \<open>true\<close>) and then delivers
  \<open>b\<close> first and a null pointer second: \<open>a\<close> is lost. (The bundled configuration uses 8, for
  which the refinement of the bounded FIFO rules this out.)
\<close>

lemma spsc_wrap_loses_frame:
  fixes a b :: 'a
  shows "queue_new 3 = Inr (ring3 0 :: 'a spsc) \<and>
   q_run [QPush (Some a), QPush (Some b), QPop, QPop] ((push_pop ^^ (2 ^ 64 - 1)) (ring3 0)) =
     [ObsBool True, ObsBool True, ObsPop (Some (Some b)), ObsPop (Some None)]"
proof -
  have "replicate 3 None = [None, None, None :: 'a option]" by (simp add: numeral_3_eq_3)
  then have "queue_new 3 = Inr (ring3 0 :: 'a spsc)"
    by (simp add: queue_new_def queue_max_size_def ring3_def)
  moreover have "(push_pop ^^ (2 ^ 64 - 1)) (ring3 0 :: 'a spsc) = ring3 18446744073709551615"
    unfolding push_pop_iterate by simp
  moreover have "q_run [QPush (Some a), QPush (Some b), QPop, QPop] (ring3 18446744073709551615) =
     [ObsBool True, ObsBool True, ObsPop (Some (Some b)), ObsPop (Some None)]"
    by (simp add: ring3_def try_push_def try_pop_def Let_def slot_def word_le_nat_alt)
  ultimately show ?thesis by (simp only: simp_thms)
qed

end
