(* ===== verification/SPSCThreads.thy ===== *)
theory SPSCThreads
  imports SPSCQueue
begin

text \<open>
  The ring buffer of \<open>src/data/SPSCQueue.cpp\<close> under interleaving. \<open>try_push\<close> and
  \<open>try_pop\<close> are split into their atomic accesses: each load, store or buffer access is one
  step of the thread that makes it, and the steps of the threads are interleaved freely
  and take effect in program order (the theory \<open>SPSCMemory\<close> justifies this from the memory
  orders). One producer runs \<open>try_push\<close>; the consumers are numbered, and the
  set of consumer numbers allowed to run is a parameter: \<open>{0}\<close> is the intended use.
\<close>

section \<open>The two operations, one access at a time\<close>

datatype 'a producer_pc =
    PIdle
  | PLoadedHead "'a option" u64
  | PLoadedTail "'a option" u64 u64
  | PWritten "'a option" u64
  | PPublished

datatype 'a consumer_pc =
    CIdle
  | CLoadedTail u64
  | CLoadedHead u64 u64
  | CMoved u64 "'a option"
  | CReset u64 "'a option"

text \<open>
  \<open>th_sent\<close> and \<open>th_recvd\<close> record the frames accepted by the producer and the values
  delivered by successful pops, in order.
\<close>

record 'a threads =
  th_q :: "'a spsc"
  th_p :: "'a producer_pc"
  th_c :: "nat \<Rightarrow> 'a consumer_pc"
  th_sent :: "'a option list"
  th_recvd :: "'a option list"

definition init_threads :: "'a spsc \<Rightarrow> 'a threads" where
  "init_threads q = \<lparr>th_q = q, th_p = PIdle, th_c = (\<lambda>_. CIdle), th_sent = [], th_recvd = []\<rparr>"

text \<open>
  One step of the producer; \<open>f\<close> is the frame of the call that starts when it is idle.
\<close>

definition p_step :: "'a option \<Rightarrow> 'a threads \<Rightarrow> 'a threads" where
  "p_step f s =
     (case th_p s of
        PIdle \<Rightarrow> s\<lparr>th_p := PLoadedHead f (q_head (th_q s))\<rparr>
      | PLoadedHead g h \<Rightarrow> s\<lparr>th_p := PLoadedTail g h (q_tail (th_q s))\<rparr>
      | PLoadedTail g h t \<Rightarrow>
          (if q_capacity (th_q s) \<le> h - t
           then s\<lparr>th_q := (th_q s)\<lparr>q_dropped := q_dropped (th_q s) + 1\<rparr>, th_p := PIdle\<rparr>
           else s\<lparr>th_q := (th_q s)\<lparr>q_buffer := (q_buffer (th_q s))[slot (th_q s) h := g]\<rparr>,
                  th_p := PWritten g h\<rparr>)
      | PWritten g h \<Rightarrow>
          s\<lparr>th_q := (th_q s)\<lparr>q_head := h + 1\<rparr>, th_p := PPublished, th_sent := th_sent s @ [g]\<rparr>
      | PPublished \<Rightarrow>
          s\<lparr>th_q := (th_q s)\<lparr>q_pushed := q_pushed (th_q s) + 1\<rparr>, th_p := PIdle\<rparr>)"

text \<open>One step of consumer \<open>i\<close>.\<close>

definition c_step :: "nat \<Rightarrow> 'a threads \<Rightarrow> 'a threads" where
  "c_step i s =
     (case th_c s i of
        CIdle \<Rightarrow> s\<lparr>th_c := (th_c s)(i := CLoadedTail (q_tail (th_q s)))\<rparr>
      | CLoadedTail t \<Rightarrow> s\<lparr>th_c := (th_c s)(i := CLoadedHead t (q_head (th_q s)))\<rparr>
      | CLoadedHead t h \<Rightarrow>
          (if h = t then s\<lparr>th_c := (th_c s)(i := CIdle)\<rparr>
           else s\<lparr>th_q := (th_q s)\<lparr>q_buffer := (q_buffer (th_q s))[slot (th_q s) t := None]\<rparr>,
                  th_c := (th_c s)(i := CMoved t (q_buffer (th_q s) ! slot (th_q s) t))\<rparr>)
      | CMoved t f \<Rightarrow>
          s\<lparr>th_q := (th_q s)\<lparr>q_buffer := (q_buffer (th_q s))[slot (th_q s) t := None]\<rparr>,
            th_c := (th_c s)(i := CReset t f)\<rparr>
      | CReset t f \<Rightarrow>
          s\<lparr>th_q := (th_q s)\<lparr>q_tail := t + 1\<rparr>, th_c := (th_c s)(i := CIdle),
            th_recvd := th_recvd s @ [f]\<rparr>)"

inductive reach :: "nat set \<Rightarrow> 'a spsc \<Rightarrow> 'a threads \<Rightarrow> bool" for ids q where
  reach_init: "reach ids q (init_threads q)"
| reach_producer: "reach ids q s \<Longrightarrow> reach ids q (p_step f s)"
| reach_consumer: "reach ids q s \<Longrightarrow> i \<in> ids \<Longrightarrow> reach ids q (c_step i s)"

text \<open>
  A schedule names the thread of each step (\<open>None\<close> is the producer) with the frame that a
  producer call starting there carries.
\<close>

fun run_sched :: "(nat option \<times> 'a option) list \<Rightarrow> 'a threads \<Rightarrow> 'a threads" where
  "run_sched [] s = s"
| "run_sched ((None, f) # es) s = run_sched es (p_step f s)"
| "run_sched ((Some i, f) # es) s = run_sched es (c_step i s)"

lemma run_sched_reach:
  "reach ids q s \<Longrightarrow> (\<forall>e \<in> set es. \<forall>i. fst e = Some i \<longrightarrow> i \<in> ids) \<Longrightarrow>
   reach ids q (run_sched es s)"
  by (induction es s rule: run_sched.induct) (auto intro: reach.intros)

lemma run_sched_append: "run_sched (xs @ ys) s = run_sched ys (run_sched xs s)"
  by (induction xs s rule: run_sched.induct) auto

text \<open>Run without interruption, the steps of a call are the sequential operation.\<close>

lemma p_steps_sequential:
  assumes "th_p s = PIdle"
  shows "th_q ((p_step f ^^ (if fst (try_push f (th_q s)) then 5 else 3)) s) =
           snd (try_push f (th_q s))"
    and "th_p ((p_step f ^^ (if fst (try_push f (th_q s)) then 5 else 3)) s) = PIdle"
  using assms
  by (simp_all add: try_push_def Let_def eval_nat_numeral p_step_def)

lemma c_steps_sequential:
  assumes "th_c s i = CIdle" "try_pop (th_q s) = Some (f, q')" "length (q_buffer (th_q s)) > 0"
  shows "th_q ((c_step i ^^ 5) s) = q'"
    and "th_recvd ((c_step i ^^ 5) s) = th_recvd s @ [f]"
  using assms
  by (auto simp: try_pop_def Let_def eval_nat_numeral c_step_def slot_def split: if_splits)

section \<open>The invariant of one producer and one consumer\<close>

text \<open>
  \<open>n\<close> frames have been accepted and \<open>m\<close> delivered. \<open>lo\<close> is the oldest frame still in the
  buffer: the consumer has already moved frame \<open>m\<close> out when it is about to advance the tail.
\<close>

fun holding :: "'a consumer_pc \<Rightarrow> nat" where
  "holding (CMoved t f) = 1"
| "holding (CReset t f) = 1"
| "holding _ = 0"

definition window_lo :: "'a threads \<Rightarrow> nat" where
  "window_lo s = length (th_recvd s) + holding (th_c s 0)"

definition consumer_ok :: "'a threads \<Rightarrow> bool" where
  "consumer_ok s \<longleftrightarrow>
     (let n = length (th_sent s); m = length (th_recvd s)
      in case th_c s 0 of
           CIdle \<Rightarrow> True
         | CLoadedTail t \<Rightarrow> t = of_nat m
         | CLoadedHead t h \<Rightarrow> t = of_nat m \<and> (\<exists>k. h = of_nat k \<and> m \<le> k \<and> k \<le> n)
         | CMoved t f \<Rightarrow> t = of_nat m \<and> m < n \<and> f = th_sent s ! m
         | CReset t f \<Rightarrow> t = of_nat m \<and> m < n \<and> f = th_sent s ! m)"

definition producer_ok :: "'a threads \<Rightarrow> bool" where
  "producer_ok s \<longleftrightarrow>
     (let n = length (th_sent s); m = length (th_recvd s); C = q_cap (th_q s)
      in case th_p s of
           PIdle \<Rightarrow> True
         | PLoadedHead f h \<Rightarrow> h = of_nat n
         | PLoadedTail f h t \<Rightarrow> h = of_nat n \<and> (\<exists>j \<le> m. t = of_nat j)
         | PWritten f h \<Rightarrow> h = of_nat n \<and> n - m < C \<and> q_buffer (th_q s) ! (n mod C) = f
         | PPublished \<Rightarrow> True)"

definition spsc_inv :: "'a threads \<Rightarrow> bool" where
  "spsc_inv s \<longleftrightarrow>
     (let n = length (th_sent s); m = length (th_recvd s); q = th_q s; C = q_cap q
      in 0 < C \<and> length (q_buffer q) = C \<and>
         q_head q = of_nat n \<and> q_tail q = of_nat m \<and> m \<le> n \<and> n - m \<le> C \<and>
         th_recvd s = take m (th_sent s) \<and>
         (\<forall>k. window_lo s \<le> k \<and> k < n \<longrightarrow> q_buffer q ! (k mod C) = th_sent s ! k) \<and>
         consumer_ok s \<and> producer_ok s)"

lemma slot_of_nat:
  "k < 2 ^ 64 \<Longrightarrow> slot q (of_nat k) = k mod q_cap q"
  by (simp add: slot_def unat_mod q_cap_def unat_of_nat)

lemma mod_neq: "a < b \<Longrightarrow> b - a < C \<Longrightarrow> a mod C \<noteq> b mod (C :: nat)"
proof
  assume "a < b" "b - a < C" "a mod C = b mod C"
  then have "C dvd b - a" using mod_eq_dvd_iff_nat [of a b C] by simp
  with \<open>a < b\<close> \<open>b - a < C\<close> show False by (auto dest: dvd_imp_le)
qed

lemma of_nat_diff_u64:
  "j \<le> n \<Longrightarrow> n < 2 ^ 64 \<Longrightarrow> unat (of_nat n - of_nat j :: u64) = n - j"
  by (simp add: unat_of_nat flip: of_nat_diff)

lemma full_iff:
  "j \<le> n \<Longrightarrow> n < 2 ^ 64 \<Longrightarrow> q_capacity q \<le> of_nat n - of_nat j \<longleftrightarrow> q_cap q \<le> n - j"
  by (simp add: word_le_nat_alt of_nat_diff_u64 q_cap_def)

lemma of_nat_eq_u64:
  "a < 2 ^ 64 \<Longrightarrow> b < 2 ^ 64 \<Longrightarrow> (of_nat a :: u64) = of_nat b \<longleftrightarrow> a = b"
  by (simp add: word_of_nat_eq_iff take_bit_nat_eq_self)

lemma spsc_inv_init:
  assumes "queue_new c = Inr q"
  shows "spsc_inv (init_threads q)"
proof -
  note new = queue_new_at [OF assms]
  have "0 < q_cap q \<and> length (q_buffer q) = q_cap q"
    using new(1) by (simp add: q_at_def q_invar_def)
  then show ?thesis
    by (simp add: spsc_inv_def init_threads_def new consumer_ok_def producer_ok_def Let_def)
qed

lemma q_cap_update [simp]:
  "q_cap (q\<lparr>q_buffer := b\<rparr>) = q_cap q" "q_cap (q\<lparr>q_head := h\<rparr>) = q_cap q"
  "q_cap (q\<lparr>q_tail := t\<rparr>) = q_cap q" "q_cap (q\<lparr>q_pushed := p\<rparr>) = q_cap q"
  by (simp_all add: q_cap_def)

lemma window_lo_bounds:
  "length (th_recvd s) \<le> window_lo s \<and> window_lo s \<le> Suc (length (th_recvd s))"
  by (cases "th_c s 0") (simp_all add: window_lo_def)

text \<open>The producer's buffer write and its publication, the two steps that matter.\<close>

lemma p_write_inv:
  assumes inv: "spsc_inv s" and bound: "length (th_sent s) < 2 ^ 64"
    and pc: "th_p s = PLoadedTail g h t" and free: "\<not> q_capacity (th_q s) \<le> h - t"
  shows "spsc_inv (s\<lparr>th_q := (th_q s)\<lparr>q_buffer := (q_buffer (th_q s))[slot (th_q s) h := g]\<rparr>,
                     th_p := PWritten g h\<rparr>)"
    and "slot (th_q s) h = length (th_sent s) mod q_cap (th_q s)"
    and "length (th_sent s) - length (th_recvd s) < q_cap (th_q s)"
proof -
  let ?n = "length (th_sent s)" and ?m = "length (th_recvd s)" and ?C = "q_cap (th_q s)"
  obtain j where h: "h = of_nat ?n" and j: "j \<le> ?m" "t = of_nat j"
    using inv pc by (auto simp: spsc_inv_def producer_ok_def Let_def)
  have mn: "?m \<le> ?n" using inv by (simp add: spsc_inv_def Let_def)
  have lt: "?n - ?m < ?C"
    using free full_iff [of j ?n "th_q s"] h j mn bound by auto
  have sl: "slot (th_q s) h = ?n mod ?C" using slot_of_nat bound by (simp add: h)
  have neq: "?n mod ?C \<noteq> k mod ?C" if "window_lo s \<le> k" "k < ?n" for k
  proof -
    have "?n - k < ?C" using that window_lo_bounds [of s] lt by linarith
    then show ?thesis using mod_neq [of k ?n ?C] that by metis
  qed
  have lo: "window_lo (s\<lparr>th_q := q', th_p := p'\<rparr>) = window_lo s" for q' p'
    by (simp add: window_lo_def)
  have lenb: "?n mod ?C < length (q_buffer (th_q s))"
    using inv by (simp add: spsc_inv_def Let_def)
  show "spsc_inv (s\<lparr>th_q := (th_q s)\<lparr>q_buffer := (q_buffer (th_q s))[slot (th_q s) h := g]\<rparr>,
                    th_p := PWritten g h\<rparr>)"
    using inv lt neq h lenb
    by (auto simp: spsc_inv_def Let_def sl [unfolded h] lo consumer_ok_def producer_ok_def
        split: consumer_pc.splits)
  show "slot (th_q s) h = ?n mod ?C" by (rule sl)
  show "?n - ?m < ?C" by (rule lt)
qed

lemma p_step_inv:
  assumes inv: "spsc_inv s" and bound: "length (th_sent s) < 2 ^ 64"
  shows "spsc_inv (p_step f s)"
proof (cases "th_p s")
  case PIdle
  have "window_lo (s\<lparr>th_p := p'\<rparr>) = window_lo s" for p' by (simp add: window_lo_def)
  with PIdle inv show ?thesis
    by (auto simp: p_step_def spsc_inv_def Let_def consumer_ok_def producer_ok_def
        split: consumer_pc.splits)
next
  case (PLoadedHead g h)
  have "window_lo (s\<lparr>th_p := p'\<rparr>) = window_lo s" for p' by (simp add: window_lo_def)
  with PLoadedHead inv show ?thesis
    by (auto simp: p_step_def spsc_inv_def Let_def consumer_ok_def producer_ok_def
        split: consumer_pc.splits)
next
  case (PLoadedTail g h t)
  show ?thesis
  proof (cases "q_capacity (th_q s) \<le> h - t")
    case True
    have "window_lo (s\<lparr>th_q := q', th_p := p'\<rparr>) = window_lo s" for q' p'
      by (simp add: window_lo_def)
    with True PLoadedTail inv show ?thesis
      by (auto simp: p_step_def spsc_inv_def Let_def consumer_ok_def producer_ok_def
          split: consumer_pc.splits)
  next
    case False
    then show ?thesis using p_write_inv(1) [OF inv bound PLoadedTail] PLoadedTail
      by (simp add: p_step_def)
  qed
next
  case (PWritten g h)
  have "window_lo (s\<lparr>th_q := q', th_p := p', th_sent := x\<rparr>) = window_lo s" for q' p' x
    by (simp add: window_lo_def)
  with PWritten inv show ?thesis
    by (auto simp: p_step_def spsc_inv_def Let_def consumer_ok_def producer_ok_def nth_append
        less_Suc_eq split: consumer_pc.splits)
next
  case PPublished
  have "window_lo (s\<lparr>th_q := q', th_p := p'\<rparr>) = window_lo s" for q' p'
    by (simp add: window_lo_def)
  with PPublished inv show ?thesis
    by (auto simp: p_step_def spsc_inv_def Let_def consumer_ok_def producer_ok_def
        split: consumer_pc.splits)
qed

text \<open>The consumer's two accesses to its slot, moving the pointer out and resetting it.\<close>

lemma clear_slot_inv:
  assumes inv: "spsc_inv s" and bound: "length (th_sent s) < 2 ^ 64"
    and lt: "length (th_recvd s) < length (th_sent s)"
    and t: "t = of_nat (length (th_recvd s))"
    and c': "c' = CMoved t (th_sent s ! length (th_recvd s)) \<or>
             c' = CReset t (th_sent s ! length (th_recvd s))"
  shows "spsc_inv (s\<lparr>th_q := (th_q s)\<lparr>q_buffer := (q_buffer (th_q s))[slot (th_q s) t := None]\<rparr>,
                     th_c := (th_c s)(0 := c')\<rparr>)"
proof -
  let ?n = "length (th_sent s)" and ?m = "length (th_recvd s)" and ?C = "q_cap (th_q s)"
  have le: "?n - ?m \<le> ?C" using inv by (simp add: spsc_inv_def Let_def)
  have sl: "slot (th_q s) (of_nat ?m) = ?m mod ?C"
    using bound lt by (intro slot_of_nat) simp
  have neq: "?m mod ?C \<noteq> k mod ?C" if "?m < k" "k < ?n" for k
    using mod_neq [of ?m k ?C] that le by linarith
  have neqn: "?m mod ?C \<noteq> ?n mod ?C" if "?n - ?m < ?C"
    using mod_neq [of ?m ?n ?C] that lt by simp
  have lo: "window_lo (s\<lparr>th_q := q', th_c := (th_c s)(0 := c')\<rparr>) = Suc ?m" for q'
    using c' by (auto simp: window_lo_def)
  have con: "consumer_ok (s\<lparr>th_q := q', th_c := (th_c s)(0 := c')\<rparr>)" for q'
    using c' lt t by (auto simp: consumer_ok_def Let_def)
  have win: "q_buffer (th_q s) ! (k mod ?C) = th_sent s ! k" if "Suc ?m \<le> k" "k < ?n" for k
    using inv that window_lo_bounds [of s] by (simp add: spsc_inv_def Let_def)
  have pro: "producer_ok (s\<lparr>th_q := (th_q s)\<lparr>q_buffer := (q_buffer (th_q s))[?m mod ?C := None]\<rparr>,
                     th_c := (th_c s)(0 := c')\<rparr>)"
    using inv neqn by (cases "th_p s") (simp_all add: spsc_inv_def producer_ok_def Let_def)
  have base: "0 < ?C" "length (q_buffer (th_q s)) = ?C" "q_head (th_q s) = of_nat ?n"
    "q_tail (th_q s) = of_nat ?m" "?m \<le> ?n" "th_recvd s = take ?m (th_sent s)"
    using inv by (simp_all add: spsc_inv_def Let_def)
  show ?thesis
    unfolding spsc_inv_def Let_def t sl
    using base le neq win pro con
    by (simp add: lo Suc_le_eq)
qed

lemma producer_ok_consumer_update [simp]: "producer_ok (s\<lparr>th_c := c\<rparr>) = producer_ok s"
  by (cases "th_p s") (simp_all add: producer_ok_def Let_def)

lemma c_step_inv:
  assumes inv: "spsc_inv s" and bound: "length (th_sent s) < 2 ^ 64"
  shows "spsc_inv (c_step 0 s)"
proof -
  let ?n = "length (th_sent s)" and ?m = "length (th_recvd s)" and ?C = "q_cap (th_q s)"
  note ok = inv [unfolded spsc_inv_def Let_def]
  show ?thesis
  proof (cases "th_c s 0")
    case CIdle
    with ok show ?thesis
      by (simp add: c_step_def spsc_inv_def Let_def consumer_ok_def window_lo_def)
  next
    case (CLoadedTail t)
    with ok show ?thesis
      by (auto simp: c_step_def spsc_inv_def Let_def consumer_ok_def window_lo_def)
  next
    case (CLoadedHead t h)
    then obtain k where k: "t = of_nat ?m" "h = of_nat k" "?m \<le> k" "k \<le> ?n"
      using ok by (auto simp: consumer_ok_def Let_def)
    show ?thesis
    proof (cases "h = t")
      case True
      with CLoadedHead ok show ?thesis
        by (simp add: c_step_def spsc_inv_def Let_def consumer_ok_def window_lo_def)
    next
      case False
      have "k \<noteq> ?m" using False k by auto
      then have lt: "?m < ?n" using k by simp
      have "slot (th_q s) t = ?m mod ?C"
        using slot_of_nat [of ?m "th_q s"] bound lt by (simp add: k)
      moreover have "q_buffer (th_q s) ! (?m mod ?C) = th_sent s ! ?m"
        using ok lt CLoadedHead by (simp add: window_lo_def)
      ultimately show ?thesis
        using clear_slot_inv [OF inv bound lt k(1)] CLoadedHead False by (simp add: c_step_def)
    qed
  next
    case (CMoved t f)
    then have "t = of_nat ?m" "?m < ?n" "f = th_sent s ! ?m"
      using ok by (auto simp: consumer_ok_def Let_def)
    then show ?thesis using clear_slot_inv [OF inv bound, of t] CMoved by (simp add: c_step_def)
  next
    case (CReset t f)
    then have c: "t = of_nat ?m" "?m < ?n" "f = th_sent s ! ?m"
      using ok by (auto simp: consumer_ok_def Let_def)
    have "window_lo s = Suc ?m" using CReset by (simp add: window_lo_def)
    moreover have "th_recvd s @ [th_sent s ! ?m] = take (Suc ?m) (th_sent s)"
      using ok c(2) by (metis take_Suc_conv_app_nth)
    ultimately show ?thesis
      using ok c CReset
      by (cases "th_p s")
        (auto simp: c_step_def spsc_inv_def Let_def consumer_ok_def producer_ok_def window_lo_def
          add.commute intro: le_SucI)
  qed
qed

lemma p_step_sent_mono: "length (th_sent s) \<le> length (th_sent (p_step f s))"
  by (cases "th_p s") (auto simp: p_step_def)

lemma c_step_sent: "th_sent (c_step i s) = th_sent s"
  by (cases "th_c s i") (auto simp: c_step_def)

lemma q_cap_p_step: "q_cap (th_q (p_step f s)) = q_cap (th_q s)"
  by (cases "th_p s") (simp_all add: p_step_def q_cap_def)

lemma q_cap_c_step: "q_cap (th_q (c_step i s)) = q_cap (th_q s)"
  by (cases "th_c s i") (simp_all add: c_step_def q_cap_def)

lemma reach_spsc_inv:
  assumes "reach {0} q s" "queue_new c = Inr q" "length (th_sent s) < 2 ^ 64"
  shows "spsc_inv s"
  using assms(1,3)
proof (induction rule: reach.induct)
  case reach_init
  show ?case using assms(2) by (rule spsc_inv_init)
next
  case (reach_producer s f)
  then have "length (th_sent s) < 2 ^ 64" using p_step_sent_mono [of s f] by linarith
  with reach_producer show ?case by (intro p_step_inv) auto
next
  case (reach_consumer s i)
  then show ?case by (auto simp: c_step_sent intro: c_step_inv)
qed

section \<open>What the interleaving guarantees\<close>

text \<open>
  The producer is about to write, and consumer \<open>i\<close> about to move from or reset, the same slot.
\<close>

definition slot_race :: "nat \<Rightarrow> 'a threads \<Rightarrow> bool" where
  "slot_race i s \<longleftrightarrow>
     (case th_p s of
        PLoadedTail f h t \<Rightarrow>
          \<not> q_capacity (th_q s) \<le> h - t \<and>
          (case th_c s i of
             CLoadedHead t' h' \<Rightarrow> h' \<noteq> t' \<and> slot (th_q s) t' = slot (th_q s) h
           | CMoved t' g \<Rightarrow> slot (th_q s) t' = slot (th_q s) h
           | _ \<Rightarrow> False)
      | _ \<Rightarrow> False)"

lemma no_slot_race:
  assumes inv: "spsc_inv s" and bound: "length (th_sent s) < 2 ^ 64"
  shows "\<not> slot_race 0 s"
proof
  assume race: "slot_race 0 s"
  let ?n = "length (th_sent s)" and ?m = "length (th_recvd s)" and ?C = "q_cap (th_q s)"
  obtain f h t where pc: "th_p s = PLoadedTail f h t" and free: "\<not> q_capacity (th_q s) \<le> h - t"
    using race by (auto simp: slot_race_def split: producer_pc.splits)
  note w = p_write_inv(2,3) [OF inv bound pc free]
  obtain t' where t': "t' = of_nat ?m" "?m < ?n" "slot (th_q s) t' = slot (th_q s) h"
  proof (cases "th_c s 0")
    case (CLoadedHead t1 h1)
    then obtain k where "t1 = of_nat ?m" "h1 = of_nat k" "?m \<le> k" "k \<le> ?n" "h1 \<noteq> t1"
      using inv race pc by (auto simp: spsc_inv_def Let_def consumer_ok_def slot_race_def)
    moreover from this have "k \<noteq> ?m" by auto
    ultimately have "?m < ?n" "t1 = of_nat ?m" by simp_all
    with CLoadedHead show ?thesis
      using that race pc by (auto simp: slot_race_def)
  next
    case (CMoved t1 g)
    with that show ?thesis
      using inv race pc by (auto simp: spsc_inv_def Let_def consumer_ok_def slot_race_def)
  qed (use race pc in \<open>auto simp: slot_race_def\<close>)
  have "slot (th_q s) t' = ?m mod ?C" using slot_of_nat [of ?m "th_q s"] bound t' by simp
  with t' w show False using mod_neq [of ?m ?n ?C] by simp
qed

text \<open>
  One producer and one consumer, interleaved in any way at the granularity of single
  memory accesses, and fewer than \<open>2^64\<close> frames: what the consumer has received is exactly a
  prefix of what the producer has been told was accepted (nothing lost, duplicated,
  reordered or replaced by a null pointer), the number in flight never exceeds the capacity,
  and the two threads are never about to access the same buffer slot.
\<close>

theorem spsc_interleaving_safe:
  assumes "queue_new c = Inr q" and "reach {0} q s" and "length (th_sent s) < 2 ^ 64"
  shows "th_recvd s = take (length (th_recvd s)) (th_sent s) \<and>
    length (th_sent s) - length (th_recvd s) \<le> max 1 (unat c) \<and>
    \<not> slot_race 0 s"
proof -
  have cap: "q_cap (th_q s) = q_cap q"
    using assms(2) by induction (simp_all add: init_threads_def q_cap_p_step q_cap_c_step)
  have inv: "spsc_inv s" using reach_spsc_inv [OF assms(2,1,3)] .
  then show ?thesis
    using no_slot_race [OF inv assms(3)] queue_new_at(3) [OF assms(1)] cap
    by (simp add: spsc_inv_def Let_def)
qed

section \<open>Two consumers\<close>

text \<open>
  \<open>CommandHandler\<close> drains the pipeline from an admin worker thread while the publisher
  thread is popping: two consumers.
\<close>

text \<open>
  The publisher (consumer 0) loads tail and head and is preempted; the draining worker
  (consumer 1) takes both frames; the publisher resumes, finds the slot empty and stores
  the old tail plus one; its next call delivers from a slot already emptied.
\<close>

definition push_call :: "'a option \<Rightarrow> (nat option \<times> 'a option) list" where
  "push_call f = [(None, f), (None, f), (None, f), (None, f), (None, f)]"

definition pop_call :: "nat \<Rightarrow> (nat option \<times> 'a option) list" where
  "pop_call i = [(Some i, None), (Some i, None), (Some i, None), (Some i, None), (Some i, None)]"

definition race_sched :: "'a \<Rightarrow> 'a \<Rightarrow> (nat option \<times> 'a option) list" where
  "race_sched a b =
     push_call (Some a) @ push_call (Some b) @ [(Some 0, None), (Some 0, None)] @
     pop_call 1 @ pop_call 1 @ [(Some 0, None), (Some 0, None), (Some 0, None)] @ pop_call 0"

lemmas sched_defs = race_sched_def push_call_def pop_call_def

text \<open>
  With a second consumer the queue is no longer a queue: on a fresh queue of capacity 2
  there is an interleaving of one producer and two consumers in which two frames are pushed
  and four pops succeed, two of them delivering null pointers, and every thread is idle again
  afterwards.
\<close>

lemma two_consumers_break_queue:
  fixes a b :: 'a
  shows "\<exists>q s. queue_new 2 = Inr q \<and> reach {0, 1} q s \<and>
    th_sent s = [Some a, Some b] \<and> th_recvd s = [Some a, Some b, None, None] \<and>
    th_p s = PIdle \<and> th_c s 0 = CIdle \<and> th_c s 1 = CIdle"
proof -
  define s where "s = run_sched (race_sched a b) (init_threads ring2)"
  have "reach {0, 1} ring2 s"
    unfolding s_def by (rule run_sched_reach [OF reach_init]) (auto simp: sched_defs)
  moreover have "th_sent s = [Some a, Some b] \<and> th_recvd s = [Some a, Some b, None, None] \<and>
      th_p s = PIdle \<and> th_c s 0 = CIdle \<and> th_c s 1 = CIdle"
    unfolding s_def ring2_def
    by (simp add: sched_defs p_step_def c_step_def init_threads_def slot_def word_le_nat_alt)
  ultimately show ?thesis using queue_new_ring2 by blast
qed

theorem spsc_interleaving_safe_witness:
  "\<exists>s :: bool threads. reach {0} ring2 s \<and> th_sent s = [Some True] \<and>
    th_recvd s = take (length (th_recvd s)) (th_sent s) \<and>
    length (th_sent s) - length (th_recvd s) \<le> 2 \<and> \<not> slot_race 0 s"
proof -
  define s where "s = run_sched (push_call (Some True)) (init_threads ring2)"
  have r: "reach {0} ring2 s"
    unfolding s_def by (rule run_sched_reach [OF reach_init]) (auto simp: sched_defs)
  have "th_sent s = [Some True]"
    unfolding s_def ring2_def
    by (simp add: push_call_def p_step_def init_threads_def slot_def word_le_nat_alt)
  with spsc_interleaving_safe [OF queue_new_ring2 r] r show ?thesis
    by (intro exI [of _ s]) simp
qed

end
