(* ===== verification/SPSCMemory.thy ===== *)
theory SPSCMemory
  imports SPSCThreads
begin

text \<open>
  The ring buffer of \<open>src/data/SPSCQueue.cpp\<close> with the memory orders the code names. An atomic
  counter keeps the history of its stores; a load by the other thread may return any entry that
  is not older than the last one this thread has seen. A release store carries the storing
  thread's clock (the number of buffer accesses it has made), an acquire load takes it over.
  An access to a slot is a data race when the accessing thread has not taken over the clock of
  the other thread's last access to that slot. The effects of the steps are those of
  \<open>SPSCThreads\<close>, except that the two loads of the other thread's counter may be stale.
\<close>

section \<open>Loads and stores\<close>

datatype memory_order = Relaxed | Acquire | Release

type_synonym message = "u64 \<times> nat"

definition stored :: "memory_order \<Rightarrow> u64 \<Rightarrow> nat \<Rightarrow> message" where
  "stored ord v clock = (v, if ord = Release then clock else 0)"

definition loaded_view :: "memory_order \<Rightarrow> message \<Rightarrow> nat \<Rightarrow> nat" where
  "loaded_view ord msg view = (if ord = Acquire then max view (snd msg) else view)"

text \<open>The orders of \<open>try_push\<close> and \<open>try_pop\<close> on the counter of the other thread and on their own.\<close>

record orders =
  o_push_load :: memory_order
  o_push_store :: memory_order
  o_pop_load :: memory_order
  o_pop_store :: memory_order

definition source_orders :: orders where
  "source_orders = \<lparr>o_push_load = Acquire, o_push_store = Release,
                    o_pop_load = Acquire, o_pop_store = Release\<rparr>"

section \<open>Steps\<close>

text \<open>
  \<open>w_seen_head\<close> is the consumer's place in the history of \<open>head_\<close>, \<open>w_seen_tail\<close> the producer's
  in that of \<open>tail_\<close>; \<open>w_p_last\<close> and \<open>w_c_last\<close> hold the clock of the last access to each slot.
\<close>

record 'a weak =
  w_th :: "'a threads"
  w_heads :: "message list"
  w_tails :: "message list"
  w_seen_head :: nat
  w_seen_tail :: nat
  w_p_clock :: nat
  w_c_clock :: nat
  w_p_view :: nat
  w_c_view :: nat
  w_p_last :: "nat \<Rightarrow> nat"
  w_c_last :: "nat \<Rightarrow> nat"
  w_race :: bool

text \<open>The constructor runs before the threads exist: both have seen its stores.\<close>

definition weak_init :: "'a spsc \<Rightarrow> 'a weak" where
  "weak_init q =
     \<lparr>w_th = init_threads q, w_heads = [(q_head q, 0)], w_tails = [(q_tail q, 0)],
      w_seen_head = 0, w_seen_tail = 0, w_p_clock = 0, w_c_clock = 0, w_p_view = 0, w_c_view = 0,
      w_p_last = (\<lambda>_. 0), w_c_last = (\<lambda>_. 0), w_race = False\<rparr>"

definition p_touch :: "nat \<Rightarrow> 'a weak \<Rightarrow> 'a weak" where
  "p_touch k s =
     s\<lparr>w_race := w_race s \<or> w_p_view s < w_c_last s k,
       w_p_clock := w_p_clock s + 1, w_p_last := (w_p_last s)(k := w_p_clock s + 1)\<rparr>"

definition c_touch :: "nat \<Rightarrow> 'a weak \<Rightarrow> 'a weak" where
  "c_touch k s =
     s\<lparr>w_race := w_race s \<or> w_c_view s < w_p_last s k,
       w_c_clock := w_c_clock s + 1, w_c_last := (w_c_last s)(k := w_c_clock s + 1)\<rparr>"

text \<open>
  One step of the producer. \<open>j\<close> is the entry of the history that the load of \<open>tail_\<close> returns;
  the load of the thread's own counter returns its last store.
\<close>

definition wp_step :: "orders \<Rightarrow> nat \<Rightarrow> 'a option \<Rightarrow> 'a weak \<Rightarrow> 'a weak" where
  "wp_step os j f s =
     (let th = w_th s; after = s\<lparr>w_th := p_step f th\<rparr> in
      case th_p th of
        PLoadedHead g h \<Rightarrow>
          s\<lparr>w_th := th\<lparr>th_p := PLoadedTail g h (fst (w_tails s ! j))\<rparr>, w_seen_tail := j,
            w_p_view := loaded_view (o_push_load os) (w_tails s ! j) (w_p_view s)\<rparr>
      | PLoadedTail g h t \<Rightarrow>
          (if q_capacity (th_q th) \<le> h - t then after else p_touch (slot (th_q th) h) after)
      | PWritten g h \<Rightarrow>
          after\<lparr>w_heads := w_heads s @ [stored (o_push_store os) (h + 1) (w_p_clock s)]\<rparr>
      | _ \<Rightarrow> after)"

definition wc_step :: "orders \<Rightarrow> nat \<Rightarrow> 'a weak \<Rightarrow> 'a weak" where
  "wc_step os j s =
     (let th = w_th s; after = s\<lparr>w_th := c_step 0 th\<rparr> in
      case th_c th 0 of
        CLoadedTail t \<Rightarrow>
          s\<lparr>w_th := th\<lparr>th_c := (th_c th)(0 := CLoadedHead t (fst (w_heads s ! j)))\<rparr>,
            w_seen_head := j,
            w_c_view := loaded_view (o_pop_load os) (w_heads s ! j) (w_c_view s)\<rparr>
      | CLoadedHead t h \<Rightarrow> (if h = t then after else c_touch (slot (th_q th) t) after)
      | CMoved t f \<Rightarrow> c_touch (slot (th_q th) t) after
      | CReset t f \<Rightarrow>
          after\<lparr>w_tails := w_tails s @ [stored (o_pop_store os) (t + 1) (w_c_clock s)]\<rparr>
      | CIdle \<Rightarrow> after)"

inductive weak_reach :: "orders \<Rightarrow> 'a spsc \<Rightarrow> 'a weak \<Rightarrow> bool" for os q where
  weak_start: "weak_reach os q (weak_init q)"
| weak_push: "weak_reach os q s \<Longrightarrow> w_seen_tail s \<le> j \<Longrightarrow> j < length (w_tails s) \<Longrightarrow>
     weak_reach os q (wp_step os j f s)"
| weak_pop: "weak_reach os q s \<Longrightarrow> w_seen_head s \<le> j \<Longrightarrow> j < length (w_heads s) \<Longrightarrow>
     weak_reach os q (wc_step os j s)"

inductive_cases weak_reachE: "weak_reach os q s"

section \<open>The invariant\<close>

fun p_extra :: "'a producer_pc \<Rightarrow> nat" where
  "p_extra (PWritten g h) = 1"
| "p_extra _ = 0"

fun c_extra :: "'a consumer_pc \<Rightarrow> nat" where
  "c_extra (CMoved t f) = 1"
| "c_extra (CReset t f) = 2"
| "c_extra _ = 0"

text \<open>
  The \<open>k\<close>-th store of \<open>head_\<close> carries the clock \<open>k\<close>, one buffer access per push; the \<open>k\<close>-th
  store of \<open>tail_\<close> carries \<open>2 k\<close>, two per pop.
\<close>

definition history_ok :: "message list \<Rightarrow> nat \<Rightarrow> nat \<Rightarrow> bool" where
  "history_ok ms n d \<longleftrightarrow> length ms = Suc n \<and> (\<forall>k \<le> n. ms ! k = (of_nat k, d * k))"

definition last_ok :: "(nat \<Rightarrow> nat) \<Rightarrow> nat \<Rightarrow> nat \<Rightarrow> nat \<Rightarrow> bool" where
  "last_ok acc clock d C \<longleftrightarrow>
     (\<forall>j. acc j = 0 \<or> (acc j \<le> clock \<and> ((acc j - 1) div d) mod C = j))"

text \<open>What the last loads of the other thread's counter have established.\<close>

fun p_loaded :: "'a producer_pc \<Rightarrow> nat \<Rightarrow> bool" where
  "p_loaded (PLoadedTail g h t) seen \<longleftrightarrow> t = of_nat seen"
| "p_loaded _ seen \<longleftrightarrow> True"

fun c_loaded :: "'a consumer_pc \<Rightarrow> nat \<Rightarrow> nat \<Rightarrow> bool" where
  "c_loaded (CLoadedHead t h) m seen \<longleftrightarrow> h = of_nat seen"
| "c_loaded (CMoved t f) m seen \<longleftrightarrow> m < seen"
| "c_loaded (CReset t f) m seen \<longleftrightarrow> m < seen"
| "c_loaded _ m seen \<longleftrightarrow> True"

definition weak_inv :: "'a weak \<Rightarrow> bool" where
  "weak_inv s \<longleftrightarrow>
     (let th = w_th s; n = length (th_sent th); m = length (th_recvd th); C = q_cap (th_q th) in
      spsc_inv th \<and> history_ok (w_heads s) n 1 \<and> history_ok (w_tails s) m 2 \<and>
      w_p_clock s = n + p_extra (th_p th) \<and> w_c_clock s = 2 * m + c_extra (th_c th 0) \<and>
      m \<le> w_seen_head s \<and> w_seen_head s \<le> n \<and> w_c_view s = w_seen_head s \<and>
      w_seen_tail s \<le> m \<and> w_p_view s = 2 * w_seen_tail s \<and>
      p_loaded (th_p th) (w_seen_tail s) \<and> c_loaded (th_c th 0) m (w_seen_head s) \<and>
      last_ok (w_p_last s) (n + p_extra (th_p th)) 1 C \<and>
      last_ok (w_c_last s) (2 * m + c_extra (th_c th 0)) 2 C \<and>
      \<not> w_race s)"

lemma weak_invD:
  assumes "weak_inv s"
  shows "spsc_inv (w_th s)"
    and "history_ok (w_heads s) (length (th_sent (w_th s))) 1"
    and "history_ok (w_tails s) (length (th_recvd (w_th s))) 2"
    and "w_p_clock s = length (th_sent (w_th s)) + p_extra (th_p (w_th s))"
    and "w_c_clock s = 2 * length (th_recvd (w_th s)) + c_extra (th_c (w_th s) 0)"
    and "length (th_recvd (w_th s)) \<le> w_seen_head s"
    and "w_seen_head s \<le> length (th_sent (w_th s))"
    and "w_seen_tail s \<le> length (th_recvd (w_th s))"
    and "w_c_view s = w_seen_head s" and "w_p_view s = 2 * w_seen_tail s"
    and "p_loaded (th_p (w_th s)) (w_seen_tail s)"
    and "c_loaded (th_c (w_th s) 0) (length (th_recvd (w_th s))) (w_seen_head s)"
    and "last_ok (w_p_last s) (length (th_sent (w_th s)) + p_extra (th_p (w_th s))) 1
           (q_cap (th_q (w_th s)))"
    and "last_ok (w_c_last s) (2 * length (th_recvd (w_th s)) + c_extra (th_c (w_th s) 0)) 2
           (q_cap (th_q (w_th s)))"
    and "\<not> w_race s"
  using assms by (simp_all add: weak_inv_def Let_def)

lemma history_ok_append:
  "history_ok ms n d \<Longrightarrow> history_ok (ms @ [(of_nat n + 1, d * Suc n)]) (Suc n) d"
  by (auto simp: history_ok_def nth_append le_Suc_eq)

lemma last_okD:
  "acc j \<noteq> 0 \<Longrightarrow> last_ok acc clock d C \<Longrightarrow> acc j \<le> clock \<and> ((acc j - 1) div d) mod C = j"
  unfolding last_ok_def by (drule spec [of _ j]) simp

lemma last_ok_touch:
  assumes "last_ok acc clock d C" "k = (clock div d) mod C"
  shows "last_ok (acc(k := clock + 1)) (clock + 1) d C"
  unfolding last_ok_def
proof
  fix j
  show "(acc(k := clock + 1)) j = 0 \<or> ((acc(k := clock + 1)) j \<le> clock + 1 \<and>
      (((acc(k := clock + 1)) j - 1) div d) mod C = j)"
    using last_okD [of acc j, OF _ assms(1)] assms(2) by (cases "j = k") auto
qed

lemma last_ok_mono: "last_ok acc clock d C \<Longrightarrow> clock \<le> c \<Longrightarrow> last_ok acc c d C"
  unfolding last_ok_def by (meson le_trans)

lemma spsc_inv_mn:
  "spsc_inv s \<Longrightarrow> length (th_recvd s) \<le> length (th_sent s) \<and>
     length (th_sent s) - length (th_recvd s) \<le> q_cap (th_q s)"
  by (simp add: spsc_inv_def Let_def)

text \<open>The two stale loads keep the invariant of the interleaving.\<close>

lemma stale_tail_inv:
  assumes "spsc_inv th" "th_p th = PLoadedHead g h" "j \<le> length (th_recvd th)"
  shows "spsc_inv (th\<lparr>th_p := PLoadedTail g h (of_nat j)\<rparr>)"
proof -
  have "window_lo (th\<lparr>th_p := p\<rparr>) = window_lo th" for p by (simp add: window_lo_def)
  with assms show ?thesis
    by (auto simp: spsc_inv_def Let_def consumer_ok_def producer_ok_def split: consumer_pc.splits)
qed

lemma stale_head_inv:
  assumes "spsc_inv th" "th_c th 0 = CLoadedTail t"
    and "length (th_recvd th) \<le> j" "j \<le> length (th_sent th)"
  shows "spsc_inv (th\<lparr>th_c := (th_c th)(0 := CLoadedHead t (of_nat j))\<rparr>)"
  using assms by (auto simp: spsc_inv_def Let_def consumer_ok_def window_lo_def)

text \<open>
  The arithmetic behind race freedom: of two counters that share a slot, the smaller is a whole
  capacity behind.
\<close>

lemma same_slot_gap:
  assumes "a mod C = b mod (C :: nat)" "a < b"
  shows "a + C \<le> b"
proof -
  have "C dvd b - a" using assms mod_eq_dvd_iff_nat [of a b C] by simp
  with \<open>a < b\<close> show ?thesis by (auto dest: dvd_imp_le)
qed

lemma producer_sees_last:
  assumes inv: "weak_inv s" and pc: "th_p (w_th s) = PLoadedTail g h t"
    and k: "k = length (th_sent (w_th s)) mod q_cap (th_q (w_th s))"
    and free: "length (th_sent (w_th s)) - w_seen_tail s < q_cap (th_q (w_th s))"
  shows "w_c_last s k \<le> w_p_view s"
proof (cases "w_c_last s k = 0")
  case False
  let ?n = "length (th_sent (w_th s))" and ?m = "length (th_recvd (w_th s))"
  let ?C = "q_cap (th_q (w_th s))" and ?a = "(w_c_last s k - 1) div 2"
  have lo: "last_ok (w_c_last s) (2 * ?m + c_extra (th_c (w_th s) 0)) 2 ?C"
    by (rule weak_invD [OF inv])
  have a: "?a mod ?C = ?n mod ?C" "w_c_last s k \<le> 2 * ?m + c_extra (th_c (w_th s) 0)"
    using last_okD [OF False lo] k by simp_all
  have mn: "?m \<le> ?n" "w_seen_tail s \<le> ?m" "w_p_view s = 2 * w_seen_tail s" "spsc_inv (w_th s)"
    using weak_invD [OF inv] spsc_inv_mn by simp_all
  have "?a < ?n"
  proof (cases "c_extra (th_c (w_th s) 0) = 0")
    case True
    then show ?thesis using a(2) mn False by linarith
  next
    case False
    then have "?m < ?n"
      using mn(4) by (cases "th_c (w_th s) 0") (auto simp: spsc_inv_def consumer_ok_def Let_def)
    moreover have "c_extra (th_c (w_th s) 0) \<le> 2" by (cases "th_c (w_th s) 0") auto
    ultimately show ?thesis using a(2) by linarith
  qed
  from same_slot_gap [OF a(1) this] free have "?a < w_seen_tail s" by linarith
  then show ?thesis using mn(3) by linarith
qed simp

lemma consumer_sees_last:
  assumes inv: "weak_inv s" and k: "k = length (th_recvd (w_th s)) mod q_cap (th_q (w_th s))"
    and lt: "length (th_recvd (w_th s)) < w_seen_head s"
  shows "w_p_last s k \<le> w_c_view s"
proof (cases "w_p_last s k = 0")
  case False
  let ?n = "length (th_sent (w_th s))" and ?m = "length (th_recvd (w_th s))"
  let ?C = "q_cap (th_q (w_th s))" and ?a = "w_p_last s k - 1"
  have lo: "last_ok (w_p_last s) (?n + p_extra (th_p (w_th s))) 1 ?C"
    by (rule weak_invD [OF inv])
  have a: "?m mod ?C = ?a mod ?C" "w_p_last s k \<le> ?n + p_extra (th_p (w_th s))"
    using last_okD [OF False lo] k by simp_all
  have mn: "?m \<le> ?n" "?n - ?m \<le> ?C" "w_seen_head s \<le> ?n" "w_c_view s = w_seen_head s"
    "spsc_inv (w_th s)"
    using weak_invD [OF inv] spsc_inv_mn [of "w_th s"] by simp_all
  have "?a < ?m + ?C"
  proof (cases "p_extra (th_p (w_th s)) = 0")
    case True
    then show ?thesis using a(2) mn False by linarith
  next
    case False
    then have "?n - ?m < ?C" "p_extra (th_p (w_th s)) = 1"
      using mn(5) by (cases "th_p (w_th s)"; simp add: spsc_inv_def producer_ok_def Let_def)+
    then show ?thesis using a(2) mn by linarith
  qed
  then have "?a \<le> ?m" using same_slot_gap [OF a(1)] by linarith
  then show ?thesis using mn(4) lt by linarith
qed simp

lemma history_nth: "history_ok ms n d \<Longrightarrow> k \<le> n \<Longrightarrow> ms ! k = (of_nat k, d * k)"
  by (simp add: history_ok_def)

lemma history_length: "history_ok ms n d \<Longrightarrow> length ms = Suc n"
  by (simp add: history_ok_def)

lemmas weak_defs = weak_inv_def Let_def

lemma wp_step_inv:
  assumes inv: "weak_inv s" and bound: "length (th_sent (w_th s)) < 2 ^ 64"
    and j: "w_seen_tail s \<le> j" "j < length (w_tails s)"
  shows "weak_inv (wp_step source_orders j f s)"
proof -
  let ?th = "w_th s" and ?n = "length (th_sent (w_th s))" and ?m = "length (th_recvd (w_th s))"
  let ?C = "q_cap (th_q (w_th s))"
  note ok = weak_invD [OF inv]
  have sp: "spsc_inv ?th" by (rule ok)
  have sp': "spsc_inv (p_step f ?th)" by (rule p_step_inv [OF sp bound])
  have jm: "j \<le> ?m" and tj: "w_tails s ! j = (of_nat j, 2 * j)"
    using j history_length [OF ok(3)] history_nth [OF ok(3), of j] by simp_all
  show ?thesis
  proof (cases "th_p ?th")
    case PIdle
    then show ?thesis using ok sp'
      by (simp add: wp_step_def weak_defs p_step_def)
  next
    case (PLoadedHead g h)
    then show ?thesis using ok stale_tail_inv [OF sp PLoadedHead jm] jm j
      by (simp add: wp_step_def weak_defs tj loaded_view_def source_orders_def)
  next
    case (PLoadedTail g h t)
    have h: "h = of_nat ?n" "t = of_nat (w_seen_tail s)" "w_seen_tail s \<le> ?n"
      using ok PLoadedTail sp by (auto simp: spsc_inv_def producer_ok_def Let_def)
    show ?thesis
    proof (cases "q_capacity (th_q ?th) \<le> h - t")
      case True
      with PLoadedTail ok sp' show ?thesis
        by (simp add: wp_step_def weak_defs p_step_def q_cap_def)
    next
      case False
      then have free: "?n - w_seen_tail s < ?C"
        using full_iff [of "w_seen_tail s" ?n "th_q ?th"] h bound by simp
      have sl: "slot (th_q ?th) h = ?n mod ?C" using slot_of_nat [OF bound] h(1) by simp
      have "w_c_last s (?n mod ?C) \<le> w_p_view s"
        by (rule producer_sees_last [OF inv PLoadedTail refl free])
      moreover have "last_ok ((w_p_last s)(?n mod ?C := ?n + 1)) (?n + 1) 1 ?C"
        using ok(13) PLoadedTail by (intro last_ok_touch) auto
      ultimately show ?thesis
        using False PLoadedTail ok sp'
        by (simp add: wp_step_def weak_defs p_step_def p_touch_def sl)
    qed
  next
    case (PWritten g h)
    have "h = of_nat ?n" using PWritten sp by (simp add: spsc_inv_def producer_ok_def Let_def)
    with PWritten ok sp' history_ok_append [of "w_heads s" ?n 1] show ?thesis
      by (simp add: wp_step_def weak_defs p_step_def stored_def source_orders_def)
  next
    case PPublished
    with ok sp' show ?thesis by (simp add: wp_step_def weak_defs p_step_def)
  qed
qed

lemma wc_step_inv:
  assumes inv: "weak_inv s" and bound: "length (th_sent (w_th s)) < 2 ^ 64"
    and j: "w_seen_head s \<le> j" "j < length (w_heads s)"
  shows "weak_inv (wc_step source_orders j s)"
proof -
  let ?th = "w_th s" and ?n = "length (th_sent (w_th s))" and ?m = "length (th_recvd (w_th s))"
  let ?C = "q_cap (th_q (w_th s))"
  note ok = weak_invD [OF inv]
  have sp: "spsc_inv ?th" by (rule ok)
  have sp': "spsc_inv (c_step 0 ?th)" by (rule c_step_inv [OF sp bound])
  have jn: "?m \<le> j" "j \<le> ?n" and hj: "w_heads s ! j = (of_nat j, j)"
    using j ok(6) history_length [OF ok(2)] history_nth [OF ok(2), of j] by simp_all
  have touch: "last_ok ((w_c_last s)(?m mod ?C := 2 * ?m + x + 1)) (2 * ?m + x + 1) 2 ?C"
    if "c_extra (th_c ?th 0) = x" "x < 2" for x
    using ok(14) that by (intro last_ok_touch) auto
  have sl: "slot (th_q ?th) (of_nat ?m) = ?m mod ?C"
    using slot_of_nat [of ?m] bound spsc_inv_mn [OF sp] by simp
  show ?thesis
  proof (cases "th_c ?th 0")
    case CIdle
    with ok sp' show ?thesis by (simp add: wc_step_def weak_defs c_step_def)
  next
    case (CLoadedTail t)
    then show ?thesis using ok stale_head_inv [OF sp CLoadedTail jn] jn j
      by (simp add: wc_step_def weak_defs hj loaded_view_def source_orders_def)
  next
    case (CLoadedHead t h)
    have t: "t = of_nat ?m" "h = of_nat (w_seen_head s)"
      using ok CLoadedHead sp by (auto simp: spsc_inv_def consumer_ok_def Let_def)
    show ?thesis
    proof (cases "h = t")
      case True
      with CLoadedHead ok sp' show ?thesis by (simp add: wc_step_def weak_defs c_step_def)
    next
      case False
      then have lt: "?m < w_seen_head s" using t ok by (metis le_neq_implies_less)
      have "w_p_last s (?m mod ?C) \<le> w_c_view s"
        by (rule consumer_sees_last [OF inv refl lt])
      with False CLoadedHead ok sp' lt touch show ?thesis
        by (simp add: wc_step_def weak_defs c_step_def c_touch_def t(1) sl)
    qed
  next
    case (CMoved t f)
    have t: "t = of_nat ?m" using CMoved sp by (simp add: spsc_inv_def consumer_ok_def Let_def)
    have lt: "?m < w_seen_head s" using ok CMoved by simp
    have "w_p_last s (?m mod ?C) \<le> w_c_view s"
      by (rule consumer_sees_last [OF inv refl lt])
    with CMoved ok sp' lt touch show ?thesis
      by (simp add: wc_step_def weak_defs c_step_def c_touch_def t sl)
  next
    case (CReset t f)
    have t: "t = of_nat ?m" using CReset sp by (simp add: spsc_inv_def consumer_ok_def Let_def)
    with CReset ok sp' history_ok_append [of "w_tails s" ?m 2] show ?thesis
      by (simp add: wc_step_def weak_defs c_step_def stored_def source_orders_def)
  qed
qed

lemma weak_inv_init:
  assumes "queue_new c = Inr q"
  shows "weak_inv (weak_init q)"
  using spsc_inv_init [OF assms] queue_new_at(2) [OF assms]
  by (simp add: weak_inv_def weak_init_def init_threads_def history_ok_def last_ok_def
      spsc_inv_def Let_def)

lemma wp_step_sent_mono:
  "length (th_sent (w_th s)) \<le> length (th_sent (w_th (wp_step os j f s)))"
  using p_step_sent_mono [of "w_th s" f]
  by (cases "th_p (w_th s)") (auto simp: wp_step_def p_touch_def Let_def)

lemma wc_step_sent: "th_sent (w_th (wc_step os j s)) = th_sent (w_th s)"
  using c_step_sent [of 0 "w_th s"]
  by (cases "th_c (w_th s) 0") (auto simp: wc_step_def c_touch_def Let_def)

lemma wp_step_cap: "q_cap (th_q (w_th (wp_step os j f s))) = q_cap (th_q (w_th s))"
  using q_cap_p_step [of f "w_th s"]
  by (cases "th_p (w_th s)") (auto simp: wp_step_def p_touch_def Let_def)

lemma wc_step_cap: "q_cap (th_q (w_th (wc_step os j s))) = q_cap (th_q (w_th s))"
  using q_cap_c_step [of 0 "w_th s"]
  by (cases "th_c (w_th s) 0") (auto simp: wc_step_def c_touch_def Let_def)

lemma weak_reach_inv:
  assumes "weak_reach source_orders q s" "queue_new c = Inr q" "length (th_sent (w_th s)) < 2 ^ 64"
  shows "weak_inv s"
  using assms(1,3)
proof induction
  case weak_start
  show ?case by (rule weak_inv_init [OF assms(2)])
next
  case (weak_push s j f)
  then have "length (th_sent (w_th s)) < 2 ^ 64"
    using wp_step_sent_mono [of s source_orders j f] by linarith
  with weak_push show ?case by (intro wp_step_inv) auto
next
  case (weak_pop s j)
  then show ?case by (auto simp: wc_step_sent intro: wc_step_inv)
qed

lemma weak_reach_cap: "weak_reach os q s \<Longrightarrow> q_cap (th_q (w_th s)) = q_cap q"
  by (induction rule: weak_reach.induct)
    (simp_all add: weak_init_def init_threads_def wp_step_cap wc_step_cap)

section \<open>What the memory orders guarantee\<close>

text \<open>
  C6. One producer and one consumer under the memory orders of the source, fewer than \<open>2^64\<close>
  frames: however the steps are interleaved and however stale the value is that each load of
  the other thread's counter returns, no two accesses to a buffer slot race, what the consumer
  has received is a prefix of what the producer was told was accepted, and the number in
  flight never exceeds the capacity.
\<close>

theorem spsc_memory_safe:
  assumes "queue_new c = Inr q" and "weak_reach source_orders q s"
    and "length (th_sent (w_th s)) < 2 ^ 64"
  shows "\<not> w_race s \<and>
    th_recvd (w_th s) = take (length (th_recvd (w_th s))) (th_sent (w_th s)) \<and>
    length (th_sent (w_th s)) - length (th_recvd (w_th s)) \<le> max 1 (unat c)"
proof -
  have inv: "weak_inv s" by (rule weak_reach_inv [OF assms(2,1,3)])
  show ?thesis
    using weak_invD(1,15) [OF inv] weak_reach_cap [OF assms(2)] queue_new_at(3) [OF assms(1)]
    by (simp add: spsc_inv_def Let_def)
qed

text \<open>Schedules: the thread of each step, the entry its load returns, and the frame it pushes.\<close>

fun weak_run :: "orders \<Rightarrow> (bool \<times> nat \<times> 'a option) list \<Rightarrow> 'a weak \<Rightarrow> 'a weak" where
  "weak_run os [] s = s"
| "weak_run os ((True, j, f) # es) s = weak_run os es (wp_step os j f s)"
| "weak_run os ((False, j, f) # es) s = weak_run os es (wc_step os j s)"

fun weak_sched_ok :: "orders \<Rightarrow> (bool \<times> nat \<times> 'a option) list \<Rightarrow> 'a weak \<Rightarrow> bool" where
  "weak_sched_ok os [] s = True"
| "weak_sched_ok os ((True, j, f) # es) s =
     (w_seen_tail s \<le> j \<and> j < length (w_tails s) \<and> weak_sched_ok os es (wp_step os j f s))"
| "weak_sched_ok os ((False, j, f) # es) s =
     (w_seen_head s \<le> j \<and> j < length (w_heads s) \<and> weak_sched_ok os es (wc_step os j s))"

lemma weak_run_reach:
  "weak_reach os q s \<Longrightarrow> weak_sched_ok os es s \<Longrightarrow> weak_reach os q (weak_run os es s)"
  by (induction os es s rule: weak_run.induct) (auto intro: weak_reach.intros)

text \<open>A push, a first pop that still reads the old head, and a second that reads the new one.\<close>

definition stale_sched :: "(bool \<times> nat \<times> bool option) list" where
  "stale_sched =
     [(True, 0, Some True), (True, 0, None), (True, 0, None), (True, 0, None), (True, 0, None),
      (False, 0, None), (False, 0, None), (False, 0, None)] @
     [(False, 0, None), (False, 1, None), (False, 1, None), (False, 1, None), (False, 1, None)]"

lemmas wexec = stale_sched_def wp_step_def wc_step_def p_step_def c_step_def p_touch_def c_touch_def
    weak_init_def init_threads_def ring2_def source_orders_def stored_def loaded_view_def
    slot_def word_le_nat_alt

theorem spsc_memory_safe_witness:
  "\<exists>s :: bool weak. weak_reach source_orders ring2 s \<and> th_recvd (w_th s) = [Some True] \<and>
    \<not> w_race s \<and> length (th_sent (w_th s)) - length (th_recvd (w_th s)) \<le> 2"
proof -
  define s where "s = weak_run source_orders stale_sched (weak_init ring2)"
  have r: "weak_reach source_orders ring2 s"
    unfolding s_def by (rule weak_run_reach [OF weak_start]) (simp add: wexec)
  have "th_sent (w_th s) = [Some True]" "th_recvd (w_th s) = [Some True]"
    unfolding s_def by (simp_all add: wexec)
  with spsc_memory_safe [OF queue_new_ring2 r] r show ?thesis
    by (intro exI [of _ s]) simp
qed

text \<open>Three pushes and one pop: the third push reuses the slot that the pop has emptied.\<close>

definition reuse_sched :: "(bool \<times> nat \<times> bool option) list" where
  "reuse_sched =
     [(True, 0, Some True), (True, 0, None), (True, 0, None), (True, 0, None), (True, 0, None),
      (True, 0, Some True), (True, 0, None), (True, 0, None), (True, 0, None), (True, 0, None),
      (False, 0, None), (False, 2, None), (False, 2, None), (False, 2, None), (False, 2, None),
      (True, 0, Some True), (True, 1, None), (True, 1, None), (True, 1, None), (True, 1, None)]"

lemmas rexec = wexec reuse_sched_def

lemma weak_run_race:
  fixes es :: "(bool \<times> nat \<times> 'a option) list"
  assumes "weak_sched_ok os es (weak_init ring2)" "w_race (weak_run os es (weak_init ring2))"
  shows "\<exists>s :: 'a weak. weak_reach os ring2 s \<and> w_race s"
  using assms weak_run_reach [OF weak_start] by blast

text \<open>
  Every one of the four orders is needed: with a relaxed access in its place, on a queue of
  capacity 2, a run of at most three pushes and one pop has a data race on a slot.
\<close>

theorem memory_orders_needed:
  "(\<exists>s :: bool weak. weak_reach (source_orders\<lparr>o_push_store := Relaxed\<rparr>) ring2 s \<and> w_race s) \<and>
   (\<exists>s :: bool weak. weak_reach (source_orders\<lparr>o_pop_load := Relaxed\<rparr>) ring2 s \<and> w_race s) \<and>
   (\<exists>s :: bool weak. weak_reach (source_orders\<lparr>o_push_load := Relaxed\<rparr>) ring2 s \<and> w_race s) \<and>
   (\<exists>s :: bool weak. weak_reach (source_orders\<lparr>o_pop_store := Relaxed\<rparr>) ring2 s \<and> w_race s)"
proof (intro conjI)
  show "\<exists>s :: bool weak. weak_reach (source_orders\<lparr>o_push_store := Relaxed\<rparr>) ring2 s \<and> w_race s"
    by (rule weak_run_race [where es = reuse_sched]; simp add: rexec)
  show "\<exists>s :: bool weak. weak_reach (source_orders\<lparr>o_pop_load := Relaxed\<rparr>) ring2 s \<and> w_race s"
    by (rule weak_run_race [where es = reuse_sched]; simp add: rexec)
  show "\<exists>s :: bool weak. weak_reach (source_orders\<lparr>o_push_load := Relaxed\<rparr>) ring2 s \<and> w_race s"
    by (rule weak_run_race [where es = reuse_sched]; simp add: rexec)
  show "\<exists>s :: bool weak. weak_reach (source_orders\<lparr>o_pop_store := Relaxed\<rparr>) ring2 s \<and> w_race s"
    by (rule weak_run_race [where es = reuse_sched]; simp add: rexec)
qed

section \<open>A third thread reading the size\<close>

text \<open>
  \<open>size()\<close> loads \<open>head_\<close> and then \<open>tail_\<close>. Between the two loads of a thread that reports
  statistics the other two may push and pop.
\<close>

definition size_between :: "'a threads \<Rightarrow> 'a threads \<Rightarrow> u64" where
  "size_between s s' = q_head (th_q s) - q_tail (th_q s')"

inductive later :: "'a threads \<Rightarrow> 'a threads \<Rightarrow> bool" where
  later_refl: "later s s"
| later_push: "later s s' \<Longrightarrow> later s (p_step f s')"
| later_pop: "later s s' \<Longrightarrow> later s (c_step 0 s')"

lemma run_sched_later:
  "later s0 s \<Longrightarrow> (\<forall>e \<in> set es. \<forall>i. fst e = Some i \<longrightarrow> i = 0) \<Longrightarrow> later s0 (run_sched es s)"
  by (induction es s rule: run_sched.induct) (auto intro: later.intros)

text \<open>
  A size read while the other threads run can be \<open>2^64 - 1\<close>: on an empty queue of capacity
  2 one push and one pop between the two loads suffice.
\<close>

theorem torn_size_wraps:
  "\<exists>s s' :: bool threads. reach {0} ring2 s \<and> later s s' \<and> size_between s s' = - 1"
proof -
  let ?s = "init_threads ring2 :: bool threads"
  define s' where "s' = run_sched (push_call (Some True) @ pop_call 0) ?s"
  have "later ?s s'"
    unfolding s'_def by (rule run_sched_later [OF later_refl]) (auto simp: sched_defs)
  moreover have "size_between ?s s' = - 1"
    unfolding s'_def
    by (simp add: size_between_def sched_defs p_step_def c_step_def init_threads_def ring2_def
        slot_def word_le_nat_alt)
  ultimately show ?thesis using reach_init by blast
qed

end
