(* ===== verification/Logging.thy ===== *)
theory Logging
  imports SimTypes
begin

text \<open>
  \<open>include/sim_vision/common/Logger.h\<close> and \<open>src/common/Logger.cpp\<close>: the level filter and the
  two outputs of the logger, standard error and an optional file opened for appending.
\<close>

datatype log_level = LFatal | LError | LWarn | LInfo | LDebug

fun level_int :: "log_level \<Rightarrow> int" where
  "level_int LFatal = 0"
| "level_int LError = 1"
| "level_int LWarn = 2"
| "level_int LInfo = 3"
| "level_int LDebug = 4"

fun level_name :: "log_level \<Rightarrow> string" where
  "level_name LFatal = ''FATAL''"
| "level_name LError = ''ERROR''"
| "level_name LWarn = ''WARN''"
| "level_name LInfo = ''INFO''"
| "level_name LDebug = ''DEBUG''"

definition parse_level :: "string \<Rightarrow> log_level" where
  "parse_level s =
     (if s = ''fatal'' then LFatal
      else if s = ''error'' then LError
      else if s = ''warn'' then LWarn
      else if s = ''debug'' then LDebug
      else LInfo)"

text \<open>
  The logger and what it has written: \<open>lg_files\<close> is the text that has reached each file,
  \<open>lg_pending\<close> the text still in the stream's buffer. (The stream may hand part of its buffer
  over earlier; \<open>lg_pending\<close> is what may still be lost.)
\<close>

record logger =
  lg_level :: log_level
  lg_file :: "string option"
  lg_pending :: string
  lg_files :: "string \<Rightarrow> string"
  lg_stderr :: string

definition logger_new :: "(string \<Rightarrow> string) \<Rightarrow> logger" where
  "logger_new files = \<lparr>lg_level = LInfo, lg_file = None, lg_pending = [], lg_files = files,
                       lg_stderr = []\<rparr>"

definition set_level :: "log_level \<Rightarrow> logger \<Rightarrow> logger" where
  "set_level l lg = lg\<lparr>lg_level := l\<rparr>"

definition lg_flush :: "logger \<Rightarrow> logger" where
  "lg_flush lg =
     (case lg_file lg of
        None \<Rightarrow> lg
      | Some p \<Rightarrow> lg\<lparr>lg_files := (lg_files lg)(p := lg_files lg p @ lg_pending lg), lg_pending := []\<rparr>)"

text \<open>\<open>can_open path\<close>: whether \<open>ofstream::open\<close> succeeds.\<close>

definition set_file :: "(string \<Rightarrow> bool) \<Rightarrow> string \<Rightarrow> logger \<Rightarrow> logger" where
  "set_file can_open path lg =
     (let closed = (if lg_file lg \<noteq> None then (lg_flush lg)\<lparr>lg_file := None\<rparr> else lg)
      in if path \<noteq> [] then closed\<lparr>lg_file := (if can_open path then Some path else None)\<rparr>
         else closed)"

definition log_line :: "string \<Rightarrow> log_level \<Rightarrow> string option \<Rightarrow> string \<Rightarrow> string" where
  "log_line stamp l mod_name message =
     stamp @ '' | '' @ level_name l @ '' | '' @ (case mod_name of Some m \<Rightarrow> m | None \<Rightarrow> []) @
     '' | '' @ message @ [CHR 0x0A]"

definition log :: "string \<Rightarrow> log_level \<Rightarrow> string option \<Rightarrow> string \<Rightarrow> logger \<Rightarrow> logger" where
  "log stamp l mod_name message lg =
     (if level_int (lg_level lg) < level_int l then lg
      else
        (let line = log_line stamp l mod_name message;
             lg1 = lg\<lparr>lg_stderr := lg_stderr lg @ line\<rparr>
         in case lg_file lg1 of
              None \<Rightarrow> lg1
            | Some p \<Rightarrow>
                (let lg2 = lg1\<lparr>lg_pending := lg_pending lg1 @ line\<rparr>
                 in if l = LFatal \<or> l = LError then lg_flush lg2 else lg2)))"

definition log_init :: "(string \<Rightarrow> bool) \<Rightarrow> string \<Rightarrow> string \<Rightarrow> logger \<Rightarrow> logger" where
  "log_init can_open level_str file_path lg =
     (let lg1 = set_level (parse_level level_str) lg
      in if file_path \<noteq> [] then set_file can_open file_path lg1 else lg1)"

section \<open>What reaches the outputs\<close>

type_synonym log_entry = "string \<times> log_level \<times> string option \<times> string"

fun log_entry_to :: "log_entry \<Rightarrow> logger \<Rightarrow> logger" where
  "log_entry_to (stamp, l, m, msg) lg = log stamp l m msg lg"

fun entry_line :: "log_entry \<Rightarrow> string" where
  "entry_line (stamp, l, m, msg) = log_line stamp l m msg"

fun entry_level :: "log_entry \<Rightarrow> log_level" where
  "entry_level (stamp, l, m, msg) = l"

definition admitted :: "log_level \<Rightarrow> log_entry list \<Rightarrow> log_entry list" where
  "admitted lv es = filter (\<lambda>e. level_int (entry_level e) \<le> level_int lv) es"

definition file_text :: "logger \<Rightarrow> string \<Rightarrow> string" where
  "file_text lg p = lg_files lg p @ (if lg_file lg = Some p then lg_pending lg else [])"

lemma log_entry_to_fields:
  "lg_level (log_entry_to e lg) = lg_level lg"
  "lg_file (log_entry_to e lg) = lg_file lg"
  "lg_stderr (log_entry_to e lg) = lg_stderr lg @ concat (map entry_line (admitted (lg_level lg) [e]))"
  by (cases e; auto simp: log_def lg_flush_def admitted_def Let_def split: option.splits)+

lemma log_entry_to_file:
  "file_text (log_entry_to e lg) p =
     file_text lg p @ (if lg_file lg = Some p
       then concat (map entry_line (admitted (lg_level lg) [e])) else [])"
  by (cases e) (auto simp: log_def lg_flush_def admitted_def file_text_def Let_def split: option.splits)

lemma log_entries:
  "lg_level (fold log_entry_to es lg) = lg_level lg \<and>
   lg_file (fold log_entry_to es lg) = lg_file lg \<and>
   lg_stderr (fold log_entry_to es lg) =
     lg_stderr lg @ concat (map entry_line (admitted (lg_level lg) es)) \<and>
   file_text (fold log_entry_to es lg) p =
     file_text lg p @ (if lg_file lg = Some p
       then concat (map entry_line (admitted (lg_level lg) es)) else [])"
proof (induction es arbitrary: lg)
  case (Cons e es)
  have "admitted (lg_level lg) (e # es) = admitted (lg_level lg) [e] @ admitted (lg_level lg) es"
    by (simp add: admitted_def)
  with Cons.IH [of "log_entry_to e lg"] show ?case
    by (simp add: log_entry_to_fields log_entry_to_file)
qed (simp add: admitted_def)


definition log_open :: logger where
  "log_open = (logger_new (\<lambda>_. []))\<lparr>lg_file := Some ''log''\<rparr>"


end
