(* ===== verification/Json.thy ===== *)
theory Json
  imports Prelude
begin

text \<open>
  JSON documents and the interface of the JSON library. A document is a value of the
  datatype \<open>json\<close>; \<open>jcontains\<close>, \<open>jat\<close> and the kind tests read its shape. Whatever
  the library computes (parsing, printing, the typed conversions \<open>get<T>\<close>) is not code of
  this repository: it is the record \<open>json_lib\<close>, a parameter of every definition that uses
  it. \<open>json_conv_ok\<close> states the documented behaviour of the conversions, used as a named
  hypothesis where a property depends on it.
\<close>

text \<open>An object lists its members in key order, the order in which the library iterates.\<close>

datatype json =
    JNull
  | JBool bool
  | JInt int
  | JFloat u64
  | JStr string
  | JArr "json list"
  | JObj "(string, json) omap"

fun jcontains :: "json \<Rightarrow> string \<Rightarrow> bool" where
  "jcontains (JObj m) k = (map_of m k \<noteq> None)"
| "jcontains _ k = False"

fun jat :: "json \<Rightarrow> string \<Rightarrow> json" where
  "jat (JObj m) k = (case map_of m k of Some v \<Rightarrow> v | None \<Rightarrow> JNull)"
| "jat _ k = JNull"

fun is_jstr :: "json \<Rightarrow> bool" where
  "is_jstr (JStr s) = True"
| "is_jstr _ = False"

fun is_jarr :: "json \<Rightarrow> bool" where
  "is_jarr (JArr xs) = True"
| "is_jarr _ = False"

fun jelems :: "json \<Rightarrow> json list" where
  "jelems (JArr xs) = xs"
| "jelems _ = []"

text \<open>
  The iterators of a value: each element with its \<open>key()\<close>, which is \<open>None\<close> where \<open>key()\<close>
  throws (the value is not an object). \<open>jproxy\<close> is the sequence \<open>items()\<close> ranges over, whose
  keys never throw: an array's keys are its indices, a primitive's key is empty.
\<close>

fun jiter :: "json \<Rightarrow> (string option \<times> json) list" where
  "jiter (JObj m) = map (\<lambda>kv. (Some (fst kv), snd kv)) m"
| "jiter (JArr xs) = map (Pair None) xs"
| "jiter JNull = []"
| "jiter v = [(None, v)]"

fun jproxy :: "json \<Rightarrow> (string \<times> json) list" where
  "jproxy (JObj m) = m"
| "jproxy (JArr xs) = map (\<lambda>i. (nat_to_dec i, xs ! i)) [0..<length xs]"
| "jproxy JNull = []"
| "jproxy v = [([], v)]"

text \<open>The object left by the assignments \<open>j[k1] = v1; j[k2] = v2; ...\<close> on an empty value.\<close>

definition jobj :: "(string \<times> json) list \<Rightarrow> json" where
  "jobj kvs = JObj (foldl (\<lambda>m kv. om_upd (fst kv) (snd kv) m) [] kvs)"

lemma map_of_assignments:
  "map_of (foldl (\<lambda>m kv. om_upd (fst kv) (snd kv) m) m0 kvs) k =
     (case map_of (rev kvs) k of Some v \<Rightarrow> Some v | None \<Rightarrow> map_of m0 k)"
  by (induction kvs arbitrary: m0) (auto simp: map_add_def split: option.splits)

lemma jat_jobj:
  "jat (jobj kvs) k = (case map_of (rev kvs) k of Some v \<Rightarrow> v | None \<Rightarrow> JNull)"
  by (simp add: jobj_def map_of_assignments split: option.splits)

lemma jcontains_jobj: "jcontains (jobj kvs) k \<longleftrightarrow> k \<in> fst ` set kvs"
  by (auto simp: jobj_def map_of_assignments map_of_eq_None_iff split: option.splits)
    (metis (no_types, lifting) fst_conv image_iff map_of_eq_None_iff option.distinct(1) set_rev)+

record json_lib =
  jl_parse :: "string \<Rightarrow> json result"
  jl_read :: "string \<Rightarrow> json result"
  jl_dump :: "json \<Rightarrow> string result"
  jl_dump2 :: "json \<Rightarrow> string result"
  jl_string :: "json \<Rightarrow> string result"
  jl_bool :: "json \<Rightarrow> bool result"
  jl_int :: "json \<Rightarrow> int result"
  jl_int64 :: "json \<Rightarrow> int result"
  jl_double :: "json \<Rightarrow> u64 result"

text \<open>
  \<open>jl_parse\<close> parses a complete text, \<open>jl_read\<close> is the stream extraction \<open>ifs >> j\<close>, which
  stops after the first value; \<open>jl_dump2\<close> is \<open>dump(2)\<close>.
  Documented behaviour of the conversions: \<open>get<std::string>\<close> returns the text of a string
  and throws \<open>type_error\<close> on every other kind; \<open>get<int64_t>\<close> returns an integer that fits
  and throws on a string, an array, an object, a boolean and \<open>null\<close>; \<open>get<int>\<close> returns an
  \<open>int\<close>.
\<close>

definition json_conv_ok :: "json_lib \<Rightarrow> bool" where
  "json_conv_ok L \<longleftrightarrow>
     (\<forall>s. jl_string L (JStr s) = Inr s) \<and>
     (\<forall>v. \<not> is_jstr v \<longrightarrow> (\<exists>e. jl_string L v = Inl e)) \<and>
     (\<forall>n. - (2 ^ 63) \<le> n \<and> n < 2 ^ 63 \<longrightarrow> jl_int64 L (JInt n) = Inr n) \<and>
     (\<forall>v n. jl_int64 L v = Inr n \<longrightarrow> - (2 ^ 63) \<le> n \<and> n < 2 ^ 63) \<and>
     (\<forall>v. (case v of JInt _ \<Rightarrow> False | JFloat _ \<Rightarrow> False | _ \<Rightarrow> True) \<longrightarrow>
        (\<exists>e. jl_int64 L v = Inl e)) \<and>
     (\<forall>v n. jl_int L v = Inr n \<longrightarrow> in_int32 n)"

text \<open>
  Documented behaviour of \<open>dump\<close>: it throws only on a string that is not valid UTF-8, so never
  on a document whose strings are ASCII.
\<close>

definition ascii_str :: "string \<Rightarrow> bool" where
  "ascii_str s \<longleftrightarrow> list_all (\<lambda>c. (of_char c :: nat) < 128) s"

fun json_ascii :: "json \<Rightarrow> bool" where
  "json_ascii (JStr s) = ascii_str s"
| "json_ascii (JArr xs) = (\<forall>x \<in> set xs. json_ascii x)"
| "json_ascii (JObj m) = (\<forall>kv \<in> set m. ascii_str (fst kv) \<and> json_ascii (snd kv))"
| "json_ascii _ = True"

definition json_dump_ok :: "json_lib \<Rightarrow> bool" where
  "json_dump_ok L \<longleftrightarrow> (\<forall>j. json_ascii j \<longrightarrow> (\<exists>s. jl_dump L j = Inr s) \<and> (\<exists>s. jl_dump2 L j = Inr s))"

lemma json_ascii_upd:
  "json_ascii (JObj m) \<Longrightarrow> ascii_str k \<Longrightarrow> json_ascii v \<Longrightarrow> json_ascii (JObj (om_upd k v m))"
  by (induction k v m rule: om_upd.induct) auto

lemma json_ascii_jobj:
  assumes "\<forall>kv \<in> set kvs. ascii_str (fst kv) \<and> json_ascii (snd kv)"
  shows "json_ascii (jobj kvs)"
proof -
  have "json_ascii (JObj (foldl (\<lambda>m kv. om_upd (fst kv) (snd kv) m) m kvs))"
    if "json_ascii (JObj m)" for m
    using assms that by (induction kvs arbitrary: m) (auto simp: json_ascii_upd simp del: json_ascii.simps)
  from this [of "[]"] show ?thesis by (simp add: jobj_def)
qed

text \<open>
  A concrete conversion part, used by the witnesses; its parser and printers are left to the
  caller.
\<close>

definition conv_lib :: "(string \<Rightarrow> json result) \<Rightarrow> (json \<Rightarrow> string result) \<Rightarrow> json_lib" where
  "conv_lib ps dp =
     \<lparr>jl_parse = ps, jl_read = ps, jl_dump = dp, jl_dump2 = dp,
      jl_string = (\<lambda>v. case v of JStr s \<Rightarrow> Inr s | _ \<Rightarrow> Inl (JsonError ''type must be string'')),
      jl_bool = (\<lambda>v. case v of JBool b \<Rightarrow> Inr b | _ \<Rightarrow> Inl (JsonError ''type must be boolean'')),
      jl_int = (\<lambda>v. case v of JInt n \<Rightarrow> Inr (to_int32 n)
                  | _ \<Rightarrow> Inl (JsonError ''type must be number'')),
      jl_int64 = (\<lambda>v. case v of JInt n \<Rightarrow> Inr (sint (word_of_int n :: u64))
                    | _ \<Rightarrow> Inl (JsonError ''type must be number'')),
      jl_double = (\<lambda>v. case v of JFloat d \<Rightarrow> Inr d
                     | _ \<Rightarrow> Inl (JsonError ''type must be number''))\<rparr>"

lemma json_conv_ok_conv_lib: "json_conv_ok (conv_lib ps dp)"
proof -
  have rng: "- (2 ^ 63) \<le> sint (w :: u64) \<and> sint w < 2 ^ 63" for w
    using sint_ge [of w] sint_lt [of w] by simp
  have id64: "sint (word_of_int n :: u64) = n" if "- (2 ^ 63) \<le> n \<and> n < 2 ^ 63" for n
    using that by (simp add: sint_sbintrunc' signed_take_bit_int_eq_self)
  show ?thesis
    using rng id64 in_int32_to_int32
    by (auto simp: json_conv_ok_def conv_lib_def split: json.splits)
qed

end
