(* ===== verification/ChannelManager.thy ===== *)
theory ChannelManager
  imports SimTypes Json
begin

text \<open>
  \<open>include/sim_vision/data/ChannelManager.h\<close> and \<open>src/data/ChannelManager.cpp\<close>: which
  clients subscribe to which data types, how many subscribers a type has, and which types are
  forced on. Every public operation holds the manager's mutex, so each is one transition.
  The locale \<open>subscription_registry\<close> is the contract the command handler and the capture
  engine rely on.
\<close>

section \<open>State and operations\<close>

record chan_state =
  subscriber_count_of :: int
  force_active :: bool

definition chan_default :: chan_state where
  "chan_default = \<lparr>subscriber_count_of = 0, force_active = False\<rparr>"

record channel_manager =
  cm_states :: "(data_type, chan_state) omap"
  cm_clients :: "(string, data_type list) omap"

definition cm_new :: channel_manager where
  "cm_new = \<lparr>cm_states = [], cm_clients = []\<rparr>"

text \<open>\<open>states_[k]\<close> creates a default entry when there is none.\<close>

definition state_at :: "(data_type, chan_state) omap \<Rightarrow> data_type \<Rightarrow> chan_state" where
  "state_at sts t = (case map_of sts t of None \<Rightarrow> chan_default | Some s \<Rightarrow> s)"

text \<open>The loop bodies of \<open>start_capture\<close> and \<open>stop_capture\<close>, and the decrement they share.\<close>

definition start_one ::
    "data_type \<Rightarrow> data_type list \<times> (data_type, chan_state) omap \<Rightarrow>
     data_type list \<times> (data_type, chan_state) omap" where
  "start_one t st =
     (if t \<in> set (fst st) then st
      else (os_insert t (fst st),
            om_upd t ((state_at (snd st) t)\<lparr>subscriber_count_of :=
                        subscriber_count_of (state_at (snd st) t) + 1\<rparr>) (snd st)))"

definition release_one ::
    "data_type \<Rightarrow> (data_type, chan_state) omap \<Rightarrow> (data_type, chan_state) omap" where
  "release_one t sts =
     (case map_of sts t of
        None \<Rightarrow> sts
      | Some s \<Rightarrow>
          (if 0 < subscriber_count_of s
           then om_upd t (s\<lparr>subscriber_count_of := subscriber_count_of s - 1\<rparr>) sts else sts))"

definition stop_one ::
    "data_type \<Rightarrow> data_type list \<times> (data_type, chan_state) omap \<Rightarrow>
     data_type list \<times> (data_type, chan_state) omap" where
  "stop_one t st =
     (if t \<in> set (fst st) then (os_erase t (fst st), release_one t (snd st)) else st)"

definition cm_start_capture ::
    "string \<Rightarrow> data_type list \<Rightarrow> channel_manager \<Rightarrow> channel_manager" where
  "cm_start_capture c ts cm =
     (let subs = (case map_of (cm_clients cm) c of None \<Rightarrow> [] | Some s \<Rightarrow> s);
          r = fold start_one ts (subs, cm_states cm)
      in cm\<lparr>cm_states := snd r, cm_clients := om_upd c (fst r) (cm_clients cm)\<rparr>)"

definition cm_stop_capture ::
    "string \<Rightarrow> data_type list \<Rightarrow> channel_manager \<Rightarrow> channel_manager" where
  "cm_stop_capture c ts cm =
     (case map_of (cm_clients cm) c of
        None \<Rightarrow> cm
      | Some subs \<Rightarrow>
          (let r = fold stop_one ts (subs, cm_states cm)
           in cm\<lparr>cm_states := snd r, cm_clients := om_upd c (fst r) (cm_clients cm)\<rparr>))"

definition disconnect_client :: "string \<Rightarrow> channel_manager \<Rightarrow> bool \<times> channel_manager" where
  "disconnect_client c cm =
     (case map_of (cm_clients cm) c of
        None \<Rightarrow> (False, cm)
      | Some subs \<Rightarrow>
          (True, cm\<lparr>cm_states := fold release_one subs (cm_states cm),
                    cm_clients := om_del c (cm_clients cm)\<rparr>))"

definition activate_channel :: "data_type \<Rightarrow> channel_manager \<Rightarrow> bool \<times> channel_manager" where
  "activate_channel t cm =
     (let s = state_at (cm_states cm) t
      in (\<not> force_active s,
          cm\<lparr>cm_states := om_upd t (s\<lparr>force_active := True\<rparr>) (cm_states cm)\<rparr>))"

definition deactivate_channel :: "data_type \<Rightarrow> channel_manager \<Rightarrow> bool \<times> channel_manager" where
  "deactivate_channel t cm =
     (let s = state_at (cm_states cm) t
      in (force_active s,
          cm\<lparr>cm_states := om_upd t (s\<lparr>force_active := False\<rparr>) (cm_states cm)\<rparr>))"

definition is_active :: "channel_manager \<Rightarrow> data_type \<Rightarrow> bool" where
  "is_active cm t =
     (case map_of (cm_states cm) t of
        None \<Rightarrow> False
      | Some s \<Rightarrow> 0 < subscriber_count_of s \<or> force_active s)"

definition group_active :: "channel_manager \<Rightarrow> data_group \<Rightarrow> bool" where
  "group_active cm g = list_ex (is_active cm) (group_members g)"

definition active_types :: "channel_manager \<Rightarrow> data_type list" where
  "active_types cm = filter (is_active cm) all_data_types"

definition forced_types :: "channel_manager \<Rightarrow> data_type list" where
  "forced_types cm = map fst (filter (\<lambda>kv. force_active (snd kv)) (cm_states cm))"

definition subscriber_count :: "channel_manager \<Rightarrow> data_type \<Rightarrow> int" where
  "subscriber_count cm t =
     (case map_of (cm_states cm) t of None \<Rightarrow> 0 | Some s \<Rightarrow> subscriber_count_of s)"

definition total_clients :: "channel_manager \<Rightarrow> int" where
  "total_clients cm = to_int32 (int (length (cm_clients cm)))"

definition any_subscriber :: "channel_manager \<Rightarrow> bool" where
  "any_subscriber cm = list_ex (\<lambda>kv. 0 < subscriber_count_of (snd kv)) (cm_states cm)"

definition last_subscriber_left :: "channel_manager \<Rightarrow> data_group \<Rightarrow> bool" where
  "last_subscriber_left cm g = list_all (\<lambda>t. \<not> is_active cm t) (group_members g)"

definition cm_status_json :: "channel_manager \<Rightarrow> json" where
  "cm_status_json cm =
     jobj [(''total_clients'', JInt (int (length (cm_clients cm)))),
           (''channels'', JArr (map (\<lambda>kv.
              jobj [(''data_type'', JStr (data_type_to_string (fst kv))),
                    (''group'', JStr (group_to_string (data_type_to_group (fst kv)))),
                    (''subscribers'', JInt (subscriber_count_of (snd kv))),
                    (''activated'', JBool (0 < subscriber_count_of (snd kv) \<or>
                                           force_active (snd kv))),
                    (''force_active'', JBool (force_active (snd kv)))]) (cm_states cm)))]"

section \<open>What the loops do to the counters\<close>

definition cnt :: "(data_type, chan_state) omap \<Rightarrow> data_type \<Rightarrow> int" where
  "cnt sts t = subscriber_count_of (state_at sts t)"

definition frc :: "(data_type, chan_state) omap \<Rightarrow> data_type \<Rightarrow> bool" where
  "frc sts t = force_active (state_at sts t)"

lemma state_at_upd [simp]: "state_at (om_upd t s sts) u = (if u = t then s else state_at sts u)"
  by (simp add: state_at_def)

lemma release_one_eq:
  "0 < cnt sts t \<Longrightarrow> release_one t sts =
     om_upd t ((state_at sts t)\<lparr>subscriber_count_of := cnt sts t - 1\<rparr>) sts"
  by (auto simp: release_one_def cnt_def state_at_def chan_default_def split: option.splits)

lemma start_loop:
  "set (fst (fold start_one ts st)) = set (fst st) \<union> set ts \<and>
   cnt (snd (fold start_one ts st)) u =
     cnt (snd st) u + (if u \<in> set ts - set (fst st) then 1 else 0) \<and>
   frc (snd (fold start_one ts st)) u = frc (snd st) u"
  by (induction ts arbitrary: st) (auto simp: start_one_def cnt_def frc_def)

lemma start_loop_ok:
  "os_ok (fst st) \<Longrightarrow> om_ok (snd st) \<Longrightarrow>
   os_ok (fst (fold start_one ts st)) \<and> om_ok (snd (fold start_one ts st))"
proof (induction ts arbitrary: st)
  case (Cons t ts)
  have "os_ok (fst (start_one t st))" "om_ok (snd (start_one t st))"
    using Cons.prems by (auto simp: start_one_def)
  with Cons.IH show ?case by simp
qed simp

lemma stop_loop:
  assumes "\<forall>t \<in> set (fst st). 0 < cnt (snd st) t"
  shows "set (fst (fold stop_one ts st)) = set (fst st) - set ts \<and>
    cnt (snd (fold stop_one ts st)) u =
      cnt (snd st) u - (if u \<in> set ts \<inter> set (fst st) then 1 else 0) \<and>
    frc (snd (fold stop_one ts st)) u = frc (snd st) u"
  using assms
proof (induction ts arbitrary: st)
  case (Cons t ts)
  have "\<forall>x \<in> set (fst (stop_one t st)). 0 < cnt (snd (stop_one t st)) x"
    using Cons.prems by (auto simp: stop_one_def release_one_eq cnt_def)
  from Cons.IH [OF this] show ?case
    using Cons.prems by (auto simp: stop_one_def release_one_eq cnt_def frc_def)
qed simp

lemma release_ok: "om_ok sts \<Longrightarrow> om_ok (release_one t sts)"
  by (auto simp: release_one_def split: option.splits)

lemma stop_loop_ok:
  "os_ok (fst st) \<Longrightarrow> om_ok (snd st) \<Longrightarrow>
   os_ok (fst (fold stop_one ts st)) \<and> om_ok (snd (fold stop_one ts st))"
proof (induction ts arbitrary: st)
  case (Cons t ts)
  have "os_ok (fst (stop_one t st))" "om_ok (snd (stop_one t st))"
    using Cons.prems by (auto simp: stop_one_def release_ok)
  with Cons.IH show ?case by simp
qed simp

lemma release_loop:
  assumes "\<forall>t \<in> set ts. 0 < cnt sts t" "distinct ts"
  shows "cnt (fold release_one ts sts) u = cnt sts u - (if u \<in> set ts then 1 else 0) \<and>
    frc (fold release_one ts sts) u = frc sts u"
  using assms
proof (induction ts arbitrary: sts)
  case (Cons t ts)
  have r: "release_one t sts =
      om_upd t ((state_at sts t)\<lparr>subscriber_count_of := cnt sts t - 1\<rparr>) sts"
    using Cons.prems by (intro release_one_eq) simp
  have "\<forall>x \<in> set ts. 0 < cnt (release_one t sts) x"
    using Cons.prems by (auto simp: r cnt_def)
  from Cons.IH [OF this] Cons.prems show ?case by (auto simp: r cnt_def frc_def)
qed simp

lemma release_loop_ok: "om_ok sts \<Longrightarrow> om_ok (fold release_one ts sts)"
  by (induction ts arbitrary: sts) (auto simp: release_ok)


section \<open>The invariant\<close>

definition cm_subs :: "channel_manager \<Rightarrow> string \<Rightarrow> data_type set" where
  "cm_subs cm c = (case map_of (cm_clients cm) c of None \<Rightarrow> {} | Some s \<Rightarrow> set s)"

definition holders :: "channel_manager \<Rightarrow> data_type \<Rightarrow> string set" where
  "holders cm t = {c. t \<in> cm_subs cm c}"

text \<open>
  The containers are in key order and the counter of a type is the number of clients that
  hold it.
\<close>

definition cm_inv :: "channel_manager \<Rightarrow> bool" where
  "cm_inv cm \<longleftrightarrow>
     om_ok (cm_states cm) \<and> om_ok (cm_clients cm) \<and>
     (\<forall>c s. map_of (cm_clients cm) c = Some s \<longrightarrow> os_ok s) \<and>
     (\<forall>t. cnt (cm_states cm) t = int (card (holders cm t)))"

lemma finite_holders [simp]: "finite (holders cm t)"
proof (rule finite_subset)
  show "holders cm t \<subseteq> dom (map_of (cm_clients cm))"
    by (auto simp: holders_def cm_subs_def split: option.splits)
qed (simp add: finite_dom_map_of)

lemma cm_inv_cnt: "cm_inv cm \<Longrightarrow> cnt (cm_states cm) t = int (card (holders cm t))"
  by (simp add: cm_inv_def)

lemma cm_inv_pos: "cm_inv cm \<Longrightarrow> 0 < cnt (cm_states cm) t \<longleftrightarrow> (\<exists>c. t \<in> cm_subs cm c)"
  by (simp add: cm_inv_cnt card_gt_0_iff) (auto simp: holders_def)

lemma cm_inv_new [intro, simp]: "cm_inv cm_new"
  by (simp add: cm_inv_def cm_new_def cnt_def state_at_def chan_default_def holders_def cm_subs_def)

text \<open>One client's set changes: the holders of each type change by that client alone.\<close>

lemma holders_upd:
  assumes "cm_subs cm' = (cm_subs cm)(c := S)"
  shows "holders cm' t = (if t \<in> S then insert c (holders cm t) else holders cm t - {c})"
  using assms by (auto simp: holders_def)

lemma card_holders_upd:
  assumes "cm_subs cm' = (cm_subs cm)(c := S)"
  shows "int (card (holders cm' t)) = int (card (holders cm t)) +
    (if t \<in> S - cm_subs cm c then 1 else 0) - (if t \<in> cm_subs cm c - S then 1 else 0)"
proof -
  have m: "c \<in> holders cm t \<longleftrightarrow> t \<in> cm_subs cm c" by (simp add: holders_def)
  have "int (card (holders cm t - {c})) = int (card (holders cm t)) - 1" if "c \<in> holders cm t"
    using card_Suc_Diff1 [OF finite_holders that] by linarith
  with m show ?thesis by (auto simp: holders_upd [OF assms] insert_absorb)
qed

lemma cm_inv_step:
  assumes "cm_inv cm" "cm_subs cm' = (cm_subs cm)(c := S)"
    and "om_ok (cm_states cm')" "om_ok (cm_clients cm')"
    and "\<And>d s. map_of (cm_clients cm') d = Some s \<Longrightarrow> os_ok s"
    and "\<And>t. cnt (cm_states cm') t = cnt (cm_states cm) t +
      (if t \<in> S - cm_subs cm c then 1 else 0) - (if t \<in> cm_subs cm c - S then 1 else 0)"
  shows "cm_inv cm'"
  unfolding cm_inv_def using assms card_holders_upd [OF assms(2)] by (auto simp: cm_inv_cnt)

lemma cm_subs_start:
  "cm_subs (cm_start_capture c ts cm) = (cm_subs cm)(c := cm_subs cm c \<union> set ts)"
  by (auto simp: fun_eq_iff cm_subs_def cm_start_capture_def Let_def start_loop
      split: option.splits)

lemma frc_start [simp]: "frc (cm_states (cm_start_capture c ts cm)) = frc (cm_states cm)"
  by (simp add: fun_eq_iff cm_start_capture_def Let_def start_loop)

lemma cm_inv_start [intro]:
  assumes "cm_inv cm"
  shows "cm_inv (cm_start_capture c ts cm)"
proof (rule cm_inv_step [OF assms cm_subs_start])
  define subs where "subs = (case map_of (cm_clients cm) c of None \<Rightarrow> [] | Some s \<Rightarrow> s)"
  have s: "set subs = cm_subs cm c" "os_ok subs"
    using assms by (auto simp: subs_def cm_subs_def cm_inv_def split: option.splits)
  have e: "cm_start_capture c ts cm =
      cm\<lparr>cm_states := snd (fold start_one ts (subs, cm_states cm)),
         cm_clients := om_upd c (fst (fold start_one ts (subs, cm_states cm))) (cm_clients cm)\<rparr>"
    by (simp add: cm_start_capture_def subs_def Let_def)
  have ok: "os_ok (fst (fold start_one ts (subs, cm_states cm)))"
    "om_ok (snd (fold start_one ts (subs, cm_states cm)))"
    using start_loop_ok [of "(subs, cm_states cm)" ts] s(2) assms by (simp_all add: cm_inv_def)
  show "om_ok (cm_states (cm_start_capture c ts cm))" "om_ok (cm_clients (cm_start_capture c ts cm))"
    using ok assms by (auto simp: e cm_inv_def)
  show "os_ok s'" if "map_of (cm_clients (cm_start_capture c ts cm)) d = Some s'" for d s'
    using that ok assms by (auto simp: e cm_inv_def split: if_splits)
  show "cnt (cm_states (cm_start_capture c ts cm)) t = cnt (cm_states cm) t +
      (if t \<in> cm_subs cm c \<union> set ts - cm_subs cm c then 1 else 0) -
      (if t \<in> cm_subs cm c - (cm_subs cm c \<union> set ts) then 1 else 0)" for t
    by (auto simp: e start_loop s(1))
qed

lemma stop_loop_inv:
  assumes "cm_inv cm" "map_of (cm_clients cm) c = Some subs"
  shows "\<forall>t \<in> set subs. 0 < cnt (cm_states cm) t"
  using assms cm_inv_pos [OF assms(1)] by (auto simp: cm_subs_def split: option.splits)

lemma cm_stop_unknown: "map_of (cm_clients cm) c = None \<Longrightarrow> cm_stop_capture c ts cm = cm"
  by (simp add: cm_stop_capture_def)

lemma cm_stop_known:
  "map_of (cm_clients cm) c = Some subs \<Longrightarrow> cm_stop_capture c ts cm =
     cm\<lparr>cm_states := snd (fold stop_one ts (subs, cm_states cm)),
        cm_clients := om_upd c (fst (fold stop_one ts (subs, cm_states cm))) (cm_clients cm)\<rparr>"
  by (simp add: cm_stop_capture_def Let_def)

lemma cm_subs_stop:
  assumes "cm_inv cm"
  shows "cm_subs (cm_stop_capture c ts cm) = (cm_subs cm)(c := cm_subs cm c - set ts)"
proof (cases "map_of (cm_clients cm) c")
  case None
  then show ?thesis by (auto simp: cm_stop_unknown cm_subs_def fun_eq_iff)
next
  case (Some subs)
  with stop_loop [of "(subs, cm_states cm)" ts] stop_loop_inv [OF assms Some] show ?thesis
    by (auto simp: cm_stop_known cm_subs_def fun_eq_iff)
qed

lemma frc_stop [simp]:
  assumes "cm_inv cm"
  shows "frc (cm_states (cm_stop_capture c ts cm)) = frc (cm_states cm)"
proof (cases "map_of (cm_clients cm) c")
  case (Some subs)
  with stop_loop [of "(subs, cm_states cm)" ts] stop_loop_inv [OF assms Some] show ?thesis
    by (simp add: cm_stop_known fun_eq_iff)
qed (simp add: cm_stop_unknown)

lemma cm_inv_stop [intro]:
  assumes "cm_inv cm"
  shows "cm_inv (cm_stop_capture c ts cm)"
proof (cases "map_of (cm_clients cm) c")
  case None
  with assms show ?thesis by (simp add: cm_stop_unknown)
next
  case (Some subs)
  let ?r = "fold stop_one ts (subs, cm_states cm)"
  have s: "set subs = cm_subs cm c" "os_ok subs"
    using assms Some by (auto simp: cm_subs_def cm_inv_def)
  have ok: "os_ok (fst ?r)" "om_ok (snd ?r)"
    using stop_loop_ok [of "(subs, cm_states cm)" ts] s(2) assms by (simp_all add: cm_inv_def)
  have l: "cnt (snd ?r) t = cnt (cm_states cm) t - (if t \<in> set ts \<inter> set subs then 1 else 0)" for t
    using stop_loop [of "(subs, cm_states cm)" ts t] stop_loop_inv [OF assms Some] by simp
  show ?thesis
  proof (rule cm_inv_step [OF assms cm_subs_stop [OF assms]])
    show "om_ok (cm_states (cm_stop_capture c ts cm))" "om_ok (cm_clients (cm_stop_capture c ts cm))"
      using ok assms by (auto simp: cm_stop_known [OF Some] cm_inv_def)
    show "os_ok s'" if "map_of (cm_clients (cm_stop_capture c ts cm)) d = Some s'" for d s'
      using that ok assms by (auto simp: cm_stop_known [OF Some] cm_inv_def split: if_splits)
    show "cnt (cm_states (cm_stop_capture c ts cm)) t = cnt (cm_states cm) t +
        (if t \<in> cm_subs cm c - set ts - cm_subs cm c then 1 else 0) -
        (if t \<in> cm_subs cm c - (cm_subs cm c - set ts) then 1 else 0)" for t
      by (auto simp: cm_stop_known [OF Some] l s(1))
  qed
qed

lemma cm_leave_known:
  "map_of (cm_clients cm) c = Some subs \<Longrightarrow> snd (disconnect_client c cm) =
     cm\<lparr>cm_states := fold release_one subs (cm_states cm), cm_clients := om_del c (cm_clients cm)\<rparr>"
  by (simp add: disconnect_client_def)

lemma cm_leave_unknown: "map_of (cm_clients cm) c = None \<Longrightarrow> snd (disconnect_client c cm) = cm"
  by (simp add: disconnect_client_def)

lemma disconnect_client_result: "fst (disconnect_client c cm) \<longleftrightarrow> map_of (cm_clients cm) c \<noteq> None"
  by (simp add: disconnect_client_def split: option.splits)

lemma cm_subs_leave: "cm_subs (snd (disconnect_client c cm)) = (cm_subs cm)(c := {})"
  by (cases "map_of (cm_clients cm) c")
    (auto simp: cm_leave_known cm_leave_unknown cm_subs_def fun_eq_iff)

lemma release_loop_inv:
  assumes "cm_inv cm" "map_of (cm_clients cm) c = Some subs"
  shows "cnt (fold release_one subs (cm_states cm)) t =
      cnt (cm_states cm) t - (if t \<in> set subs then 1 else 0) \<and>
    frc (fold release_one subs (cm_states cm)) t = frc (cm_states cm) t"
proof (rule release_loop [OF stop_loop_inv [OF assms]])
  show "distinct subs" using assms by (auto simp: cm_inv_def os_ok_iff)
qed

lemma frc_leave [simp]:
  assumes "cm_inv cm"
  shows "frc (cm_states (snd (disconnect_client c cm))) = frc (cm_states cm)"
  using release_loop_inv [OF assms]
  by (cases "map_of (cm_clients cm) c") (auto simp: cm_leave_known cm_leave_unknown fun_eq_iff)

lemma cm_inv_leave [intro]:
  assumes "cm_inv cm"
  shows "cm_inv (snd (disconnect_client c cm))"
proof (cases "map_of (cm_clients cm) c")
  case None
  with assms show ?thesis by (simp add: cm_leave_unknown)
next
  case (Some subs)
  have s: "set subs = cm_subs cm c" using Some by (simp add: cm_subs_def)
  show ?thesis
  proof (rule cm_inv_step [OF assms cm_subs_leave])
    show "om_ok (cm_states (snd (disconnect_client c cm)))"
      "om_ok (cm_clients (snd (disconnect_client c cm)))"
      using assms by (auto simp: cm_leave_known [OF Some] cm_inv_def release_loop_ok)
    show "os_ok s'" if "map_of (cm_clients (snd (disconnect_client c cm))) d = Some s'" for d s'
      using that assms by (auto simp: cm_leave_known [OF Some] cm_inv_def split: if_splits)
    show "cnt (cm_states (snd (disconnect_client c cm))) t = cnt (cm_states cm) t +
        (if t \<in> {} - cm_subs cm c then 1 else 0) - (if t \<in> cm_subs cm c - {} then 1 else 0)" for t
      using release_loop_inv [OF assms Some, of t] by (simp add: cm_leave_known [OF Some] s)
  qed
qed

lemma force_one:
  "cnt (cm_states (snd (activate_channel t cm))) = cnt (cm_states cm)"
  "cnt (cm_states (snd (deactivate_channel t cm))) = cnt (cm_states cm)"
  "frc (cm_states (snd (activate_channel t cm))) = (frc (cm_states cm))(t := True)"
  "frc (cm_states (snd (deactivate_channel t cm))) = (frc (cm_states cm))(t := False)"
  "cm_subs (snd (activate_channel t cm)) = cm_subs cm"
  "cm_subs (snd (deactivate_channel t cm)) = cm_subs cm"
  "cm_clients (snd (activate_channel t cm)) = cm_clients cm"
  "cm_clients (snd (deactivate_channel t cm)) = cm_clients cm"
  "fst (activate_channel t cm) \<longleftrightarrow> \<not> frc (cm_states cm) t"
  "fst (deactivate_channel t cm) \<longleftrightarrow> frc (cm_states cm) t"
  by (auto simp: activate_channel_def deactivate_channel_def cnt_def frc_def cm_subs_def Let_def
      fun_eq_iff)

lemma cm_inv_force [intro]:
  assumes "cm_inv cm"
  shows "cm_inv (snd (activate_channel t cm))" "cm_inv (snd (deactivate_channel t cm))"
  using assms
  by (auto simp: cm_inv_def force_one holders_def) (auto simp: activate_channel_def
      deactivate_channel_def Let_def)

section \<open>The queries\<close>

lemma is_active_iff:
  "cm_inv cm \<Longrightarrow> is_active cm t \<longleftrightarrow> (\<exists>c. t \<in> cm_subs cm c) \<or> frc (cm_states cm) t"
  using cm_inv_pos [of cm t]
  by (auto simp: is_active_def cnt_def frc_def state_at_def chan_default_def split: option.splits)

lemma subscriber_count_eq:
  "cm_inv cm \<Longrightarrow> subscriber_count cm t = int (card (holders cm t))"
  by (simp add: subscriber_count_def cm_inv_cnt [symmetric] cnt_def state_at_def chan_default_def
      split: option.splits)

lemma group_active_iff:
  "group_active cm g \<longleftrightarrow> (\<exists>t. data_type_to_group t = g \<and> is_active cm t)"
  by (auto simp: group_active_def list_ex_iff group_members_iff)

lemma last_subscriber_left_iff: "last_subscriber_left cm g \<longleftrightarrow> \<not> group_active cm g"
  by (auto simp: last_subscriber_left_def group_active_def list_ex_iff list_all_iff)

lemma set_active_types: "set (active_types cm) = {t. is_active cm t}"
  by (auto simp: active_types_def)

lemma om_ok_state_at:
  "om_ok sts \<Longrightarrow> (t, s) \<in> set sts \<Longrightarrow> state_at sts t = s"
  by (simp add: om_ok_mem_iff state_at_def)

lemma set_forced_types: "cm_inv cm \<Longrightarrow> set (forced_types cm) = {t. frc (cm_states cm) t}"
proof -
  assume "cm_inv cm"
  then have ok: "om_ok (cm_states cm)" by (simp add: cm_inv_def)
  have "t \<in> set (forced_types cm) \<longleftrightarrow>
      (\<exists>s. map_of (cm_states cm) t = Some s \<and> force_active s)" for t
    by (force simp: forced_types_def simp flip: om_ok_mem_iff [OF ok])
  then show ?thesis
    by (auto simp: frc_def state_at_def chan_default_def split: option.splits)
qed

lemma any_subscriber_iff: "cm_inv cm \<Longrightarrow> any_subscriber cm \<longleftrightarrow> (\<exists>c t. t \<in> cm_subs cm c)"
proof -
  assume inv: "cm_inv cm"
  then have ok: "om_ok (cm_states cm)" by (simp add: cm_inv_def)
  have "any_subscriber cm \<longleftrightarrow>
      (\<exists>t s. map_of (cm_states cm) t = Some s \<and> 0 < subscriber_count_of s)"
    by (force simp: any_subscriber_def list_ex_iff simp flip: om_ok_mem_iff [OF ok])
  also have "\<dots> \<longleftrightarrow> (\<exists>t. 0 < cnt (cm_states cm) t)"
    by (auto simp: cnt_def state_at_def chan_default_def split: option.splits)
  finally show ?thesis using cm_inv_pos [OF inv] by blast
qed

section \<open>The registry as an interface\<close>

text \<open>
  What the rest of the program relies on: a type is active while some client holds it or it is
  forced, subscriptions of one client do not touch another's, forcing does not touch
  subscriptions.
\<close>

locale subscription_registry =
  fixes join :: "'c \<Rightarrow> 't list \<Rightarrow> 'm \<Rightarrow> 'm"
    and part :: "'c \<Rightarrow> 't list \<Rightarrow> 'm \<Rightarrow> 'm"
    and leave :: "'c \<Rightarrow> 'm \<Rightarrow> 'm"
    and force_on :: "'t \<Rightarrow> 'm \<Rightarrow> 'm"
    and force_off :: "'t \<Rightarrow> 'm \<Rightarrow> 'm"
    and subs :: "'m \<Rightarrow> 'c \<Rightarrow> 't set"
    and forced :: "'m \<Rightarrow> 't \<Rightarrow> bool"
    and active :: "'m \<Rightarrow> 't \<Rightarrow> bool"
    and invar :: "'m \<Rightarrow> bool"
  assumes subs_join: "invar m \<Longrightarrow> subs (join c ts m) = (subs m)(c := subs m c \<union> set ts)"
    and subs_part: "invar m \<Longrightarrow> subs (part c ts m) = (subs m)(c := subs m c - set ts)"
    and subs_leave: "invar m \<Longrightarrow> subs (leave c m) = (subs m)(c := {})"
    and subs_force: "invar m \<Longrightarrow> subs (force_on t m) = subs m \<and> subs (force_off t m) = subs m"
    and forced_join: "invar m \<Longrightarrow> forced (join c ts m) = forced m"
    and forced_part: "invar m \<Longrightarrow> forced (part c ts m) = forced m"
    and forced_leave: "invar m \<Longrightarrow> forced (leave c m) = forced m"
    and forced_on: "invar m \<Longrightarrow> forced (force_on t m) = (forced m)(t := True)"
    and forced_off: "invar m \<Longrightarrow> forced (force_off t m) = (forced m)(t := False)"
    and active_iff: "invar m \<Longrightarrow> active m t \<longleftrightarrow> (\<exists>c. t \<in> subs m c) \<or> forced m t"
    and invar_ops: "invar m \<Longrightarrow> invar (join c ts m) \<and> invar (part c ts m) \<and> invar (leave c m) \<and>
      invar (force_on t m) \<and> invar (force_off t m)"
begin

lemma join_activates: "invar m \<Longrightarrow> t \<in> set ts \<Longrightarrow> active (join c ts m) t"
  using invar_ops [of m c ts] by (auto simp: active_iff subs_join)

lemma join_keeps_active: "invar m \<Longrightarrow> active m t \<Longrightarrow> active (join c ts m) t"
proof -
  assume "invar m" "active m t"
  then have "(\<exists>d. t \<in> subs m d) \<or> forced m t" by (simp add: active_iff)
  then have "(\<exists>d. t \<in> ((subs m)(c := subs m c \<union> set ts)) d) \<or> forced m t" by (metis UnCI fun_upd_apply)
  with \<open>invar m\<close> show ?thesis
    using invar_ops [of m c ts] by (simp add: active_iff subs_join forced_join)
qed

lemma leave_keeps_others:
  "invar m \<Longrightarrow> d \<noteq> c \<Longrightarrow> t \<in> subs m d \<Longrightarrow> active (leave c m) t"
  using invar_ops [of m c "[]"] by (auto simp: active_iff subs_leave intro!: exI [of _ d])

lemma leave_deactivates_sole:
  "invar m \<Longrightarrow> (\<And>d. t \<in> subs m d \<Longrightarrow> d = c) \<Longrightarrow> \<not> forced m t \<Longrightarrow> \<not> active (leave c m) t"
  using invar_ops [of m c "[]"] by (auto simp: active_iff subs_leave forced_leave)

lemma join_leave_inactive:
  "invar m \<Longrightarrow> \<not> active m t \<Longrightarrow> \<not> active (leave c (join c ts m)) t"
  using invar_ops [of m c ts] invar_ops [of "join c ts m" c "[]"]
  by (auto simp: active_iff subs_leave forced_leave subs_join forced_join split: if_splits)

lemma part_all_is_leave:
  assumes "invar m" "subs m c \<subseteq> set ts"
  shows "active (part c ts m) t \<longleftrightarrow> active (leave c m) t"
proof -
  have e: "subs m c - set ts = {}" using assms(2) by blast
  show ?thesis
    using assms(1) invar_ops [of m c ts]
    by (simp add: active_iff subs_leave subs_part forced_leave forced_part e)
qed

lemma force_round_trip:
  "invar m \<Longrightarrow> active (force_off t (force_on t m)) u \<longleftrightarrow> active (force_off t m) u"
  using invar_ops [of m c "[]" t] invar_ops [of "force_on t m" c "[]" t]
  by (auto simp: active_iff subs_force forced_on forced_off)

end

definition cm_leave :: "string \<Rightarrow> channel_manager \<Rightarrow> channel_manager" where
  "cm_leave c cm = snd (disconnect_client c cm)"

definition cm_force :: "data_type \<Rightarrow> channel_manager \<Rightarrow> channel_manager" where
  "cm_force t cm = snd (activate_channel t cm)"

definition cm_unforce :: "data_type \<Rightarrow> channel_manager \<Rightarrow> channel_manager" where
  "cm_unforce t cm = snd (deactivate_channel t cm)"

lemmas cm_ops_defs = cm_leave_def cm_force_def cm_unforce_def

interpretation registry: subscription_registry cm_start_capture cm_stop_capture cm_leave cm_force
  cm_unforce cm_subs "\<lambda>cm. frc (cm_states cm)" is_active cm_inv
  by unfold_locales
    (auto simp: cm_ops_defs cm_subs_start cm_subs_stop cm_subs_leave force_one is_active_iff)

section \<open>The abstract registry\<close>

text \<open>
  The specification: which clients are known, what each holds, which types are forced. Its
  steps are the set operations one would write on paper; a step also says what the call
  returns.
\<close>

record registry_spec =
  sp_known :: "string set"
  sp_subs :: "string \<Rightarrow> data_type set"
  sp_forced :: "data_type set"

datatype cm_op =
    StartCapture string "data_type list"
  | StopCapture string "data_type list"
  | DisconnectClient string
  | ActivateChannel data_type
  | DeactivateChannel data_type

fun sp_step :: "cm_op \<Rightarrow> registry_spec \<Rightarrow> bool option \<times> registry_spec" where
  "sp_step (StartCapture c ts) s =
     (None, s\<lparr>sp_known := insert c (sp_known s),
              sp_subs := (sp_subs s)(c := sp_subs s c \<union> set ts)\<rparr>)"
| "sp_step (StopCapture c ts) s =
     (None, s\<lparr>sp_subs := (sp_subs s)(c := sp_subs s c - set ts)\<rparr>)"
| "sp_step (DisconnectClient c) s =
     (Some (c \<in> sp_known s),
      s\<lparr>sp_known := sp_known s - {c}, sp_subs := (sp_subs s)(c := {})\<rparr>)"
| "sp_step (ActivateChannel t) s =
     (Some (t \<notin> sp_forced s), s\<lparr>sp_forced := insert t (sp_forced s)\<rparr>)"
| "sp_step (DeactivateChannel t) s =
     (Some (t \<in> sp_forced s), s\<lparr>sp_forced := sp_forced s - {t}\<rparr>)"

fun cm_step :: "cm_op \<Rightarrow> channel_manager \<Rightarrow> bool option \<times> channel_manager" where
  "cm_step (StartCapture c ts) cm = (None, cm_start_capture c ts cm)"
| "cm_step (StopCapture c ts) cm = (None, cm_stop_capture c ts cm)"
| "cm_step (DisconnectClient c) cm = map_prod Some id (disconnect_client c cm)"
| "cm_step (ActivateChannel t) cm = map_prod Some id (activate_channel t cm)"
| "cm_step (DeactivateChannel t) cm = map_prod Some id (deactivate_channel t cm)"

text \<open>The states the manager's mutex lets another thread observe.\<close>

inductive cm_reachable :: "channel_manager \<Rightarrow> bool" where
  cm_init: "cm_reachable cm_new"
| cm_next: "cm_reachable cm \<Longrightarrow> cm_reachable (snd (cm_step op cm))"

inductive_cases cm_reachableE: "cm_reachable cm"

definition cm_abs :: "channel_manager \<Rightarrow> registry_spec" where
  "cm_abs cm = \<lparr>sp_known = dom (map_of (cm_clients cm)), sp_subs = cm_subs cm,
                sp_forced = {t. frc (cm_states cm) t}\<rparr>"

definition sp_new :: registry_spec where
  "sp_new = \<lparr>sp_known = {}, sp_subs = (\<lambda>_. {}), sp_forced = {}\<rparr>"

definition sp_active :: "registry_spec \<Rightarrow> data_type \<Rightarrow> bool" where
  "sp_active s t \<longleftrightarrow> t \<in> sp_forced s \<or> (\<exists>c. t \<in> sp_subs s c)"

lemma cm_abs_new: "cm_abs cm_new = sp_new"
  by (simp add: cm_abs_def cm_new_def sp_new_def cm_subs_def frc_def state_at_def chan_default_def
      fun_eq_iff)

lemma cm_step_inv: "cm_inv cm \<Longrightarrow> cm_inv (snd (cm_step op cm))"
  by (cases op) auto

lemma cm_reachable_inv: "cm_reachable cm \<Longrightarrow> cm_inv cm"
  by (induction rule: cm_reachable.induct) (auto simp: cm_step_inv)

lemma cm_step_refines:
  assumes "cm_inv cm"
  shows "map_prod id cm_abs (cm_step op cm) = sp_step op (cm_abs cm)"
proof (cases op)
  case (StartCapture c ts)
  then show ?thesis
    by (simp add: cm_abs_def cm_subs_start) (auto simp: cm_start_capture_def Let_def)
next
  case (StopCapture c ts)
  moreover have "dom (map_of (cm_clients (cm_stop_capture c ts cm))) = dom (map_of (cm_clients cm))"
    by (cases "map_of (cm_clients cm) c") (auto simp: cm_stop_unknown cm_stop_known)
  ultimately show ?thesis using assms by (simp add: cm_abs_def cm_subs_stop)
next
  case (DisconnectClient c)
  moreover have "dom (map_of (cm_clients (snd (disconnect_client c cm)))) =
      dom (map_of (cm_clients cm)) - {c}"
    by (cases "map_of (cm_clients cm) c") (auto simp: cm_leave_unknown cm_leave_known)
  moreover have "c \<in> dom (map_of (cm_clients cm)) \<longleftrightarrow> fst (disconnect_client c cm)"
    by (auto simp: disconnect_client_result)
  ultimately show ?thesis
    using cm_subs_leave [of c cm] frc_leave [OF assms, of c]
    by (cases "disconnect_client c cm") (simp add: cm_abs_def)
next
  case (ActivateChannel t)
  then show ?thesis
    using force_one [of t cm] by (cases "activate_channel t cm") (auto simp: cm_abs_def)
next
  case (DeactivateChannel t)
  then show ?thesis
    using force_one [of t cm] by (cases "deactivate_channel t cm") (auto simp: cm_abs_def)
qed

fun cm_run :: "cm_op list \<Rightarrow> channel_manager \<Rightarrow> bool option list \<times> channel_manager" where
  "cm_run [] cm = ([], cm)"
| "cm_run (op # ops) cm =
     (let r = cm_run ops (snd (cm_step op cm)) in (fst (cm_step op cm) # fst r, snd r))"

fun sp_run :: "cm_op list \<Rightarrow> registry_spec \<Rightarrow> bool option list \<times> registry_spec" where
  "sp_run [] s = ([], s)"
| "sp_run (op # ops) s =
     (let r = sp_run ops (snd (sp_step op s)) in (fst (sp_step op s) # fst r, snd r))"

lemma cm_run_refines: "cm_inv cm \<Longrightarrow> map_prod id cm_abs (cm_run ops cm) = sp_run ops (cm_abs cm)"
proof (induction ops arbitrary: cm)
  case (Cons op ops)
  have "fst (sp_step op (cm_abs cm)) = fst (cm_step op cm)"
    "snd (sp_step op (cm_abs cm)) = cm_abs (snd (cm_step op cm))"
    by (simp_all flip: cm_step_refines [OF Cons.prems])
  with Cons.IH [OF cm_step_inv [OF Cons.prems, of op]] show ?case
    by (simp add: Let_def prod_eq_iff)
qed simp

lemma cm_inv_run: "cm_inv cm \<Longrightarrow> cm_inv (snd (cm_run ops cm))"
  by (induction ops arbitrary: cm) (auto simp: Let_def cm_step_inv)

lemma total_clients_eq: "cm_inv cm \<Longrightarrow> total_clients cm = to_int32 (int (card (dom (map_of (cm_clients cm)))))"
  by (simp add: total_clients_def cm_inv_def dom_map_of_conv_image_fst om_ok_distinct
      distinct_card flip: set_map)

lemma sp_active_abs: "cm_inv cm \<Longrightarrow> is_active cm t \<longleftrightarrow> sp_active (cm_abs cm) t"
  by (auto simp: is_active_iff sp_active_def cm_abs_def)

text \<open>
  C1. The channel manager implements the abstract registry: from the empty manager, whatever
  sequence of start, stop, disconnect, activate and deactivate calls is made, every return
  value is the one the abstract registry gives, and in the state reached every query agrees
  with it: a type is active iff it is forced or held by a client, its counter is the number of
  clients that hold it, the client count is the number of known clients, cast to \<open>int\<close>, and the lists of
  active and forced types have exactly those members.
\<close>

theorem channel_manager_refines_registry:
  "map_prod id cm_abs (cm_run ops cm_new) = sp_run ops sp_new \<and>
   (let cm = snd (cm_run ops cm_new); s = snd (sp_run ops sp_new) in
      (is_active cm t \<longleftrightarrow> sp_active s t) \<and>
      subscriber_count cm t = int (card {c. t \<in> sp_subs s c}) \<and>
      total_clients cm = to_int32 (int (card (sp_known s))) \<and>
      (any_subscriber cm \<longleftrightarrow> (\<exists>c u. u \<in> sp_subs s c)) \<and>
      set (active_types cm) = {u. sp_active s u} \<and>
      set (forced_types cm) = sp_forced s)"
proof -
  have inv: "cm_inv (snd (cm_run ops cm_new))" by (simp add: cm_inv_run)
  have r: "map_prod id cm_abs (cm_run ops cm_new) = sp_run ops sp_new"
    using cm_run_refines [of cm_new ops] by (simp add: cm_abs_new)
  then have s: "snd (sp_run ops sp_new) = cm_abs (snd (cm_run ops cm_new))"
    by (metis snd_map_prod)
  have q: "sp_subs (cm_abs cm) = cm_subs cm" "sp_known (cm_abs cm) = dom (map_of (cm_clients cm))"
    "sp_forced (cm_abs cm) = {t. frc (cm_states cm) t}" for cm
    by (simp_all add: cm_abs_def)
  show ?thesis
    using subscriber_count_eq [OF inv] total_clients_eq [OF inv] any_subscriber_iff [OF inv]
      set_forced_types [OF inv] ext [of "is_active _", OF sp_active_abs [OF inv]]
    by (simp add: r s Let_def q holders_def set_active_types)
qed

text \<open>
  Clean-up: when a client disconnects from a reachable manager, a type is active
  afterwards exactly if it is forced or held by another client; in particular a client that
  starts a capture and disconnects leaves the activity of every type it did not already hold
  as it was, and the published groups follow: a group has lost its last subscriber iff it is
  not active.
\<close>

theorem disconnect_releases_channels:
  assumes "cm_reachable cm"
  shows "(is_active (snd (disconnect_client c cm)) t \<longleftrightarrow>
      frc (cm_states cm) t \<or> (\<exists>d. d \<noteq> c \<and> t \<in> cm_subs cm d)) \<and>
    (\<not> is_active cm t \<longrightarrow>
      \<not> is_active (snd (disconnect_client c (cm_start_capture c ts cm))) t) \<and>
    (fst (disconnect_client c cm) \<longleftrightarrow> map_of (cm_clients cm) c \<noteq> None) \<and>
    \<not> fst (disconnect_client c (snd (disconnect_client c cm))) \<and>
    (last_subscriber_left cm g \<longleftrightarrow>
      (\<forall>u. data_type_to_group u = g \<longrightarrow> \<not> is_active cm u))"
proof -
  have inv: "cm_inv cm" by (rule cm_reachable_inv [OF assms])
  have "is_active (snd (disconnect_client c cm)) t \<longleftrightarrow>
      frc (cm_states cm) t \<or> (\<exists>d. d \<noteq> c \<and> t \<in> cm_subs cm d)"
    using inv cm_inv_leave [OF inv, of c] by (auto simp: is_active_iff cm_subs_leave)
  moreover have "\<not> is_active cm t \<longrightarrow>
      \<not> is_active (snd (disconnect_client c (cm_start_capture c ts cm))) t"
    using registry.join_leave_inactive [OF inv] by (simp add: cm_leave_def)
  moreover have "map_of (cm_clients (snd (disconnect_client c cm))) c = None"
    by (cases "map_of (cm_clients cm) c") (auto simp: cm_leave_known cm_leave_unknown)
  ultimately show ?thesis
    by (auto simp: disconnect_client_result last_subscriber_left_iff group_active_iff)
qed

theorem disconnect_releases_channels_witness:
  "\<not> is_active (snd (disconnect_client ''a'' (cm_start_capture ''a'' [IMU] cm_new))) IMU"
proof -
  have "\<not> is_active cm_new IMU" by (simp add: is_active_def cm_new_def)
  with disconnect_releases_channels [OF cm_init, of "''a''" IMU "[IMU]" Visual2D] show ?thesis by blast
qed

end
