(* ===== verification/Parameters.thy ===== *)
theory Parameters
  imports Prelude
begin

text \<open>
  \<open>include/sim_vision/common/Parameter.h\<close> and \<open>src/common/Parameter.cpp\<close>: typed parameters
  with range and enumeration checks. A \<open>std::variant\<close> is a datatype, a \<open>double\<close> is its
  64-bit pattern with the IEEE 754 comparison written out, an \<open>int64_t\<close> that is only
  compared is an \<open>int\<close>. The locale \<open>guarded_store\<close> is what the command handler and the
  settings loader rely on.
\<close>

section \<open>Doubles: comparison on bit patterns\<close>

definition fp_nan :: "u64 \<Rightarrow> bool" where
  "fp_nan x \<longleftrightarrow> 0x7FF0000000000000 < x AND 0x7FFFFFFFFFFFFFFF"

definition fp_key :: "u64 \<Rightarrow> int" where
  "fp_key x = (if x < 0x8000000000000000 then uint x else - uint (x AND 0x7FFFFFFFFFFFFFFF))"

definition fp_le :: "u64 \<Rightarrow> u64 \<Rightarrow> bool" where
  "fp_le x y \<longleftrightarrow> \<not> fp_nan x \<and> \<not> fp_nan y \<and> fp_key x \<le> fp_key y"

lemma fp_le_trans: "fp_le x y \<Longrightarrow> fp_le y z \<Longrightarrow> fp_le x z"
  by (auto simp: fp_le_def)

lemma fp_le_nan [simp]: "fp_nan x \<Longrightarrow> \<not> fp_le x y" "fp_nan y \<Longrightarrow> \<not> fp_le x y"
  by (simp_all add: fp_le_def)

section \<open>Values and parameters\<close>

datatype param_value = Integer int | Float u64 | Enum string

fun is_Enum :: "param_value \<Rightarrow> bool" where
  "is_Enum (Enum s) = True"
| "is_Enum _ = False"

fun param_variant_type_name :: "param_value \<Rightarrow> string" where
  "param_variant_type_name (Integer n) = ''Integer''"
| "param_variant_type_name (Float d) = ''Float''"
| "param_variant_type_name (Enum s) = ''Enum''"

record parameter =
  p_name :: string
  p_value :: param_value
  p_min :: param_value
  p_max :: param_value
  p_default_value :: param_value
  p_is_readonly :: bool
  p_is_available :: bool
  p_needs_reopen :: bool
  p_enum_options :: "string list"

fun variant_index :: "param_value \<Rightarrow> nat" where
  "variant_index (Integer n) = 0"
| "variant_index (Float d) = 1"
| "variant_index (Enum s) = 2"

definition same_type :: "param_value \<Rightarrow> param_value \<Rightarrow> bool" where
  "same_type a b \<longleftrightarrow> variant_index a = variant_index b"

text \<open>The two instances of the template \<open>in_range\<close>: no check unless both bounds have the type.\<close>

fun in_range_integer :: "int \<Rightarrow> param_value \<Rightarrow> param_value \<Rightarrow> bool" where
  "in_range_integer v (Integer lo) (Integer hi) = (lo \<le> v \<and> v \<le> hi)"
| "in_range_integer v _ _ = True"

fun in_range_float :: "u64 \<Rightarrow> param_value \<Rightarrow> param_value \<Rightarrow> bool" where
  "in_range_float v (Float lo) (Float hi) = (fp_le lo v \<and> fp_le v hi)"
| "in_range_float v _ _ = True"

definition enum_allowed :: "string list \<Rightarrow> string \<Rightarrow> bool" where
  "enum_allowed vals v \<longleftrightarrow> vals = [] \<or> v \<in> set vals"

section \<open>The manager\<close>

text \<open>
  \<open>std::unordered_map\<close> fixes no iteration order: \<open>all\<close> and \<open>names\<close> take the order of the
  keys as an argument, constrained by \<open>enumerates\<close> where a property needs it.
\<close>

type_synonym params = "string \<rightharpoonup> parameter"

definition enumerates :: "string list \<Rightarrow> params \<Rightarrow> bool" where
  "enumerates ks m \<longleftrightarrow> distinct ks \<and> set ks = dom m"

definition register_parameter :: "parameter \<Rightarrow> params \<Rightarrow> params" where
  "register_parameter p m = m(p_name p \<mapsto> p)"

text \<open>The out-parameter \<open>err\<close> keeps its value on success.\<close>

definition set_value ::
    "string \<Rightarrow> param_value \<Rightarrow> string \<Rightarrow> params \<Rightarrow> bool \<times> string \<times> params" where
  "set_value name v err m =
     (case m name of
        None \<Rightarrow> (False, ''unknown parameter: '' @ name, m)
      | Some p \<Rightarrow>
          (if p_is_readonly p then (False, ''parameter is read-only: '' @ name, m)
           else if \<not> same_type (p_value p) v
             then (False, ''type mismatch for parameter: '' @ name, m)
           else
             (case v of
                Integer n \<Rightarrow>
                  (if \<not> in_range_integer n (p_min p) (p_max p)
                   then (False, ''value out of range for parameter: '' @ name, m)
                   else (True, err, m(name \<mapsto> p\<lparr>p_value := v\<rparr>)))
              | Float d \<Rightarrow>
                  (if \<not> in_range_float d (p_min p) (p_max p)
                   then (False, ''value out of range for parameter: '' @ name, m)
                   else (True, err, m(name \<mapsto> p\<lparr>p_value := v\<rparr>)))
              | Enum s \<Rightarrow>
                  (if \<not> enum_allowed (p_enum_options p) s
                   then (False, ''invalid enum value for parameter: '' @ name, m)
                   else (True, err, m(name \<mapsto> p\<lparr>p_value := v\<rparr>))))))"

definition param_get :: "string \<Rightarrow> params \<Rightarrow> parameter option" where
  "param_get name m = m name"

definition param_all :: "string list \<Rightarrow> params \<Rightarrow> parameter list" where
  "param_all ks m = map (\<lambda>k. the (m k)) ks"

definition param_names :: "string list \<Rightarrow> params \<Rightarrow> string list" where
  "param_names ks m = ks"

definition param_has :: "string \<Rightarrow> params \<Rightarrow> bool" where
  "param_has name m \<longleftrightarrow> m name \<noteq> None"

section \<open>When a write is admitted\<close>

definition value_ok :: "parameter \<Rightarrow> param_value \<Rightarrow> bool" where
  "value_ok p v \<longleftrightarrow>
     same_type (p_value p) v \<and>
     (case v of
        Integer n \<Rightarrow> in_range_integer n (p_min p) (p_max p)
      | Float d \<Rightarrow> in_range_float d (p_min p) (p_max p)
      | Enum s \<Rightarrow> enum_allowed (p_enum_options p) s)"

definition admits :: "parameter \<Rightarrow> param_value \<Rightarrow> bool" where
  "admits p v \<longleftrightarrow> \<not> p_is_readonly p \<and> value_ok p v"

definition set_error :: "params \<Rightarrow> string \<Rightarrow> param_value \<Rightarrow> string" where
  "set_error m name v =
     (case m name of
        None \<Rightarrow> ''unknown parameter: ''
      | Some p \<Rightarrow>
          (if p_is_readonly p then ''parameter is read-only: ''
           else if \<not> same_type (p_value p) v then ''type mismatch for parameter: ''
           else if is_Enum v then ''invalid enum value for parameter: ''
           else ''value out of range for parameter: '')) @ name"

lemma set_value_cases:
  "set_value name v err m =
    (case m name of
       Some p \<Rightarrow> (if admits p v then (True, err, m(name \<mapsto> p\<lparr>p_value := v\<rparr>))
                  else (False, set_error m name v, m))
     | None \<Rightarrow> (False, set_error m name v, m))"
  by (cases v) (auto simp: set_value_def admits_def value_ok_def set_error_def split: option.splits)

lemma value_ok_write: "value_ok p v \<Longrightarrow> value_ok (p\<lparr>p_value := v\<rparr>) w \<longleftrightarrow> value_ok p w"
  by (cases w) (auto simp: value_ok_def same_type_def)

lemma variant_type_name_index:
  "param_variant_type_name v = param_variant_type_name w \<longleftrightarrow> variant_index v = variant_index w"
  by (cases v; cases w) simp_all

section \<open>The guarded store\<close>

text \<open>
  A store whose entries admit or refuse a value: a refused write changes nothing, an admitted
  write changes its own entry only.
\<close>

locale guarded_store =
  fixes lookup :: "'s \<Rightarrow> 'k \<Rightarrow> 'p option"
    and put :: "'k \<Rightarrow> 'v \<Rightarrow> 's \<Rightarrow> bool \<times> 's"
    and adm :: "'p \<Rightarrow> 'v \<Rightarrow> bool"
    and assign :: "'v \<Rightarrow> 'p \<Rightarrow> 'p"
  assumes write_ok: "fst (put k v s) \<longleftrightarrow> (\<exists>p. lookup s k = Some p \<and> adm p v)"
    and write_lookup: "lookup (snd (put k v s)) =
      (if fst (put k v s) then (lookup s)(k := map_option (assign v) (lookup s k)) else lookup s)"
begin

definition writes :: "('k \<times> 'v) list \<Rightarrow> 's \<Rightarrow> 's" where
  "writes kvs s = fold (\<lambda>kv s. snd (put (fst kv) (snd kv) s)) kvs s"

lemma write_other: "k \<noteq> j \<Longrightarrow> lookup (snd (put k v s)) j = lookup s j"
  by (simp add: write_lookup)

lemma writes_dom: "lookup (writes kvs s) k = None \<longleftrightarrow> lookup s k = None"
proof (induction kvs arbitrary: s)
  case (Cons kv kvs)
  have "lookup (writes (kv # kvs) s) k = lookup (writes kvs (snd (put (fst kv) (snd kv) s))) k"
    by (simp add: writes_def)
  with Cons.IH show ?case by (auto simp: write_lookup)
qed (simp add: writes_def)

text \<open>A relation that every admitted assignment extends relates each entry to its first state.\<close>

lemma writes_rel:
  assumes refl: "\<And>p. R p p"
    and step: "\<And>p q v. R p q \<Longrightarrow> adm q v \<Longrightarrow> R p (assign v q)"
    and s: "lookup s k = Some p"
  shows "\<exists>q. lookup (writes kvs s) k = Some q \<and> R p q"
proof -
  have "\<exists>q'. lookup (writes kvs s) k = Some q' \<and> R p q'" if "lookup s k = Some q" "R p q" for s q
    using that
  proof (induction kvs arbitrary: s q)
    case (Cons kv kvs)
    obtain j v where kv: "kv = (j, v)" by (cases kv)
    have w: "writes (kv # kvs) s = writes kvs (snd (put j v s))"
      by (simp add: writes_def kv)
    have "\<exists>q'. lookup (snd (put j v s)) k = Some q' \<and> R p q'"
      using Cons.prems step by (auto simp: write_lookup write_ok)
    then show ?case using Cons.IH by (auto simp: w)
  qed (simp add: writes_def)
  from this [OF s refl] show ?thesis .
qed

end

definition param_write :: "string \<Rightarrow> param_value \<Rightarrow> params \<Rightarrow> bool \<times> params" where
  "param_write name v m = (let r = set_value name v [] m in (fst r, snd (snd r)))"

lemma param_write_eq:
  "fst (set_value name v err m) = fst (param_write name v m)"
  "snd (snd (set_value name v err m)) = snd (param_write name v m)"
  by (auto simp: param_write_def set_value_cases Let_def split: option.splits)

interpretation pstore: guarded_store "\<lambda>m. m" param_write admits "\<lambda>v p. p\<lparr>p_value := v\<rparr>"
  by unfold_locales
    (auto simp: param_write_def set_value_cases Let_def fun_eq_iff split: option.splits)

section \<open>Histories\<close>

datatype param_op = Register parameter | SetValue string param_value

fun param_step :: "param_op \<Rightarrow> params \<Rightarrow> params" where
  "param_step (Register p) m = register_parameter p m"
| "param_step (SetValue k v) m = snd (snd (set_value k v [] m))"

inductive param_reachable :: "params \<Rightarrow> bool" where
  param_init: "param_reachable Map.empty"
| param_register: "param_reachable m \<Longrightarrow> value_ok p (p_value p) \<Longrightarrow>
    param_reachable (register_parameter p m)"
| param_set: "param_reachable m \<Longrightarrow> param_reachable (snd (snd (set_value k v err m)))"

inductive_cases param_reachableE: "param_reachable m"

definition params_ok :: "params \<Rightarrow> bool" where
  "params_ok m \<longleftrightarrow> (\<forall>k p. m k = Some p \<longrightarrow> p_name p = k \<and> value_ok p (p_value p))"

lemma params_ok_set:
  assumes "params_ok m"
  shows "params_ok (snd (snd (set_value k v err m)))"
proof -
  have "value_ok (p\<lparr>p_value := v\<rparr>) v" if "admits p v" for p
    using that by (simp add: admits_def value_ok_write)
  with assms show ?thesis
    by (auto simp: params_ok_def set_value_cases split: option.splits if_splits)
qed

lemma param_reachable_ok: "param_reachable m \<Longrightarrow> params_ok m"
proof (induction rule: param_reachable.induct)
  case (param_set m k v err)
  then show ?case by (simp add: params_ok_set)
qed (auto simp: params_ok_def register_parameter_def)



definition fixed_part :: "parameter \<Rightarrow> parameter \<Rightarrow> bool" where
  "fixed_part p q \<longleftrightarrow> q = p\<lparr>p_value := p_value q\<rparr> \<and> same_type (p_value p) (p_value q) \<and>
     (p_is_readonly p \<longrightarrow> p_value q = p_value p)"

lemma fixed_part_put:
  assumes "fixed_part p q" "admits q v"
  shows "fixed_part p (q\<lparr>p_value := v\<rparr>)"
proof -
  have "same_type (p_value q) v" "\<not> p_is_readonly q"
    using assms(2) by (auto simp: admits_def value_ok_def)
  with assms(1) show ?thesis by (cases p; cases q) (auto simp: fixed_part_def same_type_def)
qed

lemma value_ok_put: "admits q v \<Longrightarrow> value_ok (q\<lparr>p_value := v\<rparr>) v"
  by (simp add: admits_def value_ok_write)

text \<open>
  C38. Whatever sequence of \<open>set_value\<close> calls follows, a registered parameter stays
  registered, keeps its bounds, options, flags, default and the type of its value, and a
  read-only parameter keeps its value; in every reachable table each value satisfies the
  range or enumeration check of its parameter, so a ranged \<open>double\<close> is never a NaN.
\<close>

theorem parameter_history_safe:
  assumes "param_reachable m" "m k = Some p"
  shows "(\<exists>q. fold (\<lambda>kv m. snd (snd (set_value (fst kv) (snd kv) err m))) kvs m k = Some q \<and>
      fixed_part p q \<and> value_ok q (p_value q)) \<and>
    (\<forall>d lo hi. p_value p = Float d \<and> p_min p = Float lo \<and> p_max p = Float hi \<longrightarrow>
       \<not> fp_nan d \<and> fp_key lo \<le> fp_key d \<and> fp_key d \<le> fp_key hi)"
proof -
  have w: "fold (\<lambda>kv m. snd (snd (set_value (fst kv) (snd kv) err m))) kvs = pstore.writes kvs"
    by (simp add: fun_eq_iff pstore.writes_def param_write_eq)
  have "value_ok p (p_value p)"
    using param_reachable_ok [OF assms(1)] assms(2) by (simp add: params_ok_def)
  moreover have "\<exists>q. pstore.writes kvs m k = Some q \<and>
      (value_ok p (p_value p) \<longrightarrow> fixed_part p q \<and> value_ok q (p_value q))"
  proof (rule pstore.writes_rel [where s = m and k = k
        and R = "\<lambda>p q. value_ok p (p_value p) \<longrightarrow> fixed_part p q \<and> value_ok q (p_value q)"])
    fix q r v
    assume "value_ok q (p_value q) \<longrightarrow> fixed_part q r \<and> value_ok r (p_value r)" "admits r v"
    then show "value_ok q (p_value q) \<longrightarrow>
        fixed_part q (r\<lparr>p_value := v\<rparr>) \<and> value_ok (r\<lparr>p_value := v\<rparr>) (p_value (r\<lparr>p_value := v\<rparr>))"
      by (simp add: fixed_part_put value_ok_put)
  qed (auto simp: fixed_part_def same_type_def assms(2))
  ultimately show ?thesis
    by (auto simp: w value_ok_def fp_le_def)
qed

text \<open>A table for the witnesses.\<close>

definition exposure :: parameter where
  "exposure = \<lparr>p_name = ''exposure_us'', p_value = Integer 5000, p_min = Integer 100,
     p_max = Integer 100000, p_default_value = Integer 5000, p_is_readonly = False,
     p_is_available = True, p_needs_reopen = False, p_enum_options = []\<rparr>"

lemma exposure_reachable: "param_reachable (register_parameter exposure Map.empty)"
  by (rule param_register [OF param_init]) (simp add: exposure_def value_ok_def same_type_def)

theorem parameter_history_safe_witness:
  "\<exists>q. snd (snd (set_value ''exposure_us'' (Integer 700) []
       (register_parameter exposure Map.empty))) ''exposure_us'' = Some q \<and> fixed_part exposure q"
proof -
  have "register_parameter exposure Map.empty ''exposure_us'' = Some exposure"
    by (simp add: register_parameter_def exposure_def)
  from parameter_history_safe [OF exposure_reachable this, of "[]" "[(''exposure_us'', Integer 700)]"]
  show ?thesis by (auto simp del: fun_upd_apply)
qed

end
