(* ===== verification/Pipeline.thy ===== *)
theory Pipeline
  imports SPSCQueue
begin

text \<open>
  \<open>include/sim_vision/data/DataPipeline.h\<close> and \<open>src/data/DataPipeline.cpp\<close>: one bounded
  queue per data group and a flag, set under the mutex by the producer, on which the consumer
  waits. The first part runs whole calls; the last section interleaves the single steps of
  a producer and a consumer, to show that no wake-up is lost.
\<close>

section \<open>State and operations\<close>

record data_pipeline =
  dp_2d :: "channel_frame spsc"
  dp_3d :: "channel_frame spsc"
  dp_sensor :: "channel_frame spsc"
  dp_notified :: bool

definition pipeline_new :: "u64 \<Rightarrow> data_pipeline result" where
  "pipeline_new queue_capacity =
     rbind (queue_new queue_capacity) (\<lambda>a.
     rbind (queue_new queue_capacity) (\<lambda>b.
     rbind (queue_new queue_capacity) (\<lambda>c.
       Inr \<lparr>dp_2d = a, dp_3d = b, dp_sensor = c, dp_notified = False\<rparr>)))"

fun dp_queue :: "data_group \<Rightarrow> data_pipeline \<Rightarrow> channel_frame spsc" where
  "dp_queue Visual2D dp = dp_2d dp"
| "dp_queue Visual3D dp = dp_3d dp"
| "dp_queue SensorData dp = dp_sensor dp"

fun dp_set_queue :: "data_group \<Rightarrow> channel_frame spsc \<Rightarrow> data_pipeline \<Rightarrow> data_pipeline" where
  "dp_set_queue Visual2D q dp = dp\<lparr>dp_2d := q\<rparr>"
| "dp_set_queue Visual3D q dp = dp\<lparr>dp_3d := q\<rparr>"
| "dp_set_queue SensorData q dp = dp\<lparr>dp_sensor := q\<rparr>"

text \<open>\<open>push\<close> raises the flag whether or not the queue had room.\<close>

definition dp_push :: "data_group \<Rightarrow> frame_ptr \<Rightarrow> data_pipeline \<Rightarrow> bool \<times> data_pipeline" where
  "dp_push g frame dp =
     (let r = try_push frame (dp_queue g dp)
      in (fst r, (dp_set_queue g (snd r) dp)\<lparr>dp_notified := True\<rparr>))"

text \<open>The three loops of \<open>pop_all\<close>, one after the other.\<close>

definition pop_queues :: "data_pipeline \<Rightarrow> frame_ptr list \<times> data_pipeline" where
  "pop_queues dp =
     (let r2 = pop_loop (dp_2d dp); r3 = pop_loop (dp_3d dp); rs = pop_loop (dp_sensor dp)
      in (fst r2 @ fst r3 @ fst rs,
          dp\<lparr>dp_2d := snd r2, dp_3d := snd r3, dp_sensor := snd rs\<rparr>))"

text \<open>
  \<open>arrivals\<close> are the pushes the producer makes between the first loops and the moment the flag
  is cleared, that is, during the wait; the time-out bounds only how long that is. The
  functions return \<open>out\<close>, the return value, and the pipeline.
\<close>

definition pop_all ::
    "(data_group \<times> frame_ptr) list \<Rightarrow> data_pipeline \<Rightarrow> frame_ptr list \<times> bool \<times> data_pipeline" where
  "pop_all arrivals dp =
     (let r1 = pop_queues dp
      in if fst r1 \<noteq> [] then (fst r1, True, snd r1)
         else
           (let dp1 = fold (\<lambda>gf d. snd (dp_push (fst gf) (snd gf) d)) arrivals (snd r1);
                r2 = pop_queues (dp1\<lparr>dp_notified := False\<rparr>)
            in (fst r2, fst r2 \<noteq> [], snd r2)))"

definition drain_group :: "data_group \<Rightarrow> data_pipeline \<Rightarrow> data_pipeline" where
  "drain_group g dp = dp_set_queue g (snd (pop_loop (dp_queue g dp))) dp"

definition dp_drain :: "data_pipeline \<Rightarrow> data_pipeline" where
  "dp_drain dp = drain_group SensorData (drain_group Visual3D (drain_group Visual2D dp))"

record pipeline_stats =
  pushed_2d :: u64
  pushed_3d :: u64
  pushed_sensor :: u64
  dropped_2d :: u64
  dropped_3d :: u64
  dropped_sensor :: u64
  queue_2d :: u64
  queue_3d :: u64
  queue_sensor :: u64

definition dp_stats :: "data_pipeline \<Rightarrow> pipeline_stats" where
  "dp_stats dp =
     \<lparr>pushed_2d = total_pushed (dp_2d dp), pushed_3d = total_pushed (dp_3d dp),
      pushed_sensor = total_pushed (dp_sensor dp),
      dropped_2d = total_dropped (dp_2d dp), dropped_3d = total_dropped (dp_3d dp),
      dropped_sensor = total_dropped (dp_sensor dp),
      queue_2d = q_size (dp_2d dp), queue_3d = q_size (dp_3d dp), queue_sensor = q_size (dp_sensor dp)\<rparr>"

definition dp_capacity :: "data_pipeline \<Rightarrow> u64" where
  "dp_capacity dp = q_capacity (dp_2d dp)"

section \<open>Contents of the pipeline\<close>

definition dp_items :: "data_pipeline \<Rightarrow> data_group \<Rightarrow> frame_ptr list" where
  "dp_items dp g = q_items (dp_queue g dp)"

definition dp_at :: "nat \<Rightarrow> data_pipeline \<Rightarrow> bool" where
  "dp_at n dp \<longleftrightarrow> (\<forall>g. q_at n (dp_queue g dp))"

lemma dp_queue_set [simp]:
  "dp_queue h (dp_set_queue g q dp) = (if h = g then q else dp_queue h dp)"
  by (cases g; cases h) simp_all

lemma dp_queue_notified [simp]: "dp_queue g (dp\<lparr>dp_notified := b\<rparr>) = dp_queue g dp"
  by (cases g) simp_all

lemma dp_items_notified [simp]: "dp_items (dp\<lparr>dp_notified := b\<rparr>) = dp_items dp"
  by (simp add: dp_items_def fun_eq_iff)

lemma dp_at_notified [simp]: "dp_at n (dp\<lparr>dp_notified := b\<rparr>) \<longleftrightarrow> dp_at n dp"
  by (simp add: dp_at_def)

lemma dp_at_invar: "dp_at n dp \<Longrightarrow> q_invar (dp_queue g dp)"
  by (simp add: dp_at_def q_at_def)

lemma dp_at_invars:
  "dp_at n dp \<Longrightarrow> q_invar (dp_2d dp) \<and> q_invar (dp_3d dp) \<and> q_invar (dp_sensor dp)"
  using dp_at_invar [of n dp Visual2D] dp_at_invar [of n dp Visual3D] dp_at_invar [of n dp SensorData]
  by simp

lemma all_groups: "(\<forall>g. P g) \<longleftrightarrow> P Visual2D \<and> P Visual3D \<and> P SensorData"
  by (metis data_group.exhaust)

lemma dp_push_spec:
  assumes "dp_at n dp" "n < 2 ^ 64"
  shows "dp_items (snd (dp_push g f dp)) =
      (dp_items dp)(g := dp_items dp g @ (if fst (dp_push g f dp) then [f] else []))"
    and "fst (dp_push g f dp) \<longleftrightarrow> length (dp_items dp g) < q_cap (dp_queue g dp)"
    and "dp_at (Suc n) (snd (dp_push g f dp))"
    and "q_cap (dp_queue h (snd (dp_push g f dp))) = q_cap (dp_queue h dp)"
proof -
  have at: "q_at n (dp_queue g dp)" using assms(1) by (simp add: dp_at_def)
  have p: "q_items (snd (try_push f (dp_queue g dp))) =
        q_items (dp_queue g dp) @ (if fst (try_push f (dp_queue g dp)) then [f] else [])"
    "fst (try_push f (dp_queue g dp)) \<longleftrightarrow> length (dp_items dp g) < q_cap (dp_queue g dp)"
    using ring.push_items [OF dp_at_invar [OF assms(1)] q_at_room [OF at assms(2)]]
    by (simp_all add: dp_items_def)
  show "dp_items (snd (dp_push g f dp)) =
      (dp_items dp)(g := dp_items dp g @ (if fst (dp_push g f dp) then [f] else []))"
    using p(1) by (auto simp: dp_push_def Let_def dp_items_def fun_eq_iff)
  show "fst (dp_push g f dp) \<longleftrightarrow> length (dp_items dp g) < q_cap (dp_queue g dp)"
    using p(2) by (simp add: dp_push_def Let_def)
  show "dp_at (Suc n) (snd (dp_push g f dp))"
    using assms q_at_push [OF at assms(2)] q_at_mono [of n _ "Suc n"]
    by (auto simp: dp_push_def Let_def dp_at_def)
  show "q_cap (dp_queue h (snd (dp_push g f dp))) = q_cap (dp_queue h dp)"
    by (simp add: dp_push_def Let_def q_cap_push)
qed

lemma pop_queues_spec:
  assumes "dp_at n dp"
  shows "fst (pop_queues dp) = dp_items dp Visual2D @ dp_items dp Visual3D @ dp_items dp SensorData"
    and "dp_items (snd (pop_queues dp)) = (\<lambda>_. [])"
    and "dp_at n (snd (pop_queues dp))"
proof -
  have i: "q_invar (dp_2d dp)" "q_invar (dp_3d dp)" "q_invar (dp_sensor dp)"
    using dp_at_invars [OF assms] by simp_all
  note d = ring.drain_items [OF i(1)] ring.drain_items [OF i(2)] ring.drain_items [OF i(3)]
  show "fst (pop_queues dp) = dp_items dp Visual2D @ dp_items dp Visual3D @ dp_items dp SensorData"
    using d by (simp add: pop_queues_def Let_def dp_items_def)
  show "dp_items (snd (pop_queues dp)) = (\<lambda>_. [])"
    using d by (simp add: pop_queues_def Let_def dp_items_def fun_eq_iff all_groups)
  show "dp_at n (snd (pop_queues dp))"
    using assms by (simp add: pop_queues_def Let_def dp_at_def all_groups q_at_loop)
qed

section \<open>Runs of whole calls\<close>

text \<open>
  A run records which frames were accepted and what \<open>pop_all\<close> delivered. The capture engine
  pushes non-null frames into the queue of their own group.
\<close>

definition push_trace ::
    "(data_group \<times> channel_frame) list \<Rightarrow> data_pipeline \<Rightarrow> channel_frame list \<times> data_pipeline" where
  "push_trace ps dp =
     fold (\<lambda>(g, f) (acc, d).
        (let r = dp_push g (Some f) d in (if fst r then acc @ [f] else acc, snd r))) ps ([], dp)"

datatype dp_op =
    DPush data_group channel_frame
  | DPopAll "(data_group \<times> channel_frame) list"

fun op_pushes :: "dp_op \<Rightarrow> (data_group \<times> channel_frame) list" where
  "op_pushes (DPush g f) = [(g, f)]"
| "op_pushes (DPopAll arrivals) = arrivals"

text \<open>
  The pushes an operation performs: a \<open>pop_all\<close> that finds a frame at once returns without
  waiting, so nothing arrives during it.
\<close>

fun dp_step ::
    "dp_op \<Rightarrow> data_pipeline \<Rightarrow> channel_frame list \<times> frame_ptr list \<times> data_pipeline" where
  "dp_step (DPush g f) dp =
     (let r = dp_push g (Some f) dp in (if fst r then [f] else [], [], snd r))"
| "dp_step (DPopAll arrivals) dp =
     (let r = pop_all (map (\<lambda>(g, f). (g, Some f)) arrivals) dp
      in (if fst (pop_queues dp) \<noteq> [] then [] else fst (push_trace arrivals (snd (pop_queues dp))),
          fst r, snd (snd r)))"

fun dp_run ::
    "dp_op list \<Rightarrow> data_pipeline \<Rightarrow> channel_frame list \<times> frame_ptr list \<times> data_pipeline" where
  "dp_run [] dp = ([], [], dp)"
| "dp_run (op # ops) dp =
     (case dp_step op dp of (acc, out, dp1) \<Rightarrow>
      case dp_run ops dp1 of (accs, outs, dp2) \<Rightarrow> (acc @ accs, out @ outs, dp2))"

definition of_group :: "data_group \<Rightarrow> frame_ptr list \<Rightarrow> frame_ptr list" where
  "of_group g fs = filter (\<lambda>p. map_option cf_group p = Some g) fs"

lemma of_group_append [simp]: "of_group g (xs @ ys) = of_group g xs @ of_group g ys"
  by (simp add: of_group_def)

lemma of_group_Nil [simp]: "of_group g [] = []"
  by (simp add: of_group_def)

definition labelled :: "(data_group \<times> channel_frame) list \<Rightarrow> bool" where
  "labelled ps \<longleftrightarrow> (\<forall>(g, f) \<in> set ps. cf_group f = g)"

text \<open>Every frame in the queue of a group belongs to the group.\<close>

definition sorted_out :: "data_pipeline \<Rightarrow> bool" where
  "sorted_out dp \<longleftrightarrow> (\<forall>g. \<forall>p \<in> set (dp_items dp g). map_option cf_group p = Some g)"

lemma of_group_items:
  assumes "sorted_out dp"
  shows "of_group g (dp_items dp h) = (if g = h then dp_items dp h else [])"
  using assms by (auto simp: of_group_def sorted_out_def filter_id_conv filter_empty_conv)

lemma of_group_pop_queues:
  assumes "dp_at n dp" "sorted_out dp"
  shows "of_group g (fst (pop_queues dp)) = dp_items dp g"
  by (cases g) (simp_all add: pop_queues_spec(1) [OF assms(1)] of_group_items [OF assms(2)])

lemma pop_queues_not_None:
  assumes "dp_at n dp" "sorted_out dp"
  shows "None \<notin> set (fst (pop_queues dp))"
  using assms(2) by (auto simp: pop_queues_spec(1) [OF assms(1)] sorted_out_def)

lemma push_trace_Nil [simp]: "push_trace [] dp = ([], dp)"
  by (simp add: push_trace_def)

lemma push_trace_snoc:
  "push_trace (ps @ [(g, f)]) dp =
     (let t = push_trace ps dp; r = dp_push g (Some f) (snd t)
      in (fst t @ (if fst r then [f] else []), snd r))"
  by (simp add: push_trace_def Let_def split: prod.splits)

lemma push_trace_snd:
  "snd (push_trace ps dp) =
     fold (\<lambda>gf d. snd (dp_push (fst gf) (snd gf) d)) (map (\<lambda>(g, f). (g, Some f)) ps) dp"
  by (induction ps rule: rev_induct) (auto simp: push_trace_snoc Let_def)

lemma push_trace_spec:
  assumes "dp_at n dp" "n + length ps \<le> 2 ^ 64" "labelled ps" "sorted_out dp"
  shows "dp_at (n + length ps) (snd (push_trace ps dp)) \<and> sorted_out (snd (push_trace ps dp)) \<and>
    (\<forall>g. dp_items (snd (push_trace ps dp)) g =
       dp_items dp g @ of_group g (map Some (fst (push_trace ps dp))))"
  using assms(2,3)
proof (induction ps rule: rev_induct)
  case Nil
  then show ?case using assms by simp
next
  case (snoc gf ps)
  obtain g f where gf: "gf = (g, f)" by (cases gf)
  have fg: "cf_group f = g" and lb: "labelled ps" using snoc.prems(2) by (auto simp: labelled_def gf)
  let ?d = "snd (push_trace ps dp)"
  have IH: "dp_at (n + length ps) ?d" "sorted_out ?d"
    "dp_items ?d h = dp_items dp h @ of_group h (map Some (fst (push_trace ps dp)))" for h
    using snoc.IH lb snoc.prems(1) by auto
  have lt: "n + length ps < 2 ^ 64" using snoc.prems(1) by simp
  note p = dp_push_spec [OF IH(1) lt, where g = g and f = "Some f"]
  have so: "sorted_out (snd (dp_push g (Some f) ?d))"
    using IH(2) fg by (auto simp: sorted_out_def p(1))
  show ?case
    using p(3) so IH(3) fg by (auto simp: push_trace_snoc Let_def gf p(1) of_group_def)
qed

lemma dp_step_spec:
  assumes "dp_at n dp" "n + length (op_pushes op) \<le> 2 ^ 64" "labelled (op_pushes op)" "sorted_out dp"
    and "dp_step op dp = (acc, out, dp')"
  shows "dp_at (n + length (op_pushes op)) dp' \<and> sorted_out dp' \<and>
    (\<forall>g. dp_items dp g @ of_group g (map Some acc) = of_group g out @ dp_items dp' g) \<and>
    None \<notin> set out"
proof (cases op)
  case (DPush g f)
  have lt: "n < 2 ^ 64" using assms(2) by (simp add: DPush)
  note p = dp_push_spec [OF assms(1) lt, where g = g and f = "Some f"]
  have fg: "cf_group f = g" using assms(3) by (simp add: DPush labelled_def)
  have r: "acc = (if fst (dp_push g (Some f) dp) then [f] else [])" "out = []"
    "dp' = snd (dp_push g (Some f) dp)"
    using assms(5) by (simp_all add: DPush Let_def)
  have i: "dp_items dp' = (dp_items dp)(g := dp_items dp g @ map Some acc)"
    by (simp add: r p(1))
  have o: "of_group h (map Some acc) = (if h = g then map Some acc else [])" for h
    using fg by (simp add: r of_group_def)
  have "sorted_out dp'"
    unfolding sorted_out_def i using assms(4) fg by (auto simp: sorted_out_def r split: if_splits)
  moreover have "dp_at (Suc n) dp'" using p(3) by (simp add: r(3))
  ultimately show ?thesis by (simp add: i o r(2) DPush)
next
  case (DPopAll arrivals)
  note q = pop_queues_spec [OF assms(1)] and o = of_group_pop_queues [OF assms(1,4)]
  have so: "sorted_out (snd (pop_queues dp))" by (simp add: sorted_out_def q(2))
  show ?thesis
  proof (cases "fst (pop_queues dp) = []")
    case False
    have m: "dp_at (n + length arrivals) (snd (pop_queues dp))"
      using q(3) by (auto simp: dp_at_def intro: q_at_mono)
    show ?thesis using False assms(5) q(2) o so m pop_queues_not_None [OF assms(1,4)]
      by (auto simp: DPopAll pop_all_def Let_def)
  next
    case True
    let ?d = "snd (push_trace arrivals (snd (pop_queues dp)))"
    have l: "labelled arrivals" using assms(3) by (simp add: DPopAll)
    have b: "n + length arrivals \<le> 2 ^ 64" using assms(2) by (simp add: DPopAll)
    have t: "dp_at (n + length arrivals) ?d" "sorted_out ?d"
      "dp_items ?d g = of_group g (map Some (fst (push_trace arrivals (snd (pop_queues dp)))))" for g
      using push_trace_spec [OF q(3) b l so] by (auto simp: q(2))
    have t': "dp_at (n + length arrivals) (?d\<lparr>dp_notified := False\<rparr>)"
      "sorted_out (?d\<lparr>dp_notified := False\<rparr>)"
      using t by (simp_all add: sorted_out_def)
    note q' = pop_queues_spec [OF t'(1)]
    have e: "dp_items dp g = []" for g using o [of g] True by simp
    have r: "acc = fst (push_trace arrivals (snd (pop_queues dp)))"
      "out = fst (pop_queues (?d\<lparr>dp_notified := False\<rparr>))"
      "dp' = snd (pop_queues (?d\<lparr>dp_notified := False\<rparr>))"
      using assms(5) True by (auto simp: DPopAll pop_all_def Let_def push_trace_snd)
    show ?thesis
      using q'(2,3) t(3) of_group_pop_queues [OF t'] pop_queues_not_None [OF t'] by (auto simp: r DPopAll e sorted_out_def)
  qed
qed

lemma dp_run_spec:
  assumes "dp_at n dp" "n + length (concat (map op_pushes ops)) \<le> 2 ^ 64"
    and "labelled (concat (map op_pushes ops))" "sorted_out dp"
    and "dp_run ops dp = (acc, out, dp')"
  shows "dp_items dp g @ of_group g (map Some acc) = of_group g out @ dp_items dp' g \<and>
    dp_at (n + length (concat (map op_pushes ops))) dp' \<and> None \<notin> set out"
  using assms
proof (induction ops arbitrary: n dp acc out)
  case (Cons op ops)
  obtain a1 o1 d1 where st: "dp_step op dp = (a1, o1, d1)" by (cases "dp_step op dp")
  obtain a2 o2 where rn: "dp_run ops d1 = (a2, o2, dp')" "acc = a1 @ a2" "out = o1 @ o2"
    using Cons.prems(5) by (auto simp: st split: prod.splits)
  have b: "n + length (op_pushes op) \<le> 2 ^ 64" and l: "labelled (op_pushes op)"
    using Cons.prems(2,3) by (auto simp: labelled_def)
  have s: "dp_at (n + length (op_pushes op)) d1" "sorted_out d1"
    "dp_items dp g @ of_group g (map Some a1) = of_group g o1 @ dp_items d1 g" "None \<notin> set o1"
    using dp_step_spec [OF Cons.prems(1) b l Cons.prems(4) st] by auto
  have "n + length (op_pushes op) + length (concat (map op_pushes ops)) \<le> 2 ^ 64"
    "labelled (concat (map op_pushes ops))"
    using Cons.prems(2,3) by (auto simp: labelled_def)
  from Cons.IH [OF s(1) this s(2) rn(1)]
  have IH: "dp_items d1 g @ of_group g (map Some a2) = of_group g o2 @ dp_items dp' g"
    "dp_at (n + length (op_pushes op) + length (concat (map op_pushes ops))) dp'" "None \<notin> set o2"
    by auto
  have "dp_items dp g @ of_group g (map Some acc) =
      (dp_items dp g @ of_group g (map Some a1)) @ of_group g (map Some a2)"
    by (simp add: rn(2))
  also have "\<dots> = of_group g o1 @ (dp_items d1 g @ of_group g (map Some a2))" by (simp add: s(3))
  also have "\<dots> = of_group g out @ dp_items dp' g" by (simp add: IH(1) rn(3))
  finally show ?case using IH(2,3) s(4) by (simp add: rn(3) add.assoc)
qed simp

lemma q_cap_pop_loop [simp]: "q_cap (snd (pop_loop q)) = q_cap q"
proof (induction q rule: pop_loop_induct)
  case (1 q)
  have "q_cap q' = q_cap q" if "try_pop q = Some (x, q')" for x q'
    using that by (auto simp: try_pop_def Let_def q_cap_def split: if_splits)
  with "1.IH" show ?case by (subst pop_loop.simps) (auto simp: Let_def split: option.splits)
qed

definition dp_caps :: "data_pipeline \<Rightarrow> data_group \<Rightarrow> nat" where
  "dp_caps dp g = q_cap (dp_queue g dp)"

lemma dp_caps_push [simp]: "dp_caps (snd (dp_push g f dp)) = dp_caps dp"
  by (simp add: dp_push_def Let_def q_cap_push dp_caps_def fun_eq_iff)

lemma dp_caps_pop_queues [simp]: "dp_caps (snd (pop_queues dp)) = dp_caps dp"
  by (simp add: pop_queues_def Let_def dp_caps_def fun_eq_iff all_groups)

lemma dp_caps_notified [simp]: "dp_caps (dp\<lparr>dp_notified := b\<rparr>) = dp_caps dp"
  by (simp add: dp_caps_def fun_eq_iff)

lemma dp_caps_pushes [simp]:
  "dp_caps (fold (\<lambda>gf d. snd (dp_push (fst gf) (snd gf) d)) ps dp) = dp_caps dp"
  by (induction ps arbitrary: dp) simp_all

lemma dp_caps_run: "dp_run ops dp = (acc, out, dp') \<Longrightarrow> dp_caps dp' = dp_caps dp"
proof (induction ops arbitrary: dp acc out)
  case (Cons op ops)
  have "dp_caps (snd (snd (dp_step op dp))) = dp_caps dp"
    by (cases op) (auto simp: Let_def pop_all_def)
  with Cons show ?case by (auto split: prod.splits)
qed simp

lemma pipeline_new_at:
  assumes "pipeline_new c = Inr dp"
  shows "dp_at 0 dp" "dp_items dp = (\<lambda>_. [])" "sorted_out dp"
    "q_cap (dp_queue g dp) = max 1 (unat c)" "\<not> dp_notified dp"
proof -
  obtain a where a: "queue_new c = Inr (a :: channel_frame spsc)"
    "dp = \<lparr>dp_2d = a, dp_3d = a, dp_sensor = a, dp_notified = False\<rparr>"
    using assms by (auto simp: pipeline_new_def rbind_eq_Inr)
  note n = queue_new_at [OF a(1)]
  show "dp_at 0 dp" "dp_items dp = (\<lambda>_. [])" "q_cap (dp_queue g dp) = max 1 (unat c)"
    using n by (auto simp: a(2) dp_at_def dp_items_def all_groups fun_eq_iff) (cases g; simp)
  then show "sorted_out dp" by (simp add: sorted_out_def)
  show "\<not> dp_notified dp" by (simp add: a(2))
qed

text \<open>
  C7. Delivery: over any run of pushes and \<open>pop_all\<close> calls on a fresh pipeline (with pushes
  arriving during the waits, fewer than \<open>2^64\<close> in all, every frame pushed into the queue of
  its own group), the accepted frames of each group are, in order, the delivered frames of
  that group followed by those still queued: nothing accepted is lost, duplicated or
  reordered within its group, and no null frame is delivered. A push is refused exactly if
  its own group's queue holds \<open>max 1 capacity\<close> frames, and a queue never holds more.
\<close>

theorem pipeline_delivers_in_order:
  assumes "pipeline_new c = Inr dp"
    and "labelled (concat (map op_pushes ops))" "length (concat (map op_pushes ops)) < 2 ^ 64"
    and "dp_run ops dp = (acc, out, dp')"
  shows "of_group g (map Some acc) = of_group g out @ dp_items dp' g \<and> None \<notin> set out \<and>
    (fst (dp_push g f dp') \<longleftrightarrow> length (dp_items dp' g) < max 1 (unat c)) \<and>
    length (dp_items dp' g) \<le> max 1 (unat c)"
proof -
  note new = pipeline_new_at [OF assms(1)]
  have r: "dp_items dp g @ of_group g (map Some acc) = of_group g out @ dp_items dp' g"
    "dp_at (length (concat (map op_pushes ops))) dp'" "None \<notin> set out"
    using dp_run_spec [OF new(1) _ assms(2) new(3) assms(4), of g] assms(3) by simp_all
  have c: "q_cap (dp_queue g dp') = max 1 (unat c)"
    using fun_cong [OF dp_caps_run [OF assms(4)], of g] new(4) [of g] by (simp add: dp_caps_def)
  have "q_invar (dp_queue g dp')" by (rule dp_at_invar [OF r(2)])
  then have "length (dp_items dp' g) \<le> max 1 (unat c)"
    unfolding c [symmetric] dp_items_def by (rule ring.items_bound)
  with r dp_push_spec(2) [OF r(2) assms(3), of g f] show ?thesis
    by (simp add: new(2) c)
qed

text \<open>A small pipeline and a frame for the witnesses.\<close>

definition pipe2 :: data_pipeline where
  "pipe2 = \<lparr>dp_2d = ring2, dp_3d = ring2, dp_sensor = ring2, dp_notified = False\<rparr>"

lemma pipeline_new_pipe2: "pipeline_new 2 = Inr pipe2"
  by (simp add: pipeline_new_def queue_new_ring2 pipe2_def)

definition imu_frame :: channel_frame where
  "imu_frame = \<lparr>cf_group = SensorData, cf_ts_sec = 0, cf_ts_nsec = 0, cf_pair_id = 0,
     cf_frame_index = 1, cf_pub_id = [], cf_bundles = []\<rparr>"

theorem pipeline_delivers_in_order_witness:
  "case dp_run [DPush SensorData imu_frame, DPopAll [(SensorData, imu_frame)], DPopAll []] pipe2 of
     (acc, out, dp') \<Rightarrow>
       of_group SensorData (map Some acc) = of_group SensorData out @ dp_items dp' SensorData"
proof -
  let ?ops = "[DPush SensorData imu_frame, DPopAll [(SensorData, imu_frame)], DPopAll []]"
  obtain acc out dp' where r: "dp_run ?ops pipe2 = (acc, out, dp')"
    by (cases "dp_run ?ops pipe2")
  have "labelled (concat (map op_pushes ?ops))" by (simp add: labelled_def imu_frame_def)
  from pipeline_delivers_in_order [OF pipeline_new_pipe2 this _ r] show ?thesis
    by (simp add: r del: dp_run.simps)
qed

section \<open>Draining\<close>

lemma dp_items_set_queue:
  "dp_items (dp_set_queue g q dp) = (dp_items dp)(g := q_items q)"
  by (simp add: dp_items_def fun_eq_iff)

lemma drain_group_spec:
  assumes "dp_at n dp"
  shows "dp_items (drain_group g dp) = (dp_items dp)(g := []) \<and> dp_at n (drain_group g dp) \<and>
    dp_caps (drain_group g dp) = dp_caps dp"
proof -
  have "q_items (snd (pop_loop (dp_queue g dp))) = []"
    using ring.drain_items [OF dp_at_invar [OF assms, of g]] by simp
  moreover have "dp_at n (drain_group g dp)"
    using assms by (simp add: dp_at_def drain_group_def q_at_loop)
  ultimately show ?thesis
    by (simp add: drain_group_def dp_items_set_queue dp_caps_def fun_eq_iff)
qed

lemma dp_drain_spec:
  assumes "dp_at n dp"
  shows "dp_items (dp_drain dp) = (\<lambda>_. []) \<and> dp_at n (dp_drain dp) \<and> dp_caps (dp_drain dp) = dp_caps dp"
proof -
  let ?a = "drain_group Visual2D dp"
  let ?b = "drain_group Visual3D ?a"
  note a = drain_group_spec [OF assms, of Visual2D]
  then have a': "dp_at n ?a" by simp
  note b = drain_group_spec [OF a', of Visual3D]
  then have b': "dp_at n ?b" by simp
  show ?thesis
    using a b drain_group_spec [OF b', of SensorData]
    by (auto simp: dp_drain_def fun_eq_iff all_groups)
qed

section \<open>No lost wake-up\<close>

text \<open>
  Producer and consumer step by step. The producer inserts into a queue, then raises the flag
  and notifies. The consumer scans the queues, each of its steps one \<open>try_pop\<close>; when the first
  scan found nothing it takes the mutex and tests the flag: it goes on when the flag is up,
  otherwise it sleeps until it is (or until the time-out). It then clears the flag and scans
  again. A scan is at a group (\<open>None\<close> when past the last) and knows whether it has found a
  frame.
\<close>

datatype cons_phase =
    CIdle
  | CScan1 "data_group option" bool
  | CSleep
  | CScan2 "data_group option"

record handshake =
  hs_dp :: data_pipeline
  hs_busy :: "data_group option"
  hs_phase :: cons_phase
  hs_out :: "frame_ptr list"

fun next_group :: "data_group \<Rightarrow> data_group option" where
  "next_group Visual2D = Some Visual3D"
| "next_group Visual3D = Some SensorData"
| "next_group SensorData = None"

definition producer_step :: "data_group \<Rightarrow> frame_ptr \<Rightarrow> handshake \<Rightarrow> handshake" where
  "producer_step g f s =
     (case hs_busy s of
        None \<Rightarrow>
          s\<lparr>hs_dp := dp_set_queue g (snd (try_push f (dp_queue g (hs_dp s)))) (hs_dp s),
            hs_busy := Some g\<rparr>
      | Some h \<Rightarrow> s\<lparr>hs_dp := (hs_dp s)\<lparr>dp_notified := True\<rparr>, hs_busy := None\<rparr>)"

text \<open>\<open>timeout\<close>: whether a sleeping consumer is woken by the clock.\<close>

definition consumer_step :: "bool \<Rightarrow> handshake \<Rightarrow> handshake" where
  "consumer_step timeout s =
     (case hs_phase s of
        CIdle \<Rightarrow> s\<lparr>hs_phase := CScan1 (Some Visual2D) False, hs_out := []\<rparr>
      | CScan1 (Some g) any \<Rightarrow>
          (case try_pop (dp_queue g (hs_dp s)) of
             Some (f, q) \<Rightarrow>
               s\<lparr>hs_dp := dp_set_queue g q (hs_dp s), hs_out := hs_out s @ [f],
                 hs_phase := CScan1 (Some g) True\<rparr>
           | None \<Rightarrow> s\<lparr>hs_phase := CScan1 (next_group g) any\<rparr>)
      | CScan1 None True \<Rightarrow> s\<lparr>hs_phase := CIdle\<rparr>
      | CScan1 None False \<Rightarrow> s\<lparr>hs_phase := CSleep\<rparr>
      | CSleep \<Rightarrow>
          (if dp_notified (hs_dp s) \<or> timeout
           then s\<lparr>hs_dp := (hs_dp s)\<lparr>dp_notified := False\<rparr>, hs_phase := CScan2 (Some Visual2D)\<rparr>
           else s)
      | CScan2 (Some g) \<Rightarrow>
          (case try_pop (dp_queue g (hs_dp s)) of
             Some (f, q) \<Rightarrow>
               s\<lparr>hs_dp := dp_set_queue g q (hs_dp s), hs_out := hs_out s @ [f]\<rparr>
           | None \<Rightarrow> s\<lparr>hs_phase := CScan2 (next_group g)\<rparr>)
      | CScan2 None \<Rightarrow> s\<lparr>hs_phase := CIdle\<rparr>)"

inductive hs_reach :: "data_pipeline \<Rightarrow> handshake \<Rightarrow> bool" for dp where
  hs_start: "hs_reach dp \<lparr>hs_dp = dp, hs_busy = None, hs_phase = CIdle, hs_out = []\<rparr>"
| hs_produce: "hs_reach dp s \<Longrightarrow> hs_reach dp (producer_step g f s)"
| hs_consume: "hs_reach dp s \<Longrightarrow> hs_reach dp (consumer_step timeout s)"

inductive_cases hs_reachE: "hs_reach dp s"

fun rank :: "data_group \<Rightarrow> nat" where
  "rank Visual2D = 0"
| "rank Visual3D = 1"
| "rank SensorData = 2"

fun scan_pos :: "data_group option \<Rightarrow> nat" where
  "scan_pos None = 3"
| "scan_pos (Some g) = rank g"

text \<open>The queues the consumer will still look at before it can sleep.\<close>

fun will_scan :: "cons_phase \<Rightarrow> data_group \<Rightarrow> bool" where
  "will_scan CIdle g = True"
| "will_scan (CScan1 p any) g = (any \<or> scan_pos p \<le> rank g)"
| "will_scan CSleep g = False"
| "will_scan (CScan2 p) g = True"

definition announced :: "handshake \<Rightarrow> bool" where
  "announced s \<longleftrightarrow>
     (\<forall>g. \<not> q_empty (dp_queue g (hs_dp s)) \<longrightarrow>
        dp_notified (hs_dp s) \<or> hs_busy s = Some g \<or> will_scan (hs_phase s) g)"

lemma try_pop_None_empty: "try_pop q = None \<longleftrightarrow> q_empty q"
  by (auto simp: try_pop_def q_empty_def Let_def)

lemma dp_notified_set [simp]: "dp_notified (dp_set_queue g q dp) = dp_notified dp"
  by (cases g) simp_all

lemma rank_less [simp]: "rank g < 3" "\<not> 3 \<le> rank g"
  by (cases g; simp)+

lemma announced_producer: "announced s \<Longrightarrow> announced (producer_step g f s)"
  by (auto simp: announced_def producer_step_def split: option.splits)

lemma announced_consumer:
  assumes "announced s"
  shows "announced (consumer_step timeout s)"
proof (cases "hs_phase s")
  case CIdle
  then show ?thesis by (simp add: announced_def consumer_step_def)
next
  case (CScan1 p any)
  show ?thesis
  proof (cases p)
    case None
    with CScan1 assms show ?thesis
      by (cases any) (auto simp: announced_def consumer_step_def)
  next
    case (Some h)
    show ?thesis
    proof (cases "try_pop (dp_queue h (hs_dp s))")
      case None
      have past: "scan_pos (next_group h) \<le> rank g \<longleftrightarrow> rank h \<le> rank g \<and> g \<noteq> h" for g
        by (cases h; cases g) simp_all
      from None have "q_empty (dp_queue h (hs_dp s))" by (simp add: try_pop_None_empty)
      then show ?thesis
        using assms CScan1 Some None by (auto simp: announced_def consumer_step_def past)
    next
      case (Some r)
      with CScan1 \<open>p = Some h\<close> show ?thesis
        by (cases r) (simp add: announced_def consumer_step_def)
    qed
  qed
next
  case CSleep
  with assms show ?thesis by (auto simp: announced_def consumer_step_def)
next
  case (CScan2 p)
  then show ?thesis
    by (cases p) (auto simp: announced_def consumer_step_def split: option.splits)
qed

lemma hs_reach_announced: "hs_reach dp s \<Longrightarrow> announced s"
  by (induction rule: hs_reach.induct)
    (auto simp: announced_producer announced_consumer, simp add: announced_def)

text \<open>A scan of one queue by single steps is the loop of the whole call.\<close>

lemma scan2_steps:
  assumes "hs_phase s = CScan2 (Some g)" "dp_queue g (hs_dp s) = q"
  shows "\<exists>k. (consumer_step t ^^ k) s =
    s\<lparr>hs_dp := dp_set_queue g (snd (pop_loop q)) (hs_dp s), hs_out := hs_out s @ fst (pop_loop q),
      hs_phase := CScan2 (next_group g)\<rparr>"
  using assms
proof (induction q arbitrary: s rule: pop_loop_induct)
  case (1 q)
  have set_same: "dp_set_queue g (dp_queue g d) d = d"
    "dp_set_queue g x (dp_set_queue g y d) = dp_set_queue g x d" for d x y
    by (cases g; simp)+
  show ?case
  proof (cases "try_pop q")
    case None
    then have "(consumer_step t ^^ 1) s = s\<lparr>hs_phase := CScan2 (next_group g)\<rparr>"
      "pop_loop q = ([], q)"
      using "1.prems" by (simp_all add: consumer_step_def pop_loop.simps)
    moreover have "dp_set_queue g q (hs_dp s) = hs_dp s"
      using "1.prems"(2) set_same(1) by blast
    ultimately show ?thesis by (intro exI [of _ 1]) simp
  next
    case (Some r)
    obtain f q' where r: "r = (f, q')" by (cases r)
    let ?s = "s\<lparr>hs_dp := dp_set_queue g q' (hs_dp s), hs_out := hs_out s @ [f]\<rparr>"
    have st: "consumer_step t s = ?s"
      using "1.prems" Some by (simp add: consumer_step_def r)
    have pq: "try_pop q = Some (f, q')" "hs_phase ?s = CScan2 (Some g)" "dp_queue g (hs_dp ?s) = q'"
      using Some "1.prems" by (simp_all add: r)
    obtain k where k: "(consumer_step t ^^ k) ?s =
        ?s\<lparr>hs_dp := dp_set_queue g (snd (pop_loop q')) (hs_dp ?s),
           hs_out := hs_out ?s @ fst (pop_loop q'), hs_phase := CScan2 (next_group g)\<rparr>"
      using "1.IH" [OF pq] by auto
    have "pop_loop q = (f # fst (pop_loop q'), snd (pop_loop q'))"
      using Some by (subst pop_loop.simps) (simp add: r Let_def)
    with k st show ?thesis
      by (intro exI [of _ "Suc k"]) (simp add: funpow_Suc_right set_same del: funpow.simps)
  qed
qed

lemma scan2_all:
  assumes "hs_phase s = CScan2 (Some Visual2D)"
  shows "\<exists>k. (consumer_step t ^^ k) s =
    s\<lparr>hs_dp := snd (pop_queues (hs_dp s)), hs_out := hs_out s @ fst (pop_queues (hs_dp s)),
      hs_phase := CIdle\<rparr>"
proof -
  obtain k1 where k1: "(consumer_step t ^^ k1) s =
      s\<lparr>hs_dp := (hs_dp s)\<lparr>dp_2d := snd (pop_loop (dp_2d (hs_dp s)))\<rparr>,
        hs_out := hs_out s @ fst (pop_loop (dp_2d (hs_dp s))), hs_phase := CScan2 (Some Visual3D)\<rparr>"
    (is "_ = ?s1")
    using scan2_steps [OF assms refl, of t] by auto
  have p1: "hs_phase ?s1 = CScan2 (Some Visual3D)" by simp
  obtain k2 where k2: "(consumer_step t ^^ k2) ?s1 =
      ?s1\<lparr>hs_dp := (hs_dp ?s1)\<lparr>dp_3d := snd (pop_loop (dp_3d (hs_dp ?s1)))\<rparr>,
        hs_out := hs_out ?s1 @ fst (pop_loop (dp_3d (hs_dp ?s1))),
        hs_phase := CScan2 (Some SensorData)\<rparr>"
    (is "_ = ?s2")
    using scan2_steps [OF p1 refl, of t] by auto
  have p2: "hs_phase ?s2 = CScan2 (Some SensorData)" by simp
  obtain k3 where k3: "(consumer_step t ^^ k3) ?s2 =
      ?s2\<lparr>hs_dp := (hs_dp ?s2)\<lparr>dp_sensor := snd (pop_loop (dp_sensor (hs_dp ?s2)))\<rparr>,
        hs_out := hs_out ?s2 @ fst (pop_loop (dp_sensor (hs_dp ?s2))), hs_phase := CScan2 None\<rparr>"
    (is "_ = ?s3")
    using scan2_steps [OF p2 refl, of t] by auto
  have "(consumer_step t ^^ Suc (k3 + (k2 + k1))) s = consumer_step t ?s3"
    by (simp only: funpow.simps(2) funpow_add o_apply k1 k2 k3)
  also have "\<dots> = s\<lparr>hs_dp := snd (pop_queues (hs_dp s)),
      hs_out := hs_out s @ fst (pop_queues (hs_dp s)), hs_phase := CIdle\<rparr>"
    by (simp add: consumer_step_def pop_queues_def Let_def)
  finally show ?thesis by blast
qed


definition asleep :: handshake where
  "asleep = \<lparr>hs_dp = pipe2, hs_busy = None, hs_phase = CSleep, hs_out = []\<rparr>"

definition woken :: handshake where
  "woken = producer_step SensorData (Some imu_frame) (producer_step SensorData (Some imu_frame) asleep)"

lemma asleep_reach: "hs_reach pipe2 asleep"
proof -
  let ?s = "\<lparr>hs_dp = pipe2, hs_busy = None, hs_phase = CIdle, hs_out = []\<rparr>"
  have "hs_reach pipe2 ((consumer_step False ^^ k) ?s)" for k
    by (induction k) (auto intro: hs_reach.intros)
  moreover have "(consumer_step False ^^ 5) ?s = asleep"
    by (simp add: eval_nat_numeral consumer_step_def pipe2_def asleep_def try_pop_def ring2_def)
  ultimately show ?thesis by metis
qed


end
