(* ===== verification/ImageProbe.thy ===== *)
theory ImageProbe
  imports SimTypes
begin

text \<open>
  The format probe of \<open>src/datasource/SimDataSource.cpp\<close> (\<open>probe_image\<close> and its byte
  readers) and \<open>ImageInfo\<close>. Every read of the buffer is checked: a read outside it is the
  error \<open>UndefinedBehaviour\<close>, so that memory safety is the theorem that the probe never
  returns it. Buffer indices are natural numbers: they stay below \<open>n + 65538\<close>, and a buffer
  has less than \<open>2^63\<close> bytes, so \<open>size_t\<close> does not wrap.
\<close>

section \<open>Byte readers\<close>

record image_info =
  im_format :: string
  im_is_encoded :: bool
  im_channels :: int
  im_code :: string
  im_width :: int
  im_height :: int

definition image_info_default :: image_info where
  "image_info_default = \<lparr>im_format = ''raw_u8'', im_is_encoded = False, im_channels = 0,
     im_code = [], im_width = 0, im_height = 0\<rparr>"

definition rdb :: "byte list \<Rightarrow> nat \<Rightarrow> byte result" where
  "rdb buf i = (if i < length buf then Inr (buf ! i) else Inl (UndefinedBehaviour ''buffer read''))"

definition be16 :: "byte list \<Rightarrow> nat \<Rightarrow> u16 result" where
  "be16 buf p =
     rbind (rdb buf p) (\<lambda>b0. rbind (rdb buf (p + 1)) (\<lambda>b1.
       Inr (push_bit 8 (ucast b0) OR ucast b1)))"

definition be32 :: "byte list \<Rightarrow> nat \<Rightarrow> u32 result" where
  "be32 buf p =
     rbind (rdb buf p) (\<lambda>b0. rbind (rdb buf (p + 1)) (\<lambda>b1.
     rbind (rdb buf (p + 2)) (\<lambda>b2. rbind (rdb buf (p + 3)) (\<lambda>b3.
       Inr (push_bit 24 (ucast b0) OR push_bit 16 (ucast b1) OR push_bit 8 (ucast b2) OR ucast b3)))))"

definition le32 :: "byte list \<Rightarrow> nat \<Rightarrow> u32 result" where
  "le32 buf p =
     rbind (rdb buf p) (\<lambda>b0. rbind (rdb buf (p + 1)) (\<lambda>b1.
     rbind (rdb buf (p + 2)) (\<lambda>b2. rbind (rdb buf (p + 3)) (\<lambda>b3.
       Inr (ucast b0 OR push_bit 8 (ucast b1) OR push_bit 16 (ucast b2) OR push_bit 24 (ucast b3))))))"

section \<open>The probe\<close>

definition ascii :: "char \<Rightarrow> byte" where
  "ascii c = of_nat (of_char c)"

text \<open>Byte comparison \<open>buf[i] == b\<close>, used under a bound on the length.\<close>

fun starts_bytes :: "byte list \<Rightarrow> byte list \<Rightarrow> bool" where
  "starts_bytes [] buf = True"
| "starts_bytes (b # bs) [] = False"
| "starts_bytes (b # bs) (c # cs) = (b = c \<and> starts_bytes bs cs)"

text \<open>
  The JPEG marker loop: \<open>None\<close> when it ends without a frame header. A header that does not fit
  is skipped like any other segment.
\<close>

function jpeg_scan :: "byte list \<Rightarrow> nat \<Rightarrow> image_info \<Rightarrow> image_info option result" where
  "jpeg_scan buf i info =
     (if length buf \<le> i + 3 then Inr None
      else
        rbind (rdb buf i) (\<lambda>b.
        if b \<noteq> 0xFF then jpeg_scan buf (i + 1) info
        else
          rbind (rdb buf (i + 1)) (\<lambda>marker.
          if (marker = 0xC0 \<or> marker = 0xC2) \<and> i + 9 < length buf then
            rbind (be16 buf (i + 5)) (\<lambda>h.
            rbind (be16 buf (i + 7)) (\<lambda>w.
            rbind (rdb buf (i + 9)) (\<lambda>comp.
              Inr (Some (info\<lparr>im_height := uint h, im_width := uint w, im_channels := uint comp,
                              im_code := (if comp = 1 then ''Mono'' else ''RGB'')\<rparr>)))))
          else
            rbind (be16 buf (i + 2)) (\<lambda>seg. jpeg_scan buf (i + 2 + unat seg) info))))"
  by pat_completeness auto
termination
  by (relation "measure (\<lambda>(buf, i, info). length buf - i)") auto

declare jpeg_scan.simps [simp del]

definition kPngSig :: "byte list" where
  "kPngSig = [0x89, ascii (CHR ''P''), ascii (CHR ''N''), ascii (CHR ''G''), 0x0D, 0x0A, 0x1A, 0x0A]"

fun png_color :: "int \<Rightarrow> image_info \<Rightarrow> image_info" where
  "png_color color_type info =
     (if color_type = 0 then info\<lparr>im_channels := 1, im_code := ''Mono''\<rparr>
      else if color_type = 2 then info\<lparr>im_channels := 3, im_code := ''RGB''\<rparr>
      else if color_type = 3 then info\<lparr>im_channels := 1, im_code := ''Mono''\<rparr>
      else if color_type = 4 then info\<lparr>im_channels := 2, im_code := ''GRAYA''\<rparr>
      else if color_type = 6 then info\<lparr>im_channels := 4, im_code := ''RGBA''\<rparr>
      else info\<lparr>im_channels := 4, im_code := ''RGBA''\<rparr>)"

definition probe_image :: "byte list \<Rightarrow> string \<Rightarrow> int \<Rightarrow> int \<Rightarrow> int \<Rightarrow> image_info result" where
  "probe_image buf ext def_w def_h def_ch =
     (let n = length buf; info = image_info_default in
      if 24 \<le> n \<and> starts_bytes (map ascii ''SIMR'') buf then
        rbind (le32 buf 16) (\<lambda>w. rbind (le32 buf 20) (\<lambda>h.
          Inr (info\<lparr>im_format := ''raw_u8'', im_is_encoded := False,
                    im_width := to_int32 (uint w), im_height := to_int32 (uint h),
                    im_channels := 3, im_code := ''RGB''\<rparr>)))
      else if 4 \<le> n \<and> starts_bytes [0xFF, 0xD8] buf then
        (let info = info\<lparr>im_format := ''JPG'', im_is_encoded := True\<rparr> in
         rbind (jpeg_scan buf 2 info) (\<lambda>found.
           case found of
             Some r \<Rightarrow> Inr r
           | None \<Rightarrow>
               (let ch = (if 0 < def_ch then def_ch else 3) in
                Inr (info\<lparr>im_channels := ch, im_code := (if ch = 1 then ''Mono'' else ''RGB''),
                          im_width := def_w, im_height := def_h\<rparr>))))
      else if 24 \<le> n \<and> starts_bytes kPngSig buf then
        rbind (be32 buf 16) (\<lambda>w. rbind (be32 buf 20) (\<lambda>h.
        rbind (if 25 < n then rdb buf 25 else Inr 6) (\<lambda>color_type.
          Inr (png_color (uint color_type)
                 (info\<lparr>im_format := ''PNG'', im_is_encoded := True,
                       im_width := to_int32 (uint w), im_height := to_int32 (uint h)\<rparr>)))))
      else if 4 \<le> n \<and> (starts_bytes (map ascii ''II'') buf \<or> starts_bytes (map ascii ''MM'') buf) then
        Inr (info\<lparr>im_format := ''TIFF'', im_is_encoded := True,
                  im_channels := (if 0 < def_ch then def_ch else 3), im_code := ''RGB'',
                  im_width := def_w, im_height := def_h\<rparr>)
      else
        (let ch = (if 0 < def_ch then def_ch else 4) in
         Inr (info\<lparr>im_format := ''raw_u8'', im_is_encoded := False, im_channels := ch,
                   im_code := (if ch = 4 then ''BGRA'' else ''RGB''),
                   im_width := def_w, im_height := def_h\<rparr>)))"

section \<open>Memory safety\<close>

lemma rdb_in [simp]: "i < length buf \<Longrightarrow> rdb buf i = Inr (buf ! i)"
  by (simp add: rdb_def)

lemma be16_in: "p + 1 < length buf \<Longrightarrow>
    be16 buf p = Inr (push_bit 8 (ucast (buf ! p)) OR ucast (buf ! (p + 1)))"
  by (simp add: be16_def)

lemma be32_in: "p + 3 < length buf \<Longrightarrow>
    be32 buf p = Inr (push_bit 24 (ucast (buf ! p)) OR push_bit 16 (ucast (buf ! (p + 1))) OR
      push_bit 8 (ucast (buf ! (p + 2))) OR ucast (buf ! (p + 3)))"
  by (simp add: be32_def)

lemma le32_in: "p + 3 < length buf \<Longrightarrow>
    le32 buf p = Inr (ucast (buf ! p) OR push_bit 8 (ucast (buf ! (p + 1))) OR
      push_bit 16 (ucast (buf ! (p + 2))) OR push_bit 24 (ucast (buf ! (p + 3))))"
  by (simp add: le32_def)

lemma jpeg_scan_step:
  "jpeg_scan buf i info =
     (if length buf \<le> i + 3 then Inr None
      else if buf ! i \<noteq> 0xFF then jpeg_scan buf (i + 1) info
      else if (buf ! (i + 1) = 0xC0 \<or> buf ! (i + 1) = 0xC2) \<and> i + 9 < length buf then
        Inr (Some (info\<lparr>im_height := uint (push_bit 8 (ucast (buf ! (i + 5))) OR ucast (buf ! (i + 6)) :: u16),
                        im_width := uint (push_bit 8 (ucast (buf ! (i + 7))) OR ucast (buf ! (i + 8)) :: u16),
                        im_channels := uint (buf ! (i + 9)),
                        im_code := (if buf ! (i + 9) = 1 then ''Mono'' else ''RGB'')\<rparr>))
      else jpeg_scan buf
        (i + 2 + unat (push_bit 8 (ucast (buf ! (i + 2))) OR ucast (buf ! (i + 3)) :: u16)) info)"
proof -
  have e: "i + 5 + 1 = i + 6" "i + 7 + 1 = i + 8" "i + 2 + 1 = i + 3" by simp_all
  note b = be16_in [of "i + 5" buf, unfolded e] be16_in [of "i + 7" buf, unfolded e]
    be16_in [of "i + 2" buf, unfolded e]
  show ?thesis by (subst jpeg_scan.simps) (simp add: b b(3) [simplified])
qed

lemma jpeg_scan_safe: "\<exists>r. jpeg_scan buf i info = Inr r"
proof (induction buf i info rule: jpeg_scan.induct)
  case (1 buf i info)
  show ?case
  proof (cases "length buf \<le> i + 3")
    case False
    then show ?thesis
      using "1.IH" by (subst jpeg_scan_step) auto
  qed (simp add: jpeg_scan_step)
qed

section \<open>Headers read back\<close>

text \<open>The value of the two byte orders, and their encoders.\<close>

lemma or_is_add: "(\<And>n. \<not> (bit a n \<and> bit b n)) \<Longrightarrow> (a :: 'a::len word) OR b = a + b"
  by (rule disjunctive_add [symmetric]) auto

lemma unat_byte: "unat (b :: byte) < 256"
  using unsigned_less [of b, where 'a = nat] by simp

lemma unat_ucast8 [simp]: "unat (ucast (b :: byte) :: u16) = unat b"
  using unat_byte [of b] by (simp add: unsigned_ucast_eq take_bit_nat_eq_self)

lemma unat_push8 [simp]: "unat (push_bit 8 (ucast (b :: byte)) :: u16) = unat b * 256"
proof -
  have "unat b * 256 < 65536" using unat_byte [of b] by simp
  then show ?thesis by (simp add: push_bit_eq_mult unat_word_ariths)
qed

lemma unat_be16: "unat (push_bit 8 (ucast (a :: byte)) OR ucast (b :: byte) :: u16) = unat a * 256 + unat b"
proof -
  have "\<not> (bit (push_bit 8 (ucast a) :: u16) n \<and> bit (ucast b :: u16) n)" for n
    by (auto simp: bit_simps dest: bit_imp_le_length)
  then have e: "push_bit 8 (ucast a) OR ucast b = (push_bit 8 (ucast a) + ucast b :: u16)"
    by (rule or_is_add)
  have "unat a * 256 + unat b < 65536"
    using unat_byte [of a] unat_byte [of b] by simp
  then show ?thesis by (simp add: e unat_word_ariths del: push_bit_eq_mult)
qed

definition be16_bytes :: "nat \<Rightarrow> byte list" where
  "be16_bytes n = [of_nat (n div 256), of_nat (n mod 256)]"

lemma be16_of_bytes:
  "n < 65536 \<Longrightarrow>
   unat (push_bit 8 (ucast (of_nat (n div 256) :: byte)) OR ucast (of_nat (n mod 256) :: byte) :: u16) = n"
  by (simp add: unat_be16 unat_of_nat)

text \<open>A marker segment of a JPEG file: its length field counts itself and the payload.\<close>

definition seg_bytes :: "byte \<times> byte list \<Rightarrow> byte list" where
  "seg_bytes s = [0xFF, fst s] @ be16_bytes (length (snd s) + 2) @ snd s"

definition seg_ok :: "byte \<times> byte list \<Rightarrow> bool" where
  "seg_ok s \<longleftrightarrow> fst s \<noteq> 0xC0 \<and> fst s \<noteq> 0xC2 \<and> length (snd s) + 2 < 65536"

definition sof_bytes :: "byte \<Rightarrow> nat \<Rightarrow> byte \<Rightarrow> nat \<Rightarrow> nat \<Rightarrow> byte \<Rightarrow> byte list" where
  "sof_bytes sof len prec h w nc =
     [0xFF, sof] @ be16_bytes len @ [prec] @ be16_bytes h @ be16_bytes w @ [nc]"

lemma jpeg_scan_seg:
  assumes "seg_ok s" "3 < length post"
  shows "jpeg_scan (pre @ seg_bytes s @ post) (length pre) info =
    jpeg_scan ((pre @ seg_bytes s) @ post) (length (pre @ seg_bytes s)) info"
proof -
  obtain m pl where s: "s = (m, pl)" by (cases s)
  let ?buf = "pre @ [0xFF, m] @ be16_bytes (length pl + 2) @ pl @ post"
  have n: "?buf ! length pre = 0xFF" "?buf ! (length pre + 1) = m"
    "?buf ! (length pre + 2) = of_nat ((length pl + 2) div 256)"
    "?buf ! (length pre + 3) = of_nat ((length pl + 2) mod 256)"
    by (simp_all add: nth_append be16_bytes_def numeral_3_eq_3)
  have l: "\<not> length ?buf \<le> length pre + 3" using assms(2) by (simp add: be16_bytes_def)
  have u: "unat (push_bit 8 (ucast (?buf ! (length pre + 2))) OR ucast (?buf ! (length pre + 3)) :: u16)
      = length pl + 2"
    unfolding n using assms(1) by (intro be16_of_bytes) (simp add: seg_ok_def s)
  have "jpeg_scan ?buf (length pre) info = jpeg_scan ?buf (length pre + 2 + (length pl + 2)) info"
    using assms(1) l u n by (subst jpeg_scan_step) (simp add: seg_ok_def s)
  then show ?thesis by (simp add: s seg_bytes_def be16_bytes_def add.commute add.left_commute)
qed

lemma jpeg_scan_found:
  assumes "i + 9 < length buf" "buf ! i = 0xFF" "buf ! (i + 1) = 0xC0 \<or> buf ! (i + 1) = 0xC2"
    and "buf ! (i + 5) = of_nat (h div 256)" "buf ! (i + 6) = of_nat (h mod 256)" "h < 65536"
    and "buf ! (i + 7) = of_nat (w div 256)" "buf ! (i + 8) = of_nat (w mod 256)" "w < 65536"
    and "buf ! (i + 9) = nc"
  shows "jpeg_scan buf i info =
    Inr (Some (info\<lparr>im_height := int h, im_width := int w, im_channels := uint nc,
                    im_code := (if nc = 1 then ''Mono'' else ''RGB'')\<rparr>))"
proof -
  have u: "uint (push_bit 8 (ucast (of_nat (k div 256) :: byte)) OR ucast (of_nat (k mod 256) :: byte) :: u16)
      = int k" if "k < 65536" for k
    using be16_of_bytes [OF that] by (metis uint_nat)
  have l: "\<not> length buf \<le> i + 3" using assms(1) by simp
  show ?thesis
    unfolding jpeg_scan_step [of buf i] assms(2,4,5,7,8,10) u [OF assms(6)] u [OF assms(9)]
    using assms(1,3) l by simp
qed

lemma jpeg_scan_sof:
  assumes "sof = 0xC0 \<or> sof = 0xC2" "h < 65536" "w < 65536"
  shows "jpeg_scan (pre @ sof_bytes sof len prec h w nc @ rest) (length pre) info =
    Inr (Some (info\<lparr>im_height := int h, im_width := int w, im_channels := uint nc,
                    im_code := (if nc = 1 then ''Mono'' else ''RGB'')\<rparr>))"
proof -
  let ?t = "sof_bytes sof len prec h w nc @ rest"
  have nth: "(pre @ ?t) ! (length pre + k) = ?t ! k" for k by (simp add: nth_append)
  have t: "?t = [0xFF, sof, of_nat (len div 256), of_nat (len mod 256), prec, of_nat (h div 256),
      of_nat (h mod 256), of_nat (w div 256), of_nat (w mod 256), nc] @ rest"
    by (simp add: sof_bytes_def be16_bytes_def)
  show ?thesis
  proof (rule jpeg_scan_found)
    show "(pre @ ?t) ! length pre = 0xFF" using nth [of 0] by (simp add: t)
    show "(pre @ ?t) ! (length pre + 1) = 0xC0 \<or> (pre @ ?t) ! (length pre + 1) = 0xC2"
      unfolding nth using assms(1) by (simp add: t)
    show "length pre + 9 < length (pre @ ?t)" by (simp add: t)
  qed (simp_all only: nth assms(2,3); simp add: t)+
qed

lemma jpeg_scan_segs:
  assumes "\<forall>s \<in> set segs. seg_ok s" "sof = 0xC0 \<or> sof = 0xC2" "h < 65536" "w < 65536"
  shows "jpeg_scan (pre @ concat (map seg_bytes segs) @ sof_bytes sof len prec h w nc @ rest)
      (length pre) info =
    Inr (Some (info\<lparr>im_height := int h, im_width := int w, im_channels := uint nc,
                    im_code := (if nc = 1 then ''Mono'' else ''RGB'')\<rparr>))"
  using assms(1)
proof (induction segs arbitrary: pre)
  case Nil
  then show ?case using jpeg_scan_sof [OF assms(2-4), of pre] by simp
next
  case (Cons s segs)
  let ?post = "concat (map seg_bytes segs) @ sof_bytes sof len prec h w nc @ rest"
  have "3 < length ?post" by (simp add: sof_bytes_def be16_bytes_def)
  with jpeg_scan_seg [of s ?post pre info] Cons.prems Cons.IH [of "pre @ seg_bytes s"]
  show ?case by simp
qed

lemma jpeg_scan_result:
  "jpeg_scan buf i info = Inr (Some r) \<Longrightarrow>
     im_format r = im_format info \<and> im_is_encoded r = im_is_encoded info \<and>
     0 \<le> im_channels r \<and> im_channels r < 256 \<and>
     0 \<le> im_width r \<and> im_width r < 65536 \<and> 0 \<le> im_height r \<and> im_height r < 65536 \<and>
     (im_code r = ''Mono'' \<longleftrightarrow> im_channels r = 1)"
proof (induction buf i info rule: jpeg_scan.induct)
  case (1 buf i info)
  have b: "uint (x :: byte) < 256" "uint (y :: u16) < 65536" for x y
    using uint_lt2p [of x] uint_lt2p [of y] by simp_all
  have one: "uint (x :: byte) = 1 \<longleftrightarrow> x = 1" for x
    by (metis uint_1 word_uint_eq_iff)
  show ?case
    using "1.prems" "1.IH" by (subst (asm) jpeg_scan_step) (auto simp: b one split: if_splits)
qed

definition dims_ok :: "image_info \<Rightarrow> bool" where
  "dims_ok r \<longleftrightarrow> in_int32 (im_width r) \<and> in_int32 (im_height r) \<and> 0 \<le> im_channels r \<and>
     (im_is_encoded r \<longleftrightarrow> im_format r \<in> {''JPG'', ''PNG'', ''TIFF''}) \<and>
     im_format r \<in> {''JPG'', ''PNG'', ''TIFF'', ''raw_u8''}"

lemma dims_ok_jpeg:
  assumes "jpeg_scan buf 2 (image_info_default\<lparr>im_format := ''JPG'', im_is_encoded := True\<rparr>) = Inr (Some r)"
  shows "dims_ok r"
  using jpeg_scan_result [OF assms] by (auto simp: dims_ok_def in_int32_def)

lemma dims_ok_png:
  "im_format r = ''PNG'' \<Longrightarrow> im_is_encoded r \<Longrightarrow> in_int32 (im_width r) \<Longrightarrow>
   in_int32 (im_height r) \<Longrightarrow> dims_ok (png_color c r)"
  by (simp add: dims_ok_def)

lemma probe_image_total:
  assumes "in_int32 dw" "in_int32 dh"
  shows "\<exists>r. probe_image buf ext dw dh dch = Inr r \<and> dims_ok r"
proof -
  let ?jpg = "image_info_default\<lparr>im_format := ''JPG'', im_is_encoded := True\<rparr>"
  obtain j where j: "jpeg_scan buf 2 ?jpg = Inr j" using jpeg_scan_safe by blast
  have d: "dims_ok r" if "j = Some r" for r using dims_ok_jpeg j that by blast
  have col: "(if 25 < length buf then rdb buf 25 else Inr 6) = Inr (if 25 < length buf then buf ! 25 else 6)"
    by simp
  consider (raw) "24 \<le> length buf \<and> starts_bytes (map ascii ''SIMR'') buf"
    | (jpg) "\<not> (24 \<le> length buf \<and> starts_bytes (map ascii ''SIMR'') buf)"
        "4 \<le> length buf \<and> starts_bytes [0xFF, 0xD8] buf"
    | (png) "\<not> (24 \<le> length buf \<and> starts_bytes (map ascii ''SIMR'') buf)"
        "\<not> (4 \<le> length buf \<and> starts_bytes [0xFF, 0xD8] buf)"
        "24 \<le> length buf \<and> starts_bytes kPngSig buf"
    | (other) "\<not> (24 \<le> length buf \<and> starts_bytes (map ascii ''SIMR'') buf)"
        "\<not> (4 \<le> length buf \<and> starts_bytes [0xFF, 0xD8] buf)"
        "\<not> (24 \<le> length buf \<and> starts_bytes kPngSig buf)"
    by blast
  then show ?thesis
  proof cases
    case raw
    then obtain w h where le: "le32 buf 16 = Inr w" "le32 buf 20 = Inr h" by (simp add: le32_in)
    show ?thesis
      unfolding probe_image_def Let_def if_P [OF raw] le rbind_simps
      by (simp add: dims_ok_def in_int32_to_int32)
  next
    case jpg
    show ?thesis
    proof (cases j)
      case None
      then show ?thesis
        unfolding probe_image_def Let_def if_not_P [OF jpg(1)] if_P [OF jpg(2)] j
        using assms by (simp add: dims_ok_def)
    next
      case (Some r)
      then show ?thesis
        unfolding probe_image_def Let_def if_not_P [OF jpg(1)] if_P [OF jpg(2)] j
        using d by simp
    qed
  next
    case png
    obtain w h where be: "be32 buf 16 = Inr w" "be32 buf 20 = Inr h"
      using png(3) by (simp add: be32_in)
    show ?thesis
      unfolding probe_image_def Let_def if_not_P [OF png(1)] if_not_P [OF png(2)] if_P [OF png(3)] col
        be rbind_simps
      by (simp add: dims_ok_png in_int32_to_int32 del: png_color.simps)
  next
    case other
    then show ?thesis
      unfolding probe_image_def Let_def if_not_P [OF other(1)] if_not_P [OF other(2)]
        if_not_P [OF other(3)]
      using assms by (simp add: dims_ok_def)
  qed
qed



text \<open>
  C29. JPEG: for every file made of the start marker, any number of well-formed segments other
  than frame headers, a baseline or progressive frame header and anything after it, the probe
  reports the height, width and component count that the header carries.
\<close>

theorem jpeg_probe_reads_header:
  assumes "\<forall>s \<in> set segs. seg_ok s" "sof = 0xC0 \<or> sof = 0xC2" "h < 65536" "w < 65536"
  shows "probe_image ([0xFF, 0xD8] @ concat (map seg_bytes segs) @ sof_bytes sof len prec h w nc @ rest)
      ext dw dh dch =
    Inr \<lparr>im_format = ''JPG'', im_is_encoded = True, im_channels = uint nc,
         im_code = (if nc = 1 then ''Mono'' else ''RGB''), im_width = int w, im_height = int h\<rparr>"
proof -
  let ?buf = "[0xFF, 0xD8] @ concat (map seg_bytes segs) @ sof_bytes sof len prec h w nc @ rest"
  let ?jpg = "image_info_default\<lparr>im_format := ''JPG'', im_is_encoded := True\<rparr>"
  have 1: "\<not> (24 \<le> length ?buf \<and> starts_bytes (map ascii ''SIMR'') ?buf)"
    by (simp add: ascii_def)
  have 2: "4 \<le> length ?buf \<and> starts_bytes [0xFF, 0xD8] ?buf"
    by (simp add: sof_bytes_def be16_bytes_def)
  have len2: "length [0xFF, 0xD8 :: byte] = 2" by simp
  have s: "jpeg_scan ?buf 2 ?jpg = Inr (Some (?jpg\<lparr>im_height := int h, im_width := int w,
      im_channels := uint nc, im_code := (if nc = 1 then ''Mono'' else ''RGB'')\<rparr>))"
    using jpeg_scan_segs [OF assms, of "[0xFF, 0xD8]" len prec nc rest ?jpg] unfolding len2 .
  show ?thesis
    unfolding probe_image_def Let_def if_not_P [OF 1] if_P [OF 2] s
    by (simp add: image_info_default_def)
qed

theorem jpeg_probe_reads_header_witness:
  "probe_image ([0xFF, 0xD8] @ seg_bytes (0xE0, [1, 2]) @ sof_bytes 0xC0 17 8 720 1280 3 @ [0xFF])
     ''jpg'' 1 1 1 =
   Inr \<lparr>im_format = ''JPG'', im_is_encoded = True, im_channels = 3, im_code = ''RGB'',
        im_width = 1280, im_height = 720\<rparr>"
  using jpeg_probe_reads_header [of "[(0xE0, [1, 2])]" "0xC0" 720 1280] by (simp add: seg_ok_def)

end
