(* ===== verification/TextNumbers.thy ===== *)
theory TextNumbers
  imports Prelude
begin

text \<open>
  \<open>std::stoul\<close> in base 10, used for file indices and for \<open>Content-Length\<close>: leading white
  space and a sign are accepted, text after the digits is ignored, a minus sign negates modulo
  \<open>2^64\<close>, no digit throws \<open>invalid_argument\<close> and a magnitude of \<open>2^64\<close> or more throws
  \<open>out_of_range\<close>.
\<close>

definition is_space :: "char \<Rightarrow> bool" where
  "is_space c = (let n = of_char c :: nat in n = 32 \<or> (9 \<le> n \<and> n \<le> 13))"

definition is_digit :: "char \<Rightarrow> bool" where
  "is_digit c = (let n = of_char c :: nat in 48 \<le> n \<and> n \<le> 57)"

definition digit_val :: "char \<Rightarrow> nat" where
  "digit_val c = of_char c - 48"

definition dec_value :: "string \<Rightarrow> nat" where
  "dec_value ds = foldl (\<lambda>a d. 10 * a + digit_val d) 0 ds"

definition stoul :: "string \<Rightarrow> u64 result" where
  "stoul s =
     (let t = dropWhile is_space s;
          neg = (t \<noteq> [] \<and> hd t = CHR ''-'');
          u = (if t \<noteq> [] \<and> (hd t = CHR ''-'' \<or> hd t = CHR ''+'') then tl t else t);
          ds = takeWhile is_digit u
      in if ds = [] then Inl (InvalidArgument ''stoul'')
         else if 2 ^ 64 \<le> dec_value ds then Inl (StdOutOfRange ''stoul'')
         else Inr (if neg then - of_nat (dec_value ds) else of_nat (dec_value ds)))"

lemma is_digit_digit_char: "d < 10 \<Longrightarrow> is_digit (digit_char d)"
  by (simp add: is_digit_def digit_char_def Let_def)

lemma digit_val_digit_char: "d < 10 \<Longrightarrow> digit_val (digit_char d) = d"
  by (simp add: digit_val_def digit_char_def)

lemma digits_nat_to_dec: "\<forall>c \<in> set (nat_to_dec n). is_digit c"
  by (induction n rule: nat_to_dec.induct)
    (subst nat_to_dec.simps, auto simp: is_digit_digit_char)

lemma dec_value_nat_to_dec [simp]: "dec_value (nat_to_dec n) = n"
proof (induction n rule: nat_to_dec.induct)
  case (1 n)
  then show ?case
    by (subst nat_to_dec.simps) (auto simp: dec_value_def digit_val_digit_char)
qed

text \<open>Decimal text is read back, whatever non-digit follows it.\<close>

lemma stoul_nat_to_dec:
  assumes "n < 2 ^ 64" "rest = [] \<or> \<not> is_digit (hd rest)"
  shows "stoul (nat_to_dec n @ rest) = Inr (of_nat n)"
proof -
  obtain c cs where c: "nat_to_dec n = c # cs" by (cases "nat_to_dec n") auto
  then have dc: "is_digit c" using digits_nat_to_dec [of n] by simp
  then have nc: "\<not> is_space c" "c \<noteq> CHR ''-''" "c \<noteq> CHR ''+''"
    by (auto simp: is_digit_def is_space_def Let_def)
  have "takeWhile is_digit (nat_to_dec n @ rest) = nat_to_dec n"
    using digits_nat_to_dec [of n] assms(2)
    by (cases rest) (auto simp: takeWhile_append)
  with nc assms(1) show ?thesis
    by (simp add: stoul_def Let_def c) (metis c dec_value_nat_to_dec not_le)
qed

end
