(* ===== verification/DataSource.thy ===== *)
theory DataSource
  imports ImageProbe TextNumbers "HOL-Library.Multiset"
begin

text \<open>
  \<open>SimDataSource\<close> of \<open>include/sim_vision/datasource/SimDataSource.h\<close> and
  \<open>src/datasource/SimDataSource.cpp\<close>: loading the stereo pairs of a directory and handing
  them out in turn. The file system is an argument: the entries of a directory in the
  (unspecified) order of \<open>directory_iterator\<close>, and the contents of the readable files.
\<close>

record stereo_pair =
  sp_left :: "byte list"
  sp_right :: "byte list"
  sp_left_info :: image_info
  sp_right_info :: image_info
  sp_pair_index :: u64

record data_source =
  ds_pairs :: "stereo_pair list"
  ds_cursor :: u64
  ds_width :: int
  ds_height :: int
  ds_channels :: int

definition data_source_new :: data_source where
  "data_source_new = \<lparr>ds_pairs = [], ds_cursor = 0, ds_width = 1280, ds_height = 720,
                      ds_channels = 4\<rparr>"

definition ds_lower :: "string \<Rightarrow> string" where
  "ds_lower s = to_lower s"

definition ext_of :: "string \<Rightarrow> string" where
  "ext_of fn =
     (case find_last_char (CHR ''.'') fn of
        None \<Rightarrow> []
      | Some p \<Rightarrow> ds_lower (drop (p + 1) fn))"

text \<open>\<open>path::stem\<close>: the file name without its last extension; a leading dot starts none.\<close>

definition path_stem :: "string \<Rightarrow> string" where
  "path_stem fn =
     (if fn = ''.'' \<or> fn = ''..'' then fn
      else (case find_last_char (CHR ''.'') fn of
              None \<Rightarrow> fn
            | Some p \<Rightarrow> (if p = 0 then fn else take p fn)))"

record dir_entry =
  de_path :: string
  de_name :: string
  de_regular :: bool

text \<open>An unreadable or empty file leaves \<open>out\<close> as it was.\<close>

definition read_file ::
    "(string \<Rightarrow> byte list option) \<Rightarrow> string \<Rightarrow> byte list \<Rightarrow> bool \<times> byte list" where
  "read_file files path out =
     (case files path of
        None \<Rightarrow> (False, out)
      | Some bytes \<Rightarrow> (if bytes = [] then (False, out) else (True, bytes)))"

type_synonym path_index = "(u64, string \<times> string) omap"

text \<open>One round of the listing loop: \<open>None\<close> is \<open>continue\<close>.\<close>

definition entry_key :: "dir_entry \<Rightarrow> (string \<times> u64) option" where
  "entry_key e =
     (if \<not> de_regular e then None
      else
        (let ext = ext_of (de_name e); stem = path_stem (de_name e) in
         if ext \<noteq> ''jpg'' \<and> ext \<noteq> ''jpeg'' \<and> ext \<noteq> ''png'' \<and> ext \<noteq> ''raw'' then None
         else
           (case find_last_char (CHR ''_'') stem of
              None \<Rightarrow> None
            | Some us \<Rightarrow>
                (let idxs = drop (us + 1) stem in
                 if idxs = [] then None
                 else (case stoul idxs of
                         Inl _ \<Rightarrow> None
                       | Inr idx \<Rightarrow> Some (take us stem, idx))))))"

definition slot_of :: "path_index \<Rightarrow> u64 \<Rightarrow> string \<times> string" where
  "slot_of m idx = (case map_of m idx of Some s \<Rightarrow> s | None \<Rightarrow> ([], []))"

definition index_entry :: "dir_entry \<Rightarrow> path_index \<Rightarrow> path_index" where
  "index_entry e m =
     (case entry_key e of
        None \<Rightarrow> m
      | Some (camid, idx) \<Rightarrow>
          (let side = (if ds_lower camid = [] then CHR '' '' else hd (ds_lower camid));
               slot = slot_of m idx
           in om_upd idx
                (if side = CHR ''l'' then (de_path e, snd slot)
                 else if side = CHR ''r'' then (fst slot, de_path e)
                 else slot) m))"

text \<open>
  The second loop: one pair per index that has a file. A side without a file mirrors the
  other. \<open>probe_image\<close> cannot fail (\<open>probe_image_safe\<close>), its error is passed on nevertheless.
\<close>

definition load_pair ::
    "(string \<Rightarrow> byte list option) \<Rightarrow> data_source \<Rightarrow> u64 \<times> (string \<times> string) \<Rightarrow>
     stereo_pair option result" where
  "load_pair files ds kv =
     (let lp = fst (snd kv); rp = snd (snd kv); have_left = (lp \<noteq> []); have_right = (rp \<noteq> []) in
      if \<not> have_left \<and> \<not> have_right then Inr None
      else
        (let l = (if have_left then snd (read_file files lp []) else []);
             r = (if have_right then snd (read_file files rp []) else []);
             r' = (if have_left \<and> \<not> have_right then l else r);
             l' = (if have_right \<and> \<not> have_left then r else l)
         in
         rbind (probe_image l' (ext_of lp) (ds_width ds) (ds_height ds) (ds_channels ds)) (\<lambda>li.
         rbind (if have_left \<and> have_right
                then probe_image r' (ext_of rp) (ds_width ds) (ds_height ds) (ds_channels ds)
                else Inr li) (\<lambda>ri.
           Inr (Some \<lparr>sp_left = l', sp_right = r', sp_left_info = li, sp_right_info = ri,
                      sp_pair_index = fst kv\<rparr>)))))"

fun load_pairs ::
    "(string \<Rightarrow> byte list option) \<Rightarrow> data_source \<Rightarrow> path_index \<Rightarrow> stereo_pair list result" where
  "load_pairs files ds [] = Inr []"
| "load_pairs files ds (kv # m) =
     rbind (load_pair files ds kv) (\<lambda>p.
     rbind (load_pairs files ds m) (\<lambda>ps.
       Inr (case p of None \<Rightarrow> ps | Some x \<Rightarrow> x # ps)))"

text \<open>
  The return value, the error text, and the source after the call. \<open>listing dir\<close> is \<open>None\<close>
  when the directory does not exist, and an exception when the test or the iteration throws.
\<close>

definition ds_load ::
    "(string \<Rightarrow> dir_entry list option result) \<Rightarrow> (string \<Rightarrow> byte list option) \<Rightarrow> string \<Rightarrow>
     string \<Rightarrow> data_source \<Rightarrow> (bool \<times> string \<times> data_source) result" where
  "ds_load listing files stereo_dir err ds =
     (if stereo_dir = [] then Inr (False, ''stereo_image_dir is empty'', ds)
      else
        rbind (listing stereo_dir) (\<lambda>found.
          case found of
            None \<Rightarrow> Inr (True, err, ds)
          | Some entries \<Rightarrow>
              rbind (load_pairs files ds (fold index_entry entries [])) (\<lambda>loaded.
                Inr (True, err, ds\<lparr>ds_pairs := sort_key sp_pair_index loaded\<rparr>))))"

definition pair_count :: "data_source \<Rightarrow> nat" where
  "pair_count ds = length (ds_pairs ds)"

definition next_stereo :: "data_source \<Rightarrow> (stereo_pair \<times> data_source) option" where
  "next_stereo ds =
     (if ds_pairs ds = [] then None
      else Some (ds_pairs ds ! (unat (ds_cursor ds mod of_nat (length (ds_pairs ds)))),
                 ds\<lparr>ds_cursor := ds_cursor ds + 1\<rparr>))"

definition set_image_size :: "int \<Rightarrow> int \<Rightarrow> data_source \<Rightarrow> data_source" where
  "set_image_size w h ds = ds\<lparr>ds_width := w, ds_height := h\<rparr>"

definition set_image_channels :: "int \<Rightarrow> data_source \<Rightarrow> data_source" where
  "set_image_channels c ds = ds\<lparr>ds_channels := c\<rparr>"

definition version_tag :: string where
  "version_tag = ''SimVisionSDK/1.0''"

section \<open>Loading\<close>

lemma om_ok_index: "om_ok m \<Longrightarrow> om_ok (index_entry e m)"
  by (auto simp: index_entry_def Let_def split: option.splits)

lemma om_ok_index_fold: "om_ok m \<Longrightarrow> om_ok (fold index_entry es m)"
  by (induction es arbitrary: m) (auto simp: om_ok_index)

text \<open>The file of one side of an index: the last matching entry of the listing.\<close>

definition entry_is :: "char \<Rightarrow> u64 \<Rightarrow> dir_entry \<Rightarrow> bool" where
  "entry_is side idx e =
     (case entry_key e of
        None \<Rightarrow> False
      | Some (camid, i) \<Rightarrow> i = idx \<and> ds_lower camid \<noteq> [] \<and> hd (ds_lower camid) = side)"

definition side_path :: "char \<Rightarrow> dir_entry list \<Rightarrow> u64 \<Rightarrow> string" where
  "side_path side es idx = (case filter (entry_is side idx) (rev es) of [] \<Rightarrow> [] | e # _ \<Rightarrow> de_path e)"

lemma slot_of_index:
  "slot_of (fold index_entry es []) idx = (side_path (CHR ''l'') es idx, side_path (CHR ''r'') es idx)"
proof (induction es rule: rev_induct)
  case Nil
  then show ?case by (simp add: slot_of_def side_path_def)
next
  case (snoc e es)
  show ?case
  proof (cases "entry_key e")
    case None
    with snoc show ?thesis by (simp add: index_entry_def side_path_def entry_is_def)
  next
    case (Some k)
    obtain camid i where k: "k = (camid, i)" by (cases k)
    have o: "slot_of (om_upd i v m) j = (if j = i then v else slot_of m j)" for v m j
      by (simp add: slot_of_def)
    show ?thesis
      using snoc Some by (auto simp: index_entry_def side_path_def entry_is_def k o Let_def)
  qed
qed

definition file_bytes :: "(string \<Rightarrow> byte list option) \<Rightarrow> string \<Rightarrow> byte list" where
  "file_bytes files path = (case files path of None \<Rightarrow> [] | Some b \<Rightarrow> b)"

lemma read_file_bytes: "snd (read_file files path []) = file_bytes files path"
  by (simp add: read_file_def file_bytes_def split: option.splits)

definition sizes_ok :: "data_source \<Rightarrow> bool" where
  "sizes_ok ds \<longleftrightarrow> in_int32 (ds_width ds) \<and> in_int32 (ds_height ds)"

definition has_file :: "string \<times> string \<Rightarrow> bool" where
  "has_file s \<longleftrightarrow> fst s \<noteq> [] \<or> snd s \<noteq> []"

definition pair_of_files :: "(string \<Rightarrow> byte list option) \<Rightarrow> string \<times> string \<Rightarrow> stereo_pair \<Rightarrow> bool" where
  "pair_of_files files s p \<longleftrightarrow>
     sp_left p = file_bytes files (if fst s \<noteq> [] then fst s else snd s) \<and>
     sp_right p = file_bytes files (if snd s \<noteq> [] then snd s else fst s) \<and>
     dims_ok (sp_left_info p) \<and> dims_ok (sp_right_info p)"

lemma load_pair_spec:
  assumes "sizes_ok ds"
  shows "\<exists>r. load_pair files ds (i, s) = Inr r \<and>
    (case r of None \<Rightarrow> \<not> has_file s
     | Some p \<Rightarrow> has_file s \<and> sp_pair_index p = i \<and> pair_of_files files s p)"
proof -
  obtain lp rp where s: "s = (lp, rp)" by (cases s)
  have pr: "\<exists>r. probe_image b ext (ds_width ds) (ds_height ds) c = Inr r \<and> dims_ok r" for b ext c
    using assms probe_image_total [of "ds_width ds" "ds_height ds" b ext c]
    by (simp add: sizes_ok_def)
  let ?b = "file_bytes files"
  let ?pl = "\<lambda>x. probe_image x (ext_of lp) (ds_width ds) (ds_height ds) (ds_channels ds)"
  obtain a where a: "?pl (?b lp) = Inr a" "dims_ok a" using pr by blast
  obtain c where c: "?pl (?b rp) = Inr c" "dims_ok c" using pr by blast
  obtain d where d: "probe_image (?b rp) (ext_of rp) (ds_width ds) (ds_height ds) (ds_channels ds) = Inr d"
    "dims_ok d" using pr by blast
  show ?thesis
    using a c d
    by (cases "lp = []"; cases "rp = []")
      (simp_all add: load_pair_def s has_file_def pair_of_files_def read_file_bytes Let_def)
qed

lemma load_pairs_spec:
  assumes "sizes_ok ds"
  shows "\<exists>ps. load_pairs files ds m = Inr ps \<and>
    map sp_pair_index ps = map fst (filter (\<lambda>kv. has_file (snd kv)) m) \<and>
    (\<forall>p \<in> set ps. \<exists>kv \<in> set m. fst kv = sp_pair_index p \<and> pair_of_files files (snd kv) p)"
proof (induction m)
  case (Cons kv m)
  obtain i s where kv: "kv = (i, s)" by (cases kv)
  obtain ps where ps: "load_pairs files ds m = Inr ps"
    "map sp_pair_index ps = map fst (filter (\<lambda>kv. has_file (snd kv)) m)"
    "\<forall>p \<in> set ps. \<exists>kv \<in> set m. fst kv = sp_pair_index p \<and> pair_of_files files (snd kv) p"
    using Cons.IH by blast
  obtain r where r: "load_pair files ds (i, s) = Inr r"
    "case r of None \<Rightarrow> \<not> has_file s
     | Some p \<Rightarrow> has_file s \<and> sp_pair_index p = i \<and> pair_of_files files s p"
    using load_pair_spec [OF assms] by blast
  with ps show ?case by (cases r) (auto simp: kv)
qed simp

text \<open>
  C36. Loading a directory that can be listed always succeeds and yields, in strictly increasing index order,
  one pair for exactly the indices that have a left or a right image: the image of a side is
  the content of the last listed file of that side and index, a missing side mirrors the other
  one, and both descriptions are well formed.
\<close>

theorem load_pairs_complete:
  assumes "listing dir = Inr (Some es)" "dir \<noteq> []" "sizes_ok ds"
  shows "\<exists>ds'. ds_load listing files dir err ds = Inr (True, err, ds') \<and>
    ds_cursor ds' = ds_cursor ds \<and>
    sorted_wrt (<) (map sp_pair_index (ds_pairs ds')) \<and>
    (\<forall>i. i \<in> sp_pair_index ` set (ds_pairs ds') \<longleftrightarrow>
       side_path (CHR ''l'') es i \<noteq> [] \<or> side_path (CHR ''r'') es i \<noteq> []) \<and>
    (\<forall>p \<in> set (ds_pairs ds').
       let l = side_path (CHR ''l'') es (sp_pair_index p); r = side_path (CHR ''r'') es (sp_pair_index p)
       in sp_left p = file_bytes files (if l \<noteq> [] then l else r) \<and>
          sp_right p = file_bytes files (if r \<noteq> [] then r else l) \<and>
          dims_ok (sp_left_info p) \<and> dims_ok (sp_right_info p))"
proof -
  let ?m = "fold index_entry es []"
  have ok: "om_ok ?m" by (simp add: om_ok_index_fold)
  have sl: "slot_of ?m i = (side_path (CHR ''l'') es i, side_path (CHR ''r'') es i)" for i
    by (rule slot_of_index)
  have mem: "(i, s) \<in> set ?m \<Longrightarrow> slot_of ?m i = s" for i s
    using om_ok_mem_iff [OF ok] by (simp add: slot_of_def)
  obtain ps where ps: "load_pairs files ds ?m = Inr ps"
    "map sp_pair_index ps = map fst (filter (\<lambda>kv. has_file (snd kv)) ?m)"
    "\<forall>p \<in> set ps. \<exists>kv \<in> set ?m. fst kv = sp_pair_index p \<and> pair_of_files files (snd kv) p"
    using load_pairs_spec [OF assms(3)] by blast
  have srt: "sorted_wrt (<) (map sp_pair_index ps)"
    using om_ok_filter [OF ok] by (simp add: ps(2) om_ok_def)
  then have "sort_key sp_pair_index ps = ps"
    by (intro sort_key_id_if_sorted) (simp add: strict_sorted_iff)
  then have load: "ds_load listing files dir err ds = Inr (True, err, ds\<lparr>ds_pairs := ps\<rparr>)"
    using assms(1,2) ps(1) by (simp add: ds_load_def)
  have "i \<in> sp_pair_index ` set ps \<longleftrightarrow> (\<exists>s. (i, s) \<in> set ?m \<and> has_file s)" for i
    using arg_cong [OF ps(2), of set] by force
  moreover have "(\<exists>s. (i, s) \<in> set ?m \<and> has_file s) \<longleftrightarrow> has_file (slot_of ?m i)" for i
    using om_ok_mem_iff [OF ok] by (auto simp: slot_of_def has_file_def split: option.splits)
  ultimately have idx: "i \<in> sp_pair_index ` set ps \<longleftrightarrow> has_file (slot_of ?m i)" for i by blast
  have cont: "pair_of_files files (slot_of ?m (sp_pair_index p)) p" if "p \<in> set ps" for p
    using ps(3) that mem by (metis prod.collapse)
  show ?thesis
    using load srt idx cont by (auto simp: sl has_file_def pair_of_files_def Let_def)
qed

section \<open>Round robin\<close>

fun next_n :: "nat \<Rightarrow> data_source \<Rightarrow> stereo_pair list" where
  "next_n 0 ds = []"
| "next_n (Suc k) ds =
     (case next_stereo ds of None \<Rightarrow> [] | Some (p, ds') \<Rightarrow> p # next_n k ds')"

lemma next_stereo_eq:
  assumes "ds_pairs ds \<noteq> []" "length (ds_pairs ds) < 2 ^ 64"
  shows "next_stereo ds = Some (ds_pairs ds ! (unat (ds_cursor ds) mod length (ds_pairs ds)),
    ds\<lparr>ds_cursor := ds_cursor ds + 1\<rparr>)"
proof -
  have "unat (of_nat (length (ds_pairs ds)) :: u64) = length (ds_pairs ds)"
    using assms(2) by (simp add: unat_of_nat)
  then show ?thesis using assms(1) by (simp add: next_stereo_def unat_mod)
qed

lemma next_n_eq:
  assumes "ds_pairs ds \<noteq> []" "length (ds_pairs ds) < 2 ^ 64" "unat (ds_cursor ds) + k \<le> 2 ^ 64"
  shows "next_n k ds =
    map (\<lambda>i. ds_pairs ds ! (i mod length (ds_pairs ds))) [unat (ds_cursor ds)..<unat (ds_cursor ds) + k]"
  using assms
proof (induction k arbitrary: ds)
  case (Suc k)
  let ?ds = "ds\<lparr>ds_cursor := ds_cursor ds + 1\<rparr>"
  show ?case
  proof (cases k)
    case 0
    then show ?thesis using next_stereo_eq [OF Suc.prems(1,2)] by simp
  next
    case (Suc j)
    then have "unat (ds_cursor ds) + 1 < 2 ^ 64" using Suc.prems(3) by simp
    then have u: "unat (ds_cursor ?ds) = Suc (unat (ds_cursor ds))"
      by (simp add: unat_word_ariths)
    have "next_n k ?ds = map (\<lambda>i. ds_pairs ds ! (i mod length (ds_pairs ds)))
        [Suc (unat (ds_cursor ds))..<Suc (unat (ds_cursor ds)) + k]"
      using Suc.IH [of ?ds] Suc.prems u by simp
    then show ?thesis
      using next_stereo_eq [OF Suc.prems(1,2)] by (auto simp: upt_conv_Cons Suc_le_eq)
  qed
qed simp

text \<open>
  The pairs are handed out in turn: the next \<open>k\<close> calls of \<open>next_stereo\<close> return the pairs
  at the positions cursor, cursor + 1, ... modulo the number of pairs, as long as the 64-bit
  cursor does not wrap; so any \<open>pair_count\<close> consecutive calls return every pair exactly once.
\<close>

theorem next_stereo_round_robin:
  assumes "ds_pairs ds \<noteq> []" "length (ds_pairs ds) < 2 ^ 64" "unat (ds_cursor ds) + k \<le> 2 ^ 64"
  shows "next_n k ds =
      map (\<lambda>i. ds_pairs ds ! (i mod pair_count ds)) [unat (ds_cursor ds)..<unat (ds_cursor ds) + k] \<and>
    (k = pair_count ds \<longrightarrow> mset (next_n k ds) = mset (ds_pairs ds))"
proof -
  let ?n = "length (ds_pairs ds)" and ?c = "unat (ds_cursor ds)"
  have e: "next_n k ds = map (\<lambda>i. ds_pairs ds ! (i mod ?n)) [?c..<?c + k]"
    by (rule next_n_eq [OF assms])
  have n: "0 < ?n" using assms(1) by simp
  have perm: "mset (map (\<lambda>i. i mod ?n) [c..<c + ?n]) = mset [0..<?n]" for c
  proof (induction c)
    case 0
    have "map (\<lambda>i. i mod ?n) [0..<0 + ?n] = [0..<?n]"
      by (rule nth_equalityI) simp_all
    then show ?case by simp
  next
    case (Suc c)
    have "[c..<c + ?n] = c # [Suc c..<c + ?n]" using n by (simp add: upt_conv_Cons)
    moreover have "[Suc c..<Suc c + ?n] = [Suc c..<c + ?n] @ [c + ?n]"
      using n by (simp add: Suc_le_eq)
    ultimately show ?case using Suc.IH by simp
  qed
  have "mset (next_n ?n ds) = mset (ds_pairs ds)" if "k = ?n"
  proof -
    have "next_n ?n ds = map ((!) (ds_pairs ds)) (map (\<lambda>i. i mod ?n) [?c..<?c + ?n])"
      using e that by simp
    then have "mset (next_n ?n ds) =
        image_mset ((!) (ds_pairs ds)) (mset (map (\<lambda>i. i mod ?n) [?c..<?c + ?n]))"
      by (metis mset_map)
    also have "\<dots> = image_mset ((!) (ds_pairs ds)) (mset [0..<?n])" by (simp only: perm)
    also have "\<dots> = mset (map ((!) (ds_pairs ds)) [0..<?n])" by simp
    also have "\<dots> = mset (ds_pairs ds)" by (simp only: map_nth)
    finally show ?thesis .
  qed
  with e show ?thesis by (auto simp: pair_count_def)
qed

text \<open>A directory with two files for the witnesses.\<close>

definition demo_listing :: "string \<Rightarrow> dir_entry list option result" where
  "demo_listing d = (if d = ''D'' then
     Inr (Some [\<lparr>de_path = ''D/left_2.png'', de_name = ''left_2.png'', de_regular = True\<rparr>,
                \<lparr>de_path = ''D/R_01.jpg'', de_name = ''R_01.jpg'', de_regular = True\<rparr>])
     else Inr None)"

definition demo_source :: data_source where
  "demo_source = data_source_new\<lparr>ds_pairs := [
     \<lparr>sp_left = [1], sp_right = [2], sp_left_info = image_info_default,
      sp_right_info = image_info_default, sp_pair_index = 1\<rparr>,
     \<lparr>sp_left = [3], sp_right = [4], sp_left_info = image_info_default,
      sp_right_info = image_info_default, sp_pair_index = 2\<rparr>]\<rparr>"

theorem load_pairs_complete_witness:
  "\<exists>ds'. ds_load demo_listing (\<lambda>_. Some [7]) ''D'' [] data_source_new = Inr (True, [], ds')"
proof -
  obtain es where "demo_listing ''D'' = Inr (Some es)" by (simp add: demo_listing_def)
  note load = load_pairs_complete [where listing = demo_listing and dir = "''D''"
      and ds = data_source_new, OF this]
  have "\<exists>ds'. ds_load demo_listing files ''D'' err data_source_new = Inr (True, err, ds')" for files err
    using load [of files err] by (auto simp: sizes_ok_def data_source_new_def in_int32_def)
  then show ?thesis .
qed

theorem next_stereo_round_robin_witness:
  "map sp_pair_index (next_n 4 demo_source) = [1, 2, 1, 2]"
proof -
  have n: "pair_count demo_source = 2" by (simp add: demo_source_def pair_count_def)
  have "next_n 4 demo_source = map (\<lambda>i. ds_pairs demo_source ! (i mod pair_count demo_source)) [0..<4]"
    using next_stereo_round_robin [of demo_source 4] by (simp add: demo_source_def data_source_new_def)
  moreover have "[0..<4] = [0, 1, 2, 3 :: nat]" by (simp add: upt_rec)
  moreover have "3 mod 2 = (1 :: nat)" by simp
  ultimately have "next_n 4 demo_source = map (\<lambda>i. ds_pairs demo_source ! i) [0, 1, 0, 1]"
    by (simp only: n list.map mod_0 mod_self mod_less)
  then show ?thesis by (simp add: demo_source_def)
qed

end
