(* ===== verification/Generators.thy ===== *)
theory Generators
  imports DataSource Json
begin

text \<open>
  The synthetic data of \<open>src/datasource/SimDataSource.cpp\<close>: depth, disparity and confidence
  maps, point clouds and the sensor samples. Doubles and floats are their bit patterns. The
  rounding arithmetic and \<open>libm\<close> are the record \<open>fp_ops\<close>, an argument: what is proved
  holds for every such arithmetic. The literals are the nearest values, and the float
  comparison that \<open>std::min\<close> and \<open>std::max\<close> use is written out.
\<close>

section \<open>Floating point\<close>

record fp_ops =
  d_add :: "u64 \<Rightarrow> u64 \<Rightarrow> u64"
  d_sub :: "u64 \<Rightarrow> u64 \<Rightarrow> u64"
  d_mul :: "u64 \<Rightarrow> u64 \<Rightarrow> u64"
  d_div :: "u64 \<Rightarrow> u64 \<Rightarrow> u64"
  d_sin :: "u64 \<Rightarrow> u64"
  d_cos :: "u64 \<Rightarrow> u64"
  d_of_int :: "int \<Rightarrow> u64"
  f_of_d :: "u64 \<Rightarrow> u32"
  f_of_int :: "int \<Rightarrow> u32"
  f_add :: "u32 \<Rightarrow> u32 \<Rightarrow> u32"
  f_mul :: "u32 \<Rightarrow> u32 \<Rightarrow> u32"
  f_div :: "u32 \<Rightarrow> u32 \<Rightarrow> u32"

text \<open>The literals of the generators.\<close>

definition dbl_0_01 :: u64 where "dbl_0_01 = 0x3F847AE147AE147B"
definition dbl_0_02 :: u64 where "dbl_0_02 = 0x3F947AE147AE147B"
definition dbl_0_03 :: u64 where "dbl_0_03 = 0x3F9EB851EB851EB8"
definition dbl_0_05 :: u64 where "dbl_0_05 = 0x3FA999999999999A"
definition dbl_0_07 :: u64 where "dbl_0_07 = 0x3FB1EB851EB851EC"
definition dbl_0_1 :: u64 where "dbl_0_1 = 0x3FB999999999999A"
definition dbl_0_2 :: u64 where "dbl_0_2 = 0x3FC999999999999A"
definition dbl_0_3 :: u64 where "dbl_0_3 = 0x3FD3333333333333"
definition dbl_0_5 :: u64 where "dbl_0_5 = 0x3FE0000000000000"
definition dbl_0_0 :: u64 where "dbl_0_0 = 0x0000000000000000"
definition dbl_1_0 :: u64 where "dbl_1_0 = 0x3FF0000000000000"
definition dbl_2_0 :: u64 where "dbl_2_0 = 0x4000000000000000"
definition dbl_3_0 :: u64 where "dbl_3_0 = 0x4008000000000000"
definition dbl_4_0 :: u64 where "dbl_4_0 = 0x4010000000000000"
definition dbl_6_0 :: u64 where "dbl_6_0 = 0x4018000000000000"
definition dbl_8_0 :: u64 where "dbl_8_0 = 0x4020000000000000"
definition dbl_16_0 :: u64 where "dbl_16_0 = 0x4030000000000000"
definition dbl_32_0 :: u64 where "dbl_32_0 = 0x4040000000000000"
definition dbl_38_0 :: u64 where "dbl_38_0 = 0x4043000000000000"
definition dbl_6_2831853 :: u64 where "dbl_6_2831853 = 0x401921FB53C8D4F1"
definition dbl_9_81 :: u64 where "dbl_9_81 = 0x40239EB851EB851F"
definition dbl_neg_0_45 :: u64 where "dbl_neg_0_45 = 0xBFDCCCCCCCCCCCCD"
definition dbl_1013_25 :: u64 where "dbl_1013_25 = 0x408FAA0000000000"

definition flt_0_0 :: u32 where "flt_0_0 = 0x00000000"
definition flt_0_3 :: u32 where "flt_0_3 = 0x3E99999A"
definition flt_0_5 :: u32 where "flt_0_5 = 0x3F000000"
definition flt_0_7 :: u32 where "flt_0_7 = 0x3F333333"
definition flt_1_0 :: u32 where "flt_1_0 = 0x3F800000"

text \<open>\<open>float\<close> comparison: false when an operand is a NaN, and the zeros are equal.\<close>

definition f_nan :: "u32 \<Rightarrow> bool" where
  "f_nan x \<longleftrightarrow> 0x7F800000 < x AND 0x7FFFFFFF"

definition f_key :: "u32 \<Rightarrow> int" where
  "f_key x = (if x < 0x80000000 then uint x else - uint (x AND 0x7FFFFFFF))"

definition f_lt :: "u32 \<Rightarrow> u32 \<Rightarrow> bool" where
  "f_lt x y \<longleftrightarrow> \<not> f_nan x \<and> \<not> f_nan y \<and> f_key x < f_key y"

text \<open>\<open>std::max(a, b)\<close> and \<open>std::min(a, b)\<close>.\<close>

definition f_max :: "u32 \<Rightarrow> u32 \<Rightarrow> u32" where
  "f_max a b = (if f_lt a b then b else a)"

definition f_min :: "u32 \<Rightarrow> u32 \<Rightarrow> u32" where
  "f_min a b = (if f_lt b a then b else a)"

text \<open>The bytes of a \<open>float\<close> on a little-endian machine, as \<open>append_floats\<close> copies them.\<close>

definition f_bytes :: "u32 \<Rightarrow> byte list" where
  "f_bytes x = [ucast x, ucast (drop_bit 8 x), ucast (drop_bit 16 x), ucast (drop_bit 24 x)]"

definition append_floats :: "byte list \<Rightarrow> u32 list \<Rightarrow> byte list" where
  "append_floats out vals = out @ concat (map f_bytes vals)"

section \<open>The maps\<close>

text \<open>
  \<open>vector::reserve\<close> and the constructor \<open>vector<float> row(width)\<close> throw above
  \<open>max_size()\<close>; a negative \<open>int\<close> converts to a huge \<open>size_t\<close>. (Running out of memory is not
  modelled.)
\<close>

definition reserve_ok :: "int \<Rightarrow> int \<Rightarrow> unit result" where
  "reserve_ok width height =
     (if 0x7FFFFFFFFFFFFFFF < (word_of_int width * word_of_int height * 4 :: u64)
      then Inl (LengthError ''vector::reserve'') else Inr ())"

definition row_ok :: "int \<Rightarrow> unit result" where
  "row_ok width =
     (if 0x1FFFFFFFFFFFFFFF < (word_of_int width :: u64)
      then Inl (LengthError ''cannot create std::vector larger than max_size()'') else Inr ())"

text \<open>The two nested loops: each round fills \<open>row\<close> and appends it.\<close>

fun row_loop :: "(int \<Rightarrow> int \<Rightarrow> u32) \<Rightarrow> int \<Rightarrow> nat \<Rightarrow> byte list \<Rightarrow> byte list" where
  "row_loop pix width 0 out = out"
| "row_loop pix width (Suc k) out =
     append_floats (row_loop pix width k out) (map (\<lambda>x. pix (int x) (int k)) [0..<nat width])"

definition gen_map :: "(int \<Rightarrow> int \<Rightarrow> u32) \<Rightarrow> int \<Rightarrow> int \<Rightarrow> byte list result" where
  "gen_map pix width height =
     rbind (reserve_ok width height) (\<lambda>_. rbind (row_ok width) (\<lambda>_.
       Inr (row_loop pix width (nat height) [])))"

definition depth_pixel :: "fp_ops \<Rightarrow> int \<Rightarrow> int \<Rightarrow> u64 \<Rightarrow> int \<Rightarrow> int \<Rightarrow> u32" where
  "depth_pixel F width height frame_index x y =
     (let t = d_mul F (d_of_int F (uint frame_index)) dbl_0_05;
          nx = d_div F (d_of_int F x) (d_of_int F width);
          ny = d_div F (d_of_int F y) (d_of_int F height);
          d = f_add F flt_0_5 (f_mul F flt_0_5 (f_of_d F
                (d_mul F (d_sin F (d_add F (d_mul F nx dbl_6_0) t))
                         (d_cos F (d_add F (d_mul F ny dbl_4_0) t)))))
      in f_add F flt_0_3 (f_mul F flt_0_7 d))"

definition generate_depth :: "fp_ops \<Rightarrow> int \<Rightarrow> int \<Rightarrow> u64 \<Rightarrow> byte list result" where
  "generate_depth F width height frame_index =
     gen_map (depth_pixel F width height frame_index) width height"

definition disparity_pixel :: "fp_ops \<Rightarrow> u64 \<Rightarrow> int \<Rightarrow> int \<Rightarrow> u32" where
  "disparity_pixel F frame_index x y =
     (let t = d_mul F (d_of_int F (uint frame_index)) dbl_0_05
      in f_of_d F (d_sub F
           (d_add F dbl_32_0 (d_mul F dbl_16_0 (d_sin F (d_add F (d_mul F (d_of_int F x) dbl_0_05) t))))
           (d_mul F dbl_8_0 (d_cos F (d_add F (d_mul F (d_of_int F y) dbl_0_07) t)))))"

definition generate_disparity :: "fp_ops \<Rightarrow> int \<Rightarrow> int \<Rightarrow> u64 \<Rightarrow> byte list result" where
  "generate_disparity F width height frame_index =
     gen_map (disparity_pixel F frame_index) width height"

definition confidence_pixel :: "fp_ops \<Rightarrow> u64 \<Rightarrow> int \<Rightarrow> int \<Rightarrow> u32" where
  "confidence_pixel F frame_index x y =
     (let t = d_mul F (d_of_int F (uint frame_index)) dbl_0_03;
          c = f_add F flt_0_5 (f_mul F flt_0_5 (f_of_d F (d_sin F
                (d_add F (d_add F (d_mul F (d_of_int F x) dbl_0_02) (d_mul F (d_of_int F y) dbl_0_02)) t))))
      in f_min flt_1_0 (f_max flt_0_0 c))"

definition generate_confidence :: "fp_ops \<Rightarrow> int \<Rightarrow> int \<Rightarrow> u64 \<Rightarrow> byte list result" where
  "generate_confidence F width height frame_index =
     gen_map (confidence_pixel F frame_index) width height"

section \<open>Point clouds\<close>

definition points_of_mode :: "string \<Rightarrow> nat" where
  "points_of_mode depth_mode =
     (if depth_mode = ''NONE'' then 0
      else if depth_mode = ''PERFORMANCE'' then 5000
      else if depth_mode = ''NEURAL_LIGHT'' then 10000
      else if depth_mode = ''QUALITY'' then 20000
      else if depth_mode = ''NEURAL'' then 40000
      else if depth_mode = ''ULTRA'' then 60000
      else if depth_mode = ''NEURAL_PLUS'' then 80000
      else 40000)"

definition cloud_point :: "fp_ops \<Rightarrow> u64 \<Rightarrow> nat \<Rightarrow> nat \<Rightarrow> u32 list" where
  "cloud_point F frame_index points i =
     (let t = d_mul F (d_of_int F (uint frame_index)) dbl_0_05;
          a = d_mul F (d_div F (d_of_int F (int i)) (d_of_int F (int points))) dbl_6_2831853;
          r = d_add F dbl_1_0 (d_mul F dbl_0_5 (d_sin F (d_add F (d_mul F a dbl_3_0) t)))
      in [f_of_d F (d_mul F r (d_cos F (d_add F a t))),
          f_of_d F (d_mul F r (d_sin F (d_add F a t))),
          f_of_d F (d_mul F (d_cos F (d_add F (d_mul F a dbl_2_0) t)) dbl_2_0),
          f_div F (f_of_int F (int i)) (f_of_int F (int points))])"

fun cloud_loop :: "fp_ops \<Rightarrow> u64 \<Rightarrow> nat \<Rightarrow> nat \<Rightarrow> byte list \<Rightarrow> byte list" where
  "cloud_loop F frame_index points 0 out = out"
| "cloud_loop F frame_index points (Suc i) out =
     append_floats (cloud_loop F frame_index points i out) (cloud_point F frame_index points i)"

definition generate_pointcloud :: "fp_ops \<Rightarrow> string \<Rightarrow> u64 \<Rightarrow> byte list" where
  "generate_pointcloud F depth_mode frame_index =
     (let points = points_of_mode depth_mode in cloud_loop F frame_index points points [])"

section \<open>Sensor samples\<close>

definition text_bytes :: "string \<Rightarrow> byte list" where
  "text_bytes s = map ascii s"

definition generate_imu :: "fp_ops \<Rightarrow> json_lib \<Rightarrow> u64 \<Rightarrow> byte list result" where
  "generate_imu F L frame_index =
     (let t = d_mul F (d_of_int F (uint frame_index)) dbl_0_05;
          j = jobj [(''accel'', JArr [JFloat (d_mul F dbl_0_1 (d_sin F t)),
                                      JFloat (d_mul F dbl_0_1 (d_cos F t)), JFloat dbl_9_81]),
                    (''gyro'', JArr [JFloat (d_mul F dbl_0_01 (d_sin F t)),
                                     JFloat (d_mul F dbl_0_01 (d_cos F t)), JFloat dbl_0_0]),
                    (''frame_index'', JInt (uint frame_index))]
      in rbind (jl_dump L j) (\<lambda>s. Inr (text_bytes s)))"

definition generate_temperature :: "fp_ops \<Rightarrow> json_lib \<Rightarrow> u64 \<Rightarrow> byte list result" where
  "generate_temperature F L frame_index =
     (let j = jobj [(''celsius'', JFloat (d_add F dbl_38_0 (d_mul F dbl_0_5
                       (d_sin F (d_mul F (d_of_int F (uint frame_index)) dbl_0_01))))),
                    (''frame_index'', JInt (uint frame_index))]
      in rbind (jl_dump L j) (\<lambda>s. Inr (text_bytes s)))"

definition generate_magnetometer :: "fp_ops \<Rightarrow> json_lib \<Rightarrow> u64 \<Rightarrow> byte list result" where
  "generate_magnetometer F L frame_index =
     (let t = d_mul F (d_of_int F (uint frame_index)) dbl_0_02;
          j = jobj [(''field'', JArr [JFloat (d_mul F dbl_0_3 (d_sin F t)),
                                      JFloat (d_mul F dbl_0_3 (d_cos F t)), JFloat dbl_neg_0_45]),
                    (''frame_index'', JInt (uint frame_index))]
      in rbind (jl_dump L j) (\<lambda>s. Inr (text_bytes s)))"

definition generate_barometer :: "fp_ops \<Rightarrow> json_lib \<Rightarrow> u64 \<Rightarrow> byte list result" where
  "generate_barometer F L frame_index =
     (let j = jobj [(''pressure_hpa'', JFloat (d_add F dbl_1013_25 (d_mul F dbl_0_2
                       (d_sin F (d_mul F (d_of_int F (uint frame_index)) dbl_0_01))))),
                    (''frame_index'', JInt (uint frame_index))]
      in rbind (jl_dump L j) (\<lambda>s. Inr (text_bytes s)))"

section \<open>Sizes and ranges\<close>

lemma length_f_bytes [simp]: "length (f_bytes x) = 4"
  by (simp add: f_bytes_def)

lemma length_append_floats [simp]: "length (append_floats out vals) = length out + 4 * length vals"
  by (induction vals arbitrary: out) (simp_all add: append_floats_def)

lemma length_row_loop: "length (row_loop pix width k out) = length out + 4 * (nat width * k)"
  by (induction k) (simp_all add: algebra_simps)

text \<open>The float at pixel \<open>(x, y)\<close> of a map is at byte \<open>4 * (y * width + x)\<close>.\<close>

lemma concat_f_bytes_at:
  "i < length vals \<Longrightarrow> take 4 (drop (4 * i) (concat (map f_bytes vals))) = f_bytes (vals ! i)"
proof (induction vals arbitrary: i)
  case (Cons v vals)
  then show ?case by (cases i) simp_all
qed simp

lemma row_loop_concat:
  "row_loop pix width k [] =
     concat (map f_bytes (concat (map (\<lambda>y. map (\<lambda>x. pix (int x) (int y)) [0..<nat width]) [0..<k])))"
  by (induction k) (simp_all add: append_floats_def)

lemma nested_nth:
  assumes "x < w" "y < h"
  shows "concat (map (\<lambda>y. map (\<lambda>x. g x y) [0..<w]) [0..<h]) ! (y * w + x) = g x y \<and>
    y * w + x < length (concat (map (\<lambda>y. map (\<lambda>x. g x y) [0..<w]) [0..<h]))"
  using assms(2)
proof (induction h)
  case (Suc h)
  have len: "length (concat (map (\<lambda>y. map (\<lambda>x. g x y) [0..<w]) [0..<h])) = h * w" for h
    by (induction h) simp_all
  show ?case
  proof (cases "y < h")
    case True
    with Suc.IH show ?thesis by (auto simp: nth_append)
  next
    case False
    then have "y = h" using Suc.prems by simp
    with assms(1) len [of h] show ?thesis by (simp add: nth_append)
  qed
qed simp

lemma uint64_of_int: "0 \<le> n \<Longrightarrow> n < 2 ^ 64 \<Longrightarrow> uint (word_of_int n :: u64) = n"
  by (simp add: uint_word_of_int)

lemma reserve_ok_small:
  assumes "0 \<le> w" "0 \<le> h" "w * h < 2 ^ 61"
  shows "reserve_ok w h = Inr ()"
proof -
  have e: "(word_of_int w * word_of_int h * 4 :: u64) = word_of_int (w * h * 4)" by simp
  have pw: "(2 :: int) ^ 64 = 8 * 2 ^ 61" by simp
  have "0 \<le> w * h" using assms(1,2) by simp
  then have "uint (word_of_int (w * h * 4) :: u64) = w * h * 4"
    using assms(3) pw by (intro uint64_of_int) linarith+
  then have "\<not> 0x7FFFFFFFFFFFFFFF < (word_of_int (w * h * 4) :: u64)"
    using assms(3) unfolding word_less_alt by (simp only:) simp
  then show ?thesis by (simp only: reserve_ok_def e if_False)
qed

lemma row_ok_small: "0 \<le> w \<Longrightarrow> w < 2 ^ 31 \<Longrightarrow> row_ok w = Inr ()"
  using uint64_of_int [of w] by (simp add: row_ok_def word_less_alt)

lemma row_ok_negative:
  assumes "w < 0" "- (2 ^ 31) \<le> w"
  shows "row_ok w = Inl (LengthError ''cannot create std::vector larger than max_size()'')"
proof -
  have "(w + 2 ^ 64) mod 2 ^ 64 = w + 2 ^ 64"
    using assms by (intro mod_pos_pos_trivial) simp_all
  moreover have "(w + 2 ^ 64) mod 2 ^ 64 = w mod 2 ^ 64" by simp
  ultimately have "w mod 2 ^ 64 = w + 2 ^ 64" by linarith
  then have "uint (word_of_int w :: u64) = w + 2 ^ 64" by (simp add: uint_word_of_int)
  then show ?thesis using assms by (simp add: row_ok_def word_less_alt)
qed

lemma gen_map_spec:
  assumes "0 \<le> w" "w < 2 ^ 31" "0 \<le> h" "w * h < 2 ^ 61"
  shows "\<exists>out. gen_map pix w h = Inr out \<and> int (length out) = 4 * w * h \<and>
    (\<forall>x y. 0 \<le> x \<and> x < w \<and> 0 \<le> y \<and> y < h \<longrightarrow>
       take 4 (drop (nat (4 * (y * w + x))) out) = f_bytes (pix x y))"
proof (intro exI conjI allI impI)
  show "gen_map pix w h = Inr (row_loop pix w (nat h) [])"
    using reserve_ok_small [of w h] row_ok_small [of w] assms by (simp add: gen_map_def)
  show "int (length (row_loop pix w (nat h) [])) = 4 * w * h"
    using assms by (simp add: length_row_loop)
  fix x y
  assume xy: "0 \<le> x \<and> x < w \<and> 0 \<le> y \<and> y < h"
  let ?vals = "concat (map (\<lambda>y. map (\<lambda>x. pix (int x) (int y)) [0..<nat w]) [0..<nat h])"
  have i: "nat (4 * (y * w + x)) = 4 * (nat y * nat w + nat x)"
    using xy assms(1) by (simp add: nat_mult_distrib nat_add_distrib)
  have "nat x < nat w" "nat y < nat h" using xy by simp_all
  from nested_nth [OF this, of "\<lambda>x y. pix (int x) (int y)"] xy
  have "?vals ! (nat y * nat w + nat x) = pix x y" "nat y * nat w + nat x < length ?vals"
    by simp_all
  then show "take 4 (drop (nat (4 * (y * w + x))) (row_loop pix w (nat h) [])) = f_bytes (pix x y)"
    unfolding row_loop_concat i by (simp only: concat_f_bytes_at)
qed

lemma length_cloud_loop: "length (cloud_loop F fi points k out) = length out + 16 * k"
  by (induction k) (simp_all add: cloud_point_def Let_def)

text \<open>
  C37. Layout: for a non-negative size (of fewer than \<open>2^61\<close> pixels) the three maps are
  produced without an exception, hold exactly \<open>4 * width * height\<close> bytes, and the four bytes at
  \<open>4 * (y * width + x)\<close> are the float of pixel \<open>(x, y)\<close>; a point cloud holds 16 bytes for each
  of the points of its depth mode.
\<close>

theorem generated_maps_layout:
  assumes "0 \<le> w" "w < 2 ^ 31" "0 \<le> h" "w * h < 2 ^ 61"
    and "(gen, pix) \<in> {(generate_depth F w h i, depth_pixel F w h i),
                        (generate_disparity F w h i, disparity_pixel F i),
                        (generate_confidence F w h i, confidence_pixel F i)}"
  shows "(\<exists>out. gen = Inr out \<and> int (length out) = 4 * w * h \<and>
    (\<forall>x y. 0 \<le> x \<and> x < w \<and> 0 \<le> y \<and> y < h \<longrightarrow>
       take 4 (drop (nat (4 * (y * w + x))) out) = f_bytes (pix x y))) \<and>
    length (generate_pointcloud F mode i) = 16 * points_of_mode mode"
  using assms(5) gen_map_spec [OF assms(1-4)]
  by (auto simp: generate_depth_def generate_disparity_def generate_confidence_def
      generate_pointcloud_def Let_def length_cloud_loop)

text \<open>
  The confidence clamp: whatever the floating-point arithmetic computes, even a NaN or an
  infinity, every pixel of a confidence map is a number between 0 and 1.
\<close>

theorem confidence_in_unit_interval:
  "\<not> f_nan (confidence_pixel F i x y) \<and>
   0 \<le> f_key (confidence_pixel F i x y) \<and> f_key (confidence_pixel F i x y) \<le> f_key flt_1_0"
proof -
  have c: "\<not> f_nan flt_0_0" "\<not> f_nan flt_1_0" "f_key flt_0_0 = 0" "f_key flt_1_0 = 0x3F800000"
    by (simp_all add: f_nan_def f_key_def flt_0_0_def flt_1_0_def)
  show ?thesis
    using c by (auto simp: confidence_pixel_def Let_def f_min_def f_max_def f_lt_def)
qed

text \<open>
  A negative width is an exception in all three map generators, and no configured value
  is: the loader accepts any \<open>int\<close> as \<open>image_width\<close>.
\<close>

theorem negative_width_throws:
  assumes "w < 0" "- (2 ^ 31) \<le> w"
  shows "\<exists>msg. generate_depth F w h i = Inl (LengthError msg) \<and>
    generate_disparity F w h i = Inl (LengthError msg) \<and>
    generate_confidence F w h i = Inl (LengthError msg)"
  using row_ok_negative [OF assms]
  by (auto simp: generate_depth_def generate_disparity_def generate_confidence_def gen_map_def
      reserve_ok_def)

text \<open>An arithmetic that always answers a NaN, and one for the witnesses.\<close>

definition fp_nan_ops :: fp_ops where
  "fp_nan_ops = \<lparr>d_add = (\<lambda>_ _. 0x7FF8000000000000), d_sub = (\<lambda>_ _. 0x7FF8000000000000),
     d_mul = (\<lambda>_ _. 0x7FF8000000000000), d_div = (\<lambda>_ _. 0x7FF8000000000000),
     d_sin = (\<lambda>_. 0x7FF8000000000000), d_cos = (\<lambda>_. 0x7FF8000000000000),
     d_of_int = (\<lambda>_. 0x7FF8000000000000), f_of_d = (\<lambda>_. 0x7FC00000), f_of_int = (\<lambda>_. 0x7FC00000),
     f_add = (\<lambda>_ _. 0x7FC00000), f_mul = (\<lambda>_ _. 0x7FC00000), f_div = (\<lambda>_ _. 0x7FC00000)\<rparr>"

theorem generated_maps_layout_witness:
  "\<exists>out. generate_depth fp_nan_ops 1280 720 5 = Inr out \<and> length out = 3686400"
  using generated_maps_layout [of 1280 720 "generate_depth fp_nan_ops 1280 720 5"
      "depth_pixel fp_nan_ops 1280 720 5" fp_nan_ops 5 "''NEURAL''"]
  by auto

theorem negative_width_throws_witness:
  "\<exists>msg. generate_confidence fp_nan_ops (- 1) 720 0 = Inl (LengthError msg)"
  using negative_width_throws [of "- 1" fp_nan_ops 720 0] by auto

end
