(* ===== verification/Capture.thy ===== *)
theory Capture
  imports ChannelManager Parameters Pipeline Generators
begin

text \<open>
  \<open>include/sim_vision/capture/CaptureEngine.h\<close> and \<open>src/capture/CaptureEngine.cpp\<close>: building
  a frame of one group, one round of the capture loop, and start/stop. Other threads change
  channels and parameters while a round runs: the answers that \<open>is_active\<close>, \<open>group_active\<close> and
  the parameter table give during the round, its clock readings and the time it took are the
  round's environment.
\<close>

section \<open>Frames\<close>

definition make_bundle :: "data_type \<Rightarrow> string \<Rightarrow> int \<Rightarrow> int \<Rightarrow> data_bundle" where
  "make_bundle t part_id ts_sec ts_nsec =
     \<lparr>b_type = t, b_part_id = part_id, b_data = [], b_ts_sec = ts_sec, b_ts_nsec = ts_nsec,
      b_source = version_tag, b_format = [], b_is_encoded = False, b_channels = 0, b_code = [],
      b_right_channels = 0, b_right_code = [], b_width = 0, b_height = 0\<rparr>"

text \<open>The four length bytes, then the two images.\<close>

definition stereo_payload :: "byte list \<Rightarrow> byte list \<Rightarrow> byte list" where
  "stereo_payload l r =
     (let lsize = (of_nat (length l) :: u32)
      in [ucast (lsize AND 0xFF), ucast (drop_bit 8 lsize AND 0xFF),
          ucast (drop_bit 16 lsize AND 0xFF), ucast (drop_bit 24 lsize AND 0xFF)] @ l @ r)"

definition stereo_bundle :: "stereo_pair \<Rightarrow> int \<Rightarrow> int \<Rightarrow> data_bundle" where
  "stereo_bundle pair ts_sec ts_nsec =
     (make_bundle StereoImage ''stereo_image'' ts_sec ts_nsec)
       \<lparr>b_data := stereo_payload (sp_left pair) (sp_right pair),
        b_format := im_format (sp_left_info pair),
        b_is_encoded := im_is_encoded (sp_left_info pair),
        b_channels := im_channels (sp_left_info pair),
        b_code := im_code (sp_left_info pair),
        b_right_channels := im_channels (sp_right_info pair),
        b_right_code := im_code (sp_right_info pair),
        b_width := im_width (sp_left_info pair),
        b_height := im_height (sp_left_info pair)\<rparr>"

text \<open>What the generators are run with.\<close>

record gen_env =
  ge_fp :: fp_ops
  ge_json :: json_lib

definition depth_mode_of :: "params \<Rightarrow> string" where
  "depth_mode_of pm =
     (case param_get ''depth_mode'' pm of
        None \<Rightarrow> ''NEURAL''
      | Some p \<Rightarrow> (case p_value p of Enum s \<Rightarrow> s | _ \<Rightarrow> ''NEURAL''))"

text \<open>
  The \<open>switch\<close>: the bundle of one data type, if any, and the source afterwards (a stereo image
  moves its cursor). A stereo image without a loaded pair gives no bundle.
\<close>

fun bundle_of ::
    "gen_env \<Rightarrow> string \<Rightarrow> int \<Rightarrow> int \<Rightarrow> u64 \<Rightarrow> data_type \<Rightarrow> data_source \<Rightarrow>
     (data_bundle option \<times> data_source) result" where
  "bundle_of G dm ts_sec ts_nsec fi StereoImage ds =
     (case next_stereo ds of
        None \<Rightarrow> Inr (None, ds)
      | Some (pair, ds') \<Rightarrow> Inr (Some (stereo_bundle pair ts_sec ts_nsec), ds'))"
| "bundle_of G dm ts_sec ts_nsec fi DepthMap ds =
     rbind (generate_depth (ge_fp G) (ds_width ds) (ds_height ds) fi) (\<lambda>d.
       Inr (Some ((make_bundle DepthMap ''depth_map'' ts_sec ts_nsec)
                    \<lparr>b_data := d, b_format := ''raw_f32''\<rparr>), ds))"
| "bundle_of G dm ts_sec ts_nsec fi DisparityMap ds =
     rbind (generate_disparity (ge_fp G) (ds_width ds) (ds_height ds) fi) (\<lambda>d.
       Inr (Some ((make_bundle DisparityMap ''disparity_map'' ts_sec ts_nsec)
                    \<lparr>b_data := d, b_format := ''raw_f32''\<rparr>), ds))"
| "bundle_of G dm ts_sec ts_nsec fi ConfidenceMap ds =
     rbind (generate_confidence (ge_fp G) (ds_width ds) (ds_height ds) fi) (\<lambda>d.
       Inr (Some ((make_bundle ConfidenceMap ''confidence_map'' ts_sec ts_nsec)
                    \<lparr>b_data := d, b_format := ''raw_f32''\<rparr>), ds))"
| "bundle_of G dm ts_sec ts_nsec fi PointCloud ds =
     Inr (Some ((make_bundle PointCloud ''point_cloud'' ts_sec ts_nsec)
                  \<lparr>b_data := generate_pointcloud (ge_fp G) dm fi, b_format := ''raw_f32x4''\<rparr>), ds)"
| "bundle_of G dm ts_sec ts_nsec fi IMU ds =
     rbind (generate_imu (ge_fp G) (ge_json G) fi) (\<lambda>d.
       Inr (Some ((make_bundle IMU ''imu'' ts_sec ts_nsec)\<lparr>b_data := d, b_format := ''json''\<rparr>), ds))"
| "bundle_of G dm ts_sec ts_nsec fi Temperature ds =
     rbind (generate_temperature (ge_fp G) (ge_json G) fi) (\<lambda>d.
       Inr (Some ((make_bundle Temperature ''temperature'' ts_sec ts_nsec)
                    \<lparr>b_data := d, b_format := ''json''\<rparr>), ds))"
| "bundle_of G dm ts_sec ts_nsec fi Magnetometer ds =
     rbind (generate_magnetometer (ge_fp G) (ge_json G) fi) (\<lambda>d.
       Inr (Some ((make_bundle Magnetometer ''magnetometer'' ts_sec ts_nsec)
                    \<lparr>b_data := d, b_format := ''json''\<rparr>), ds))"
| "bundle_of G dm ts_sec ts_nsec fi Barometer ds =
     rbind (generate_barometer (ge_fp G) (ge_json G) fi) (\<lambda>d.
       Inr (Some ((make_bundle Barometer ''barometer'' ts_sec ts_nsec)
                    \<lparr>b_data := d, b_format := ''json''\<rparr>), ds))"

text \<open>The loop over the members of the group; \<open>active\<close> is what \<open>is_active\<close> answers.\<close>

fun bundles_of ::
    "gen_env \<Rightarrow> string \<Rightarrow> int \<Rightarrow> int \<Rightarrow> u64 \<Rightarrow> (data_type \<Rightarrow> bool) \<Rightarrow> data_type list \<Rightarrow> data_source \<Rightarrow>
     (data_bundle list \<times> data_source) result" where
  "bundles_of G dm ts_sec ts_nsec fi active [] ds = Inr ([], ds)"
| "bundles_of G dm ts_sec ts_nsec fi active (t # ts) ds =
     (if \<not> active t then bundles_of G dm ts_sec ts_nsec fi active ts ds
      else
        rbind (bundle_of G dm ts_sec ts_nsec fi t ds) (\<lambda>(b, ds1).
        rbind (bundles_of G dm ts_sec ts_nsec fi active ts ds1) (\<lambda>(bs, ds2).
          Inr (case b of None \<Rightarrow> bs | Some x \<Rightarrow> x # bs, ds2))))"

definition build_frame ::
    "gen_env \<Rightarrow> params \<Rightarrow> (data_type \<Rightarrow> bool) \<Rightarrow> data_group \<Rightarrow> int \<Rightarrow> int \<Rightarrow> u64 \<Rightarrow> string \<Rightarrow>
     data_source \<Rightarrow> (channel_frame \<times> data_source) result" where
  "build_frame G pm active grp ts_sec ts_nsec frame_index pub_id ds =
     rbind (bundles_of G (depth_mode_of pm) ts_sec ts_nsec frame_index active
              (group_members grp) ds) (\<lambda>(bs, ds').
       Inr (\<lparr>cf_group = grp, cf_ts_sec = ts_sec, cf_ts_nsec = ts_nsec, cf_pair_id = frame_index,
             cf_frame_index = frame_index, cf_pub_id = pub_id, cf_bundles = bs\<rparr>, ds'))"

section \<open>The capture loop\<close>

record engine =
  ce_running :: bool
  ce_frame_index :: u64
  ce_frames_produced :: u64
  ce_source :: data_source
  ce_pipeline :: data_pipeline

record tick_env =
  te_group :: "data_group \<Rightarrow> bool"
  te_active :: "data_type \<Rightarrow> bool"
  te_build_params :: "data_group \<Rightarrow> params"
  te_fps_params :: params
  te_clock_sec :: int
  te_clock_nsec :: int
  te_elapsed_ms :: int

definition tick_group ::
    "gen_env \<Rightarrow> tick_env \<Rightarrow> data_group \<Rightarrow> engine \<Rightarrow> engine result" where
  "tick_group G E g ce =
     (if \<not> te_group E g then Inr ce
      else
        rbind (build_frame G (te_build_params E g) (te_active E) g
                 (now_unix_sec (te_clock_sec E)) (now_unix_nsec (te_clock_nsec E))
                 (ce_frame_index ce) [] (ce_source ce)) (\<lambda>(f, ds).
          if cf_bundles f \<noteq> []
          then Inr (ce\<lparr>ce_source := ds,
                       ce_pipeline := snd (dp_push g (Some f) (ce_pipeline ce))\<rparr>)
          else Inr (ce\<lparr>ce_source := ds\<rparr>)))"

definition frame_rate :: "params \<Rightarrow> int" where
  "frame_rate pm =
     (let fps = (case param_get ''fps'' pm of
                   None \<Rightarrow> 15
                 | Some p \<Rightarrow> (case p_value p of Integer n \<Rightarrow> to_int32 n | _ \<Rightarrow> 15));
          fps = (if fps < 1 then 1 else fps)
      in if 240 < fps then 240 else fps)"

text \<open>How long the pacer sleeps, in milliseconds; 0 when the round took longer than its period.\<close>

definition pace_ms :: "params \<Rightarrow> int \<Rightarrow> int" where
  "pace_ms pm elapsed_ms =
     (let remaining = 1000 div frame_rate pm - elapsed_ms
      in if 0 < remaining then remaining else 0)"

text \<open>One round of \<open>run\<close> and the time it sleeps. An exception ends the thread.\<close>

definition tick :: "gen_env \<Rightarrow> tick_env \<Rightarrow> engine \<Rightarrow> (engine \<times> int) result" where
  "tick G E ce =
     rbind (tick_group G E Visual2D ce) (\<lambda>c1.
     rbind (tick_group G E Visual3D c1) (\<lambda>c2.
     rbind (tick_group G E SensorData c2) (\<lambda>c3.
       Inr (c3\<lparr>ce_frame_index := ce_frame_index c3 + 1,
               ce_frames_produced := ce_frames_produced c3 + 1\<rparr>,
            pace_ms (te_fps_params E) (te_elapsed_ms E)))))"

text \<open>
  \<open>start\<close> returns \<open>false\<close> when already running; the thread begins with frame index 0. \<open>stop\<close>
  ends the loop after the current round.
\<close>

definition engine_start :: "engine \<Rightarrow> bool \<times> engine" where
  "engine_start ce =
     (if ce_running ce then (False, ce)
      else (True, ce\<lparr>ce_running := True, ce_frame_index := 0\<rparr>))"

definition engine_stop :: "engine \<Rightarrow> engine" where
  "engine_stop ce = (if \<not> ce_running ce then ce else ce\<lparr>ce_running := False\<rparr>)"

definition engine_new :: "data_source \<Rightarrow> data_pipeline \<Rightarrow> engine" where
  "engine_new ds dp = \<lparr>ce_running = False, ce_frame_index = 0, ce_frames_produced = 0,
                       ce_source = ds, ce_pipeline = dp\<rparr>"

fun run_ticks :: "gen_env \<Rightarrow> tick_env list \<Rightarrow> engine \<Rightarrow> engine result" where
  "run_ticks G [] ce = Inr ce"
| "run_ticks G (E # Es) ce = rbind (tick G E ce) (\<lambda>(ce', _). run_ticks G Es ce')"

section \<open>The stereo payload is read back\<close>

lemma bit_byte_at:
  assumes "n < 32"
  shows "bit (push_bit k (ucast (ucast (drop_bit k w AND 0xFF) :: byte)) :: u32) n \<longleftrightarrow>
    k \<le> n \<and> n < k + 8 \<and> bit (w :: u32) n"
proof -
  have e: "(0xFF :: u32) = mask 8" by (simp add: mask_eq_exp_minus_1)
  have "bit (ucast (ucast (drop_bit k w AND mask 8) :: byte) :: u32) m \<longleftrightarrow> m < 8 \<and> bit w (k + m)"
    if "m < 32" for m
    using that by (auto simp: bit_ucast_iff bit_and_iff bit_mask_iff bit_drop_bit_eq)
  from this [of "n - k"] assms show ?thesis unfolding e by (auto simp: bit_push_bit_iff)
qed

lemma word32_bytes:
  "ucast (ucast (w AND 0xFF) :: byte) OR push_bit 8 (ucast (ucast (drop_bit 8 w AND 0xFF) :: byte)) OR
   push_bit 16 (ucast (ucast (drop_bit 16 w AND 0xFF) :: byte)) OR
   push_bit 24 (ucast (ucast (drop_bit 24 w AND 0xFF) :: byte)) = (w :: u32)" (is "?l = w")
proof (rule bit_word_eqI)
  fix n
  assume "n < LENGTH(32)"
  then have n: "n < 32" by simp
  have z: "bit (ucast (ucast (w AND 0xFF) :: byte) :: u32) n \<longleftrightarrow> n < 8 \<and> bit w n"
    using bit_byte_at [OF n, of 0 w] by simp
  have "bit ?l n \<longleftrightarrow> (n < 8 \<and> bit w n) \<or> (8 \<le> n \<and> n < 8 + 8 \<and> bit w n) \<or>
      (16 \<le> n \<and> n < 16 + 8 \<and> bit w n) \<or> (24 \<le> n \<and> n < 24 + 8 \<and> bit w n)"
    by (simp only: bit_or_iff bit_byte_at [OF n] z disj_assoc)
  then show "bit ?l n \<longleftrightarrow> bit w n" using n by auto
qed

text \<open>
  The stereo payload is self-delimiting: for a left image below 4 GiB, the little-endian
  word at its start is the size of the left image, the left image follows it, and the rest is
  the right image.
\<close>

theorem stereo_payload_roundtrip:
  assumes "length l < 2 ^ 32"
  shows "\<exists>n. le32 (stereo_payload l r) 0 = Inr n \<and>
    take (unat n) (drop 4 (stereo_payload l r)) = l \<and> drop (4 + unat n) (stereo_payload l r) = r"
proof -
  have u: "unat (of_nat (length l) :: u32) = length l" using assms by (simp add: unat_of_nat)
  have "le32 (stereo_payload l r) 0 = Inr (of_nat (length l))"
    using word32_bytes [of "of_nat (length l)"]
    by (simp add: le32_in stereo_payload_def Let_def numeral_3_eq_3)
  moreover obtain p where "stereo_payload l r = p @ l @ r" "length p = 4"
    by (simp add: stereo_payload_def Let_def)
  ultimately show ?thesis by (simp add: u)
qed

theorem stereo_payload_roundtrip_witness:
  "\<exists>n. le32 (stereo_payload [1, 2, 3] [4]) 0 = Inr n \<and> drop (4 + unat n) (stereo_payload [1, 2, 3] [4]) = [4]"
  using stereo_payload_roundtrip [of "[1, 2, 3]" "[4]"] by auto

section \<open>What a round produces\<close>

text \<open>The types a frame of group \<open>g\<close> carries.\<close>

definition carried :: "(data_type \<Rightarrow> bool) \<Rightarrow> data_source \<Rightarrow> data_type list \<Rightarrow> data_type list" where
  "carried active ds ts = filter (\<lambda>t. active t \<and> (t = StereoImage \<longrightarrow> ds_pairs ds \<noteq> [])) ts"

definition same_images :: "data_source \<Rightarrow> data_source \<Rightarrow> bool" where
  "same_images ds ds' \<longleftrightarrow> ds_pairs ds' = ds_pairs ds \<and> ds_width ds' = ds_width ds \<and>
     ds_height ds' = ds_height ds"

lemma same_images_refl [simp]: "same_images ds ds"
  by (simp add: same_images_def)

lemma same_images_trans: "same_images a b \<Longrightarrow> same_images b c \<Longrightarrow> same_images a c"
  by (simp add: same_images_def)

lemma carried_same: "same_images ds ds' \<Longrightarrow> carried active ds' ts = carried active ds ts"
  by (simp add: carried_def same_images_def)

lemma bundle_of_spec:
  assumes "bundle_of G dm s n fi t ds = Inr (b, ds')"
  shows "same_images ds ds' \<and> (b = None \<longleftrightarrow> t = StereoImage \<and> ds_pairs ds = []) \<and>
    (\<forall>x. b = Some x \<longrightarrow> b_type x = t \<and> b_ts_sec x = s \<and> b_ts_nsec x = n)"
  using assms
  by (cases t)
    (auto simp: rbind_eq_Inr next_stereo_def same_images_def make_bundle_def stereo_bundle_def
      split: option.splits if_splits)

lemma bundles_of_spec:
  assumes "bundles_of G dm s n fi active ts ds = Inr (bs, ds')"
  shows "same_images ds ds' \<and> map b_type bs = carried active ds ts \<and>
    (\<forall>x \<in> set bs. b_ts_sec x = s \<and> b_ts_nsec x = n)"
  using assms
proof (induction ts arbitrary: ds bs)
  case Nil
  then show ?case by (simp add: carried_def)
next
  case (Cons t ts)
  show ?case
  proof (cases "active t")
    case False
    with Cons show ?thesis by (auto simp: carried_def)
  next
    case True
    then obtain b ds1 bs2 where st: "bundle_of G dm s n fi t ds = Inr (b, ds1)"
      "bundles_of G dm s n fi active ts ds1 = Inr (bs2, ds')"
      "bs = (case b of None \<Rightarrow> bs2 | Some x \<Rightarrow> x # bs2)"
      using Cons.prems by (auto simp: rbind_eq_Inr)
    note b = bundle_of_spec [OF st(1)] and rest = Cons.IH [OF st(2)]
    have "carried active ds1 ts = carried active ds ts" using b by (simp add: carried_same)
    with b rest True st(3) show ?thesis
      by (cases b) (auto simp: carried_def intro: same_images_trans)
  qed
qed

lemma build_frame_spec:
  assumes "build_frame G pm active g s n fi pid ds = Inr (f, ds')"
  shows "same_images ds ds' \<and> cf_group f = g \<and> cf_frame_index f = fi \<and> cf_pair_id f = fi \<and>
    cf_ts_sec f = s \<and> cf_ts_nsec f = n \<and> map b_type (cf_bundles f) = carried active ds (group_members g) \<and>
    (\<forall>x \<in> set (cf_bundles f). b_ts_sec x = s \<and> b_ts_nsec x = n)"
  using assms by (auto simp: build_frame_def rbind_eq_Inr dest: bundles_of_spec)

text \<open>The frame of a group, if the round has one, and what is known of it.\<close>

definition tick_frame_ok :: "tick_env \<Rightarrow> u64 \<Rightarrow> data_source \<Rightarrow> data_group \<Rightarrow> channel_frame \<Rightarrow> bool" where
  "tick_frame_ok E fi ds g f \<longleftrightarrow>
     cf_group f = g \<and> cf_frame_index f = fi \<and> cf_pair_id f = fi \<and>
     cf_ts_sec f = now_unix_sec (te_clock_sec E) \<and> cf_ts_nsec f = now_unix_nsec (te_clock_nsec E) \<and>
     map b_type (cf_bundles f) = carried (te_active E) ds (group_members g) \<and>
     (\<forall>x \<in> set (cf_bundles f). b_ts_sec x = cf_ts_sec f \<and> b_ts_nsec x = cf_ts_nsec f)"

definition tick_sends :: "tick_env \<Rightarrow> data_source \<Rightarrow> data_group \<Rightarrow> bool" where
  "tick_sends E ds g \<longleftrightarrow> te_group E g \<and> carried (te_active E) ds (group_members g) \<noteq> []"

lemma tick_group_spec:
  assumes "tick_group G E g ce = Inr ce'"
  shows "same_images (ce_source ce) (ce_source ce') \<and>
    ce_frame_index ce' = ce_frame_index ce \<and> ce_frames_produced ce' = ce_frames_produced ce \<and>
    ce_running ce' = ce_running ce \<and>
    (\<exists>fs. ce_pipeline ce' = snd (push_trace fs (ce_pipeline ce)) \<and>
       map fst fs = (if tick_sends E (ce_source ce) g then [g] else []) \<and>
       (\<forall>(h, f) \<in> set fs. tick_frame_ok E (ce_frame_index ce) (ce_source ce) h f))"
proof (cases "te_group E g")
  case False
  with assms show ?thesis by (auto simp: tick_group_def tick_sends_def intro!: exI [of _ "[]"])
next
  case True
  then obtain f ds where bf: "build_frame G (te_build_params E g) (te_active E) g
      (now_unix_sec (te_clock_sec E)) (now_unix_nsec (te_clock_nsec E)) (ce_frame_index ce) []
      (ce_source ce) = Inr (f, ds)"
    and ce': "ce' = (if cf_bundles f \<noteq> []
      then ce\<lparr>ce_source := ds, ce_pipeline := snd (dp_push g (Some f) (ce_pipeline ce))\<rparr>
      else ce\<lparr>ce_source := ds\<rparr>)"
    using assms by (auto simp: tick_group_def rbind_eq_Inr split: if_splits)
  note b = build_frame_spec [OF bf]
  have ok: "tick_frame_ok E (ce_frame_index ce) (ce_source ce) g f"
    using b by (simp add: tick_frame_ok_def)
  have ne: "tick_sends E (ce_source ce) g \<longleftrightarrow> cf_bundles f \<noteq> []"
    using b True by (auto simp: tick_sends_def simp flip: map_is_Nil_conv [of b_type])
  have one: "snd (push_trace [(g, f)] dp) = snd (dp_push g (Some f) dp)" for dp
    using push_trace_snoc [of "[]" g f dp] by (simp add: Let_def)
  show ?thesis
  proof (cases "cf_bundles f = []")
    case True
    with b ce' ne show ?thesis by (auto intro!: exI [of _ "[]"])
  next
    case False
    with b ce' ne ok one show ?thesis by (auto intro!: exI [of _ "[(g, f)]"])
  qed
qed

lemma push_trace_append:
  "snd (push_trace (xs @ ys) dp) = snd (push_trace ys (snd (push_trace xs dp)))"
  by (simp add: push_trace_snd)

lemma tick_sends_same: "same_images ds ds' \<Longrightarrow> tick_sends E ds' g = tick_sends E ds g"
  by (simp add: tick_sends_def carried_same)

lemma tick_frame_ok_same: "same_images ds ds' \<Longrightarrow> tick_frame_ok E fi ds' g f = tick_frame_ok E fi ds g f"
  by (simp add: tick_frame_ok_def carried_same)

lemma tick_spec:
  assumes "tick G E ce = Inr (ce', ms)"
  shows "same_images (ce_source ce) (ce_source ce') \<and>
    ce_frame_index ce' = ce_frame_index ce + 1 \<and>
    ce_frames_produced ce' = ce_frames_produced ce + 1 \<and>
    (\<exists>fs. ce_pipeline ce' = snd (push_trace fs (ce_pipeline ce)) \<and>
       map fst fs = filter (tick_sends E (ce_source ce)) [Visual2D, Visual3D, SensorData] \<and>
       (\<forall>(h, f) \<in> set fs. tick_frame_ok E (ce_frame_index ce) (ce_source ce) h f))"
proof -
  obtain c1 c2 c3 where st: "tick_group G E Visual2D ce = Inr c1" "tick_group G E Visual3D c1 = Inr c2"
    "tick_group G E SensorData c2 = Inr c3"
    "ce' = c3\<lparr>ce_frame_index := ce_frame_index c3 + 1, ce_frames_produced := ce_frames_produced c3 + 1\<rparr>"
    using assms by (auto simp: tick_def rbind_eq_Inr)
  note t1 = tick_group_spec [OF st(1)] and t2 = tick_group_spec [OF st(2)]
    and t3 = tick_group_spec [OF st(3)]
  have s1: "same_images (ce_source ce) (ce_source c1)" and s2: "same_images (ce_source ce) (ce_source c2)"
    and s3: "same_images (ce_source ce) (ce_source c3)"
    using t1 t2 t3 same_images_trans by blast+
  obtain f1 where f1: "ce_pipeline c1 = snd (push_trace f1 (ce_pipeline ce))"
    "map fst f1 = (if tick_sends E (ce_source ce) Visual2D then [Visual2D] else [])"
    "\<forall>(h, f) \<in> set f1. tick_frame_ok E (ce_frame_index ce) (ce_source ce) h f"
    using t1 by blast
  obtain f2 where f2: "ce_pipeline c2 = snd (push_trace f2 (ce_pipeline c1))"
    "map fst f2 = (if tick_sends E (ce_source ce) Visual3D then [Visual3D] else [])"
    "\<forall>(h, f) \<in> set f2. tick_frame_ok E (ce_frame_index ce) (ce_source ce) h f"
    using t1 t2 by (auto simp: tick_sends_same [OF s1] tick_frame_ok_same [OF s1])
  obtain f3 where f3: "ce_pipeline c3 = snd (push_trace f3 (ce_pipeline c2))"
    "map fst f3 = (if tick_sends E (ce_source ce) SensorData then [SensorData] else [])"
    "\<forall>(h, f) \<in> set f3. tick_frame_ok E (ce_frame_index ce) (ce_source ce) h f"
    using t1 t2 t3 by (auto simp: tick_sends_same [OF s2] tick_frame_ok_same [OF s2])
  have "ce_pipeline ce' = snd (push_trace (f1 @ f2 @ f3) (ce_pipeline ce))"
    by (simp add: st(4) f1(1) f2(1) f3(1) push_trace_append)
  moreover have "map fst (f1 @ f2 @ f3) = filter (tick_sends E (ce_source ce)) [Visual2D, Visual3D, SensorData]"
    by (simp add: f1(2) f2(2) f3(2))
  moreover have "\<forall>(h, f) \<in> set (f1 @ f2 @ f3). tick_frame_ok E (ce_frame_index ce) (ce_source ce) h f"
    using f1(3) f2(3) f3(3) by auto
  ultimately show ?thesis using t1 t2 t3 s3 by (auto simp: st(4) intro!: exI [of _ "f1 @ f2 @ f3"])
qed

lemma frame_rate_bounds: "1 \<le> frame_rate pm \<and> frame_rate pm \<le> 240"
  by (simp add: frame_rate_def Let_def)

lemma period_bounds: "4 \<le> 1000 div frame_rate pm \<and> 1000 div frame_rate pm \<le> 1000"
proof -
  have "1000 div 240 \<le> 1000 div frame_rate pm"
    using frame_rate_bounds [of pm] by (intro zdiv_mono2) simp_all
  moreover have "1000 div frame_rate pm \<le> 1000 div 1"
    using frame_rate_bounds [of pm] by (intro zdiv_mono2) simp_all
  ultimately show ?thesis by simp
qed

text \<open>
  One round of the capture loop: it pushes at most one frame per group, in the order 2D,
  3D, sensor, and one exactly for the groups found active that have something to carry; each
  frame holds one bundle per active type of its group in table order (a stereo image only when
  pairs are loaded), all stamped with the round's clock readings and numbered with the frame
  index that all groups of the round share; the frame index then advances by one, and the
  pacer sleeps for what is left of a period of 4 to 1000 milliseconds.
\<close>

lemma capture_round:
  assumes "tick G E ce = Inr (ce', ms)"
  shows "(\<exists>fs. ce_pipeline ce' = snd (push_trace fs (ce_pipeline ce)) \<and> labelled fs \<and>
      map fst fs = filter (tick_sends E (ce_source ce)) [Visual2D, Visual3D, SensorData] \<and>
      (\<forall>(h, f) \<in> set fs. tick_frame_ok E (ce_frame_index ce) (ce_source ce) h f \<and> cf_bundles f \<noteq> [])) \<and>
    ce_frame_index ce' = ce_frame_index ce + 1 \<and>
    ce_frames_produced ce' = ce_frames_produced ce + 1 \<and>
    (\<exists>period. 4 \<le> period \<and> period \<le> 1000 \<and> period = 1000 div frame_rate (te_fps_params E) \<and>
       ms = max 0 (period - te_elapsed_ms E))"
proof -
  obtain fs where fs: "ce_pipeline ce' = snd (push_trace fs (ce_pipeline ce))"
    "map fst fs = filter (tick_sends E (ce_source ce)) [Visual2D, Visual3D, SensorData]"
    "\<forall>(h, f) \<in> set fs. tick_frame_ok E (ce_frame_index ce) (ce_source ce) h f"
    using tick_spec [OF assms] by blast
  have ne: "cf_bundles f \<noteq> []" if "(h, f) \<in> set fs" for h f
  proof -
    have "h \<in> set (map fst fs)" using that by force
    then have "tick_sends E (ce_source ce) h" unfolding fs(2) by (auto split: if_splits)
    moreover have "map b_type (cf_bundles f) = carried (te_active E) (ce_source ce) (group_members h)"
      using fs(3) that by (auto simp: tick_frame_ok_def)
    ultimately show ?thesis by (auto simp: tick_sends_def)
  qed
  have "labelled fs" using fs(3) by (auto simp: labelled_def tick_frame_ok_def)
  moreover have "ms = max 0 (1000 div frame_rate (te_fps_params E) - te_elapsed_ms E)"
    using assms by (auto simp: tick_def rbind_eq_Inr pace_ms_def Let_def)
  ultimately show ?thesis
    using tick_spec [OF assms] fs ne period_bounds [of "te_fps_params E"] by blast
qed

section \<open>The loop does not throw\<close>

text \<open>The configured sizes for which the generators cannot throw.\<close>

definition good_source :: "data_source \<Rightarrow> bool" where
  "good_source ds \<longleftrightarrow>
     0 \<le> ds_width ds \<and> ds_width ds < 2 ^ 31 \<and> 0 \<le> ds_height ds \<and>
     ds_width ds * ds_height ds < 2 ^ 61"

lemma good_source_same: "good_source ds \<Longrightarrow> same_images ds ds' \<Longrightarrow> good_source ds'"
  by (simp add: good_source_def same_images_def)

lemma gen_map_total:
  assumes "good_source ds"
  shows "\<exists>d. gen_map pix (ds_width ds) (ds_height ds) = Inr d"
  using gen_map_spec [of "ds_width ds" "ds_height ds" pix] assms by (auto simp: good_source_def)

lemma sensor_json_total:
  assumes "json_dump_ok L"
  shows "\<exists>d. generate_imu F L i = Inr d" "\<exists>d. generate_temperature F L i = Inr d"
    "\<exists>d. generate_magnetometer F L i = Inr d" "\<exists>d. generate_barometer F L i = Inr d"
proof -
  have d: "\<exists>d. rbind (jl_dump L (jobj kvs)) (\<lambda>s. Inr (text_bytes s)) = Inr d"
    if "\<forall>kv \<in> set kvs. ascii_str (fst kv) \<and> json_ascii (snd kv)" for kvs
  proof -
    note asc = json_ascii_jobj [OF that]
    obtain s where "jl_dump L (jobj kvs) = Inr s"
      using assms asc by (auto simp: json_dump_ok_def)
    then show ?thesis by simp
  qed
  show "\<exists>d. generate_imu F L i = Inr d" "\<exists>d. generate_temperature F L i = Inr d"
    "\<exists>d. generate_magnetometer F L i = Inr d" "\<exists>d. generate_barometer F L i = Inr d"
    unfolding generate_imu_def generate_temperature_def generate_magnetometer_def
      generate_barometer_def Let_def
    by (rule d, simp add: ascii_str_def)+
qed

lemma bundle_of_total:
  assumes "good_source ds" "json_dump_ok (ge_json G)"
  shows "\<exists>r. bundle_of G dm s n fi t ds = Inr r"
proof (cases t)
  case DepthMap
  with gen_map_total [OF assms(1)] show ?thesis by (auto simp: generate_depth_def rbind_eq_Inr)
next
  case DisparityMap
  with gen_map_total [OF assms(1)] show ?thesis by (auto simp: generate_disparity_def rbind_eq_Inr)
next
  case ConfidenceMap
  with gen_map_total [OF assms(1)] show ?thesis by (auto simp: generate_confidence_def rbind_eq_Inr)
qed (use sensor_json_total [OF assms(2)] in \<open>auto simp: rbind_eq_Inr split: option.splits\<close>)

lemma bundles_of_total:
  assumes "good_source ds" "json_dump_ok (ge_json G)"
  shows "\<exists>r. bundles_of G dm s n fi active ts ds = Inr r"
  using assms(1)
proof (induction ts arbitrary: ds)
  case (Cons t ts)
  show ?case
  proof (cases "active t")
    case True
    obtain b ds1 where b: "bundle_of G dm s n fi t ds = Inr (b, ds1)"
      using bundle_of_total [OF Cons.prems assms(2)] by (metis surj_pair)
    then have "good_source ds1" using bundle_of_spec good_source_same Cons.prems by blast
    with Cons.IH obtain r where "bundles_of G dm s n fi active ts ds1 = Inr r" by blast
    with b True show ?thesis by (cases r) simp
  next
    case False
    with Cons show ?thesis by simp
  qed
qed simp

lemma tick_group_total:
  assumes "good_source (ce_source ce)" "json_dump_ok (ge_json G)"
  shows "\<exists>ce'. tick_group G E g ce = Inr ce' \<and> good_source (ce_source ce')"
proof -
  have "\<exists>ce'. tick_group G E g ce = Inr ce'"
  proof (cases "te_group E g")
    case True
    obtain bs ds where "bundles_of G (depth_mode_of (te_build_params E g)) (now_unix_sec (te_clock_sec E))
        (now_unix_nsec (te_clock_nsec E)) (ce_frame_index ce) (te_active E) (group_members g)
        (ce_source ce) = Inr (bs, ds)"
      using bundles_of_total [OF assms] by (metis surj_pair)
    with True show ?thesis by (simp add: tick_group_def build_frame_def)
  qed (simp add: tick_group_def)
  then show ?thesis using tick_group_spec good_source_same [OF assms(1)] by blast
qed

lemma tick_total:
  assumes "good_source (ce_source ce)" "json_dump_ok (ge_json G)"
  shows "\<exists>ce' ms. tick G E ce = Inr (ce', ms) \<and> good_source (ce_source ce')"
proof -
  obtain c1 where c1: "tick_group G E Visual2D ce = Inr c1" "good_source (ce_source c1)"
    using tick_group_total [OF assms] by blast
  obtain c2 where c2: "tick_group G E Visual3D c1 = Inr c2" "good_source (ce_source c2)"
    using tick_group_total [OF c1(2) assms(2)] by blast
  obtain c3 where c3: "tick_group G E SensorData c2 = Inr c3" "good_source (ce_source c3)"
    using tick_group_total [OF c2(2) assms(2)] by blast
  show ?thesis using c1 c2 c3 by (simp add: tick_def)
qed

text \<open>
  The capture thread survives: for a non-negative image size (of fewer than \<open>2^61\<close> pixels)
  and a JSON printer that does not throw on ASCII documents, any number of rounds in any
  environment runs without an exception, and the rounds are numbered and counted one by one,
  idle rounds included.
\<close>

lemma capture_loop_total:
  assumes "good_source (ce_source ce)" "json_dump_ok (ge_json G)"
  shows "\<exists>ce'. run_ticks G Es ce = Inr ce' \<and>
    ce_frame_index ce' = ce_frame_index ce + of_nat (length Es) \<and>
    ce_frames_produced ce' = ce_frames_produced ce + of_nat (length Es)"
  using assms(1)
proof (induction Es arbitrary: ce)
  case (Cons E Es)
  obtain c1 ms where t: "tick G E ce = Inr (c1, ms)" "good_source (ce_source c1)"
    using tick_total [OF Cons.prems assms(2)] by blast
  from Cons.IH [OF t(2)] tick_spec [OF t(1)] t(1) show ?case by auto
qed simp

text \<open>An environment and an engine for the witnesses.\<close>

definition demo_gen :: gen_env where
  "demo_gen = \<lparr>ge_fp = fp_nan_ops, ge_json = conv_lib (\<lambda>_. Inr JNull) (\<lambda>_. Inr ''{}'')\<rparr>"

definition demo_tick :: tick_env where
  "demo_tick = \<lparr>te_group = (\<lambda>g. g = SensorData), te_active = (\<lambda>t. t = IMU),
     te_build_params = (\<lambda>_. Map.empty), te_fps_params = Map.empty,
     te_clock_sec = 5000000007, te_clock_nsec = 5000000009, te_elapsed_ms = 3\<rparr>"

definition demo_engine :: engine where
  "demo_engine = engine_new data_source_new pipe2"

lemma demo_gen_ok: "json_dump_ok (ge_json demo_gen)"
  by (simp add: json_dump_ok_def demo_gen_def conv_lib_def)

lemma demo_engine_good: "good_source (ce_source demo_engine)"
  by (simp add: good_source_def demo_engine_def engine_new_def data_source_new_def)

lemma capture_loop_total_witness:
  "\<exists>ce'. run_ticks demo_gen [demo_tick, demo_tick] demo_engine = Inr ce' \<and> ce_frames_produced ce' = 2"
  using capture_loop_total [OF demo_engine_good demo_gen_ok, of "[demo_tick, demo_tick]"]
  by (auto simp: demo_engine_def engine_new_def)

lemma capture_round_witness:
  "\<exists>ce' ms. tick demo_gen demo_tick demo_engine = Inr (ce', ms) \<and> ms = 63"
proof -
  obtain ce' ms where t: "tick demo_gen demo_tick demo_engine = Inr (ce', ms)"
    using tick_total [OF demo_engine_good demo_gen_ok] by blast
  have "frame_rate (te_fps_params demo_tick) = 15" "te_elapsed_ms demo_tick = 3"
    by (simp_all add: demo_tick_def frame_rate_def param_get_def)
  with capture_round [OF t] t show ?thesis by simp
qed

end
