(* ===== verification/Configuration.thy ===== *)
theory Configuration
  imports Json
begin

text \<open>
  \<open>include/sim_vision/common/Config.h\<close> and \<open>src/common/Config.cpp\<close>: the configuration and
  its loader. The body of the loader's \<open>try\<close> block is a sequence of steps on the partly
  filled configuration; a step goes on, returns early with an error text, or throws, and what
  was assigned before stays assigned.
\<close>

section \<open>The configuration\<close>

record config =
  version :: int
  ad_host :: string
  ad_port :: int
  ad_cert_path :: string
  ad_key_path :: string
  ad_worker_threads :: int
  ad_server_id :: string
  cap_fps :: int
  cap_data_source_dir :: string
  cap_stereo_image_dir :: string
  cap_image_width :: int
  cap_image_height :: int
  cap_image_channels :: int
  zmq_transport :: string
  zmq_hwm :: int
  zmq_immediate :: bool
  zmq_linger_ms :: int
  zmq_pub_id :: string
  zmq_endpoints :: "(string, string) omap"
  spsc_queue_size :: int
  spsc_drop_policy :: string
  spsc_cv_timeout_ms :: int
  log_level :: string

definition config_default :: config where
  "config_default =
     \<lparr>version = 1,
      ad_host = ''0.0.0.0'', ad_port = 8443, ad_cert_path = ''certs/server.crt'',
      ad_key_path = ''certs/server.key'', ad_worker_threads = 4, ad_server_id = ''sim_vision_01'',
      cap_fps = 15, cap_data_source_dir = ''DataSource'',
      cap_stereo_image_dir = ''DataSource/StereoImage'', cap_image_width = 1280,
      cap_image_height = 720, cap_image_channels = 4,
      zmq_transport = ''ipc'', zmq_hwm = 10, zmq_immediate = True, zmq_linger_ms = 1000,
      zmq_pub_id = ''sim_vision_pub_01'', zmq_endpoints = [],
      spsc_queue_size = 8, spsc_drop_policy = ''newest'', spsc_cv_timeout_ms = 10,
      log_level = ''info''\<rparr>"

section \<open>The loader\<close>

datatype outcome = Go | Return string | Throw exn

type_synonym cfg_step = "config \<Rightarrow> config \<times> outcome"

fun steps :: "cfg_step list \<Rightarrow> cfg_step" where
  "steps [] cfg = (cfg, Go)"
| "steps (f # fs) cfg = (case f cfg of (c, Go) \<Rightarrow> steps fs c | r \<Rightarrow> r)"

text \<open>\<open>if (j.contains(key)) field = j[key].get<T>();\<close>\<close>

definition rd ::
    "(json \<Rightarrow> 'v result) \<Rightarrow> json \<Rightarrow> string \<Rightarrow> (('v \<Rightarrow> 'v) \<Rightarrow> config \<Rightarrow> config) \<Rightarrow> cfg_step" where
  "rd get j key upd cfg =
     (if jcontains j key
      then (case get (jat j key) of Inl e \<Rightarrow> (cfg, Throw e) | Inr v \<Rightarrow> (upd (\<lambda>_. v) cfg, Go))
      else (cfg, Go))"

definition load_json_file ::
    "json_lib \<Rightarrow> (string \<Rightarrow> string option) \<Rightarrow> string \<Rightarrow> string \<Rightarrow> json \<times> string" where
  "load_json_file L files path err =
     (case files path of
        None \<Rightarrow> (JNull, ''cannot open config file: '' @ path)
      | Some txt \<Rightarrow>
          (case jl_read L txt of
             Inl e \<Rightarrow> (JNull, ''config parse error: '' @ what e)
           | Inr j \<Rightarrow> (j, err)))"

definition load_admin :: "json_lib \<Rightarrow> json \<Rightarrow> cfg_step" where
  "load_admin L j =
     (if jcontains j ''admin_server'' then
        (let a = jat j ''admin_server'' in
         steps [rd (jl_string L) a ''host'' ad_host_update,
                rd (jl_int L) a ''port'' ad_port_update,
                rd (jl_string L) a ''cert_path'' ad_cert_path_update,
                rd (jl_string L) a ''key_path'' ad_key_path_update,
                rd (jl_int L) a ''worker_threads'' ad_worker_threads_update,
                rd (jl_string L) a ''server_id'' ad_server_id_update])
      else steps [])"

definition check :: "json \<Rightarrow> string \<Rightarrow> string \<Rightarrow> bool \<times> string" where
  "check j key err =
     (if \<not> jcontains j key then (False, ''missing required config field: '' @ key) else (True, err))"

text \<open>The error text is empty when the try block begins.\<close>

definition check_admin :: "json \<Rightarrow> cfg_step" where
  "check_admin j cfg =
     (let (ok, err) = check j ''admin_server'' [] in
      if \<not> ok \<or> ad_port cfg \<le> 0
      then (cfg, Return (if err = [] then ''invalid admin_server port'' else err))
      else (cfg, Go))"

lemma check_admin_eq:
  "check_admin j cfg =
     (if \<not> jcontains j ''admin_server''
      then (cfg, Return (''missing required config field: '' @ ''admin_server''))
      else if ad_port cfg \<le> 0 then (cfg, Return ''invalid admin_server port'')
      else (cfg, Go))"
  by (simp add: check_admin_def check_def)

definition load_capture :: "json_lib \<Rightarrow> json \<Rightarrow> cfg_step" where
  "load_capture L j =
     (if jcontains j ''capture'' then
        (let c = jat j ''capture'' in
         steps [rd (jl_int L) c ''fps'' cap_fps_update,
                rd (jl_string L) c ''data_source_dir'' cap_data_source_dir_update,
                rd (jl_string L) c ''stereo_image_dir'' cap_stereo_image_dir_update,
                rd (jl_int L) c ''image_width'' cap_image_width_update,
                rd (jl_int L) c ''image_height'' cap_image_height_update,
                rd (jl_int L) c ''image_channels'' cap_image_channels_update])
      else steps [])"

definition check_fps :: cfg_step where
  "check_fps cfg =
     (if cap_fps cfg \<le> 0 \<or> 240 < cap_fps cfg
      then (cfg, Return ''invalid capture.fps (must be 1..240)'') else (cfg, Go))"

text \<open>
  The loop over the endpoints: the value is converted first, then \<open>it.key()\<close> is read, which
  throws on anything but an object.
\<close>

fun load_endpoints :: "json_lib \<Rightarrow> (string option \<times> json) list \<Rightarrow> cfg_step" where
  "load_endpoints L [] cfg = (cfg, Go)"
| "load_endpoints L ((k, v) # es) cfg =
     (case jl_string L v of
        Inl e \<Rightarrow> (cfg, Throw e)
      | Inr s \<Rightarrow>
          (case k of
             None \<Rightarrow> (cfg, Throw (JsonError ''cannot use key() for non-object iterators''))
           | Some key \<Rightarrow>
               load_endpoints L es (cfg\<lparr>zmq_endpoints := om_upd key s (zmq_endpoints cfg)\<rparr>)))"

definition load_zmq :: "json_lib \<Rightarrow> json \<Rightarrow> cfg_step" where
  "load_zmq L j =
     (if jcontains j ''zmq'' then
        (let z = jat j ''zmq'' in
         steps [rd (jl_string L) z ''transport'' zmq_transport_update,
                rd (jl_int L) z ''hwm'' zmq_hwm_update,
                rd (jl_bool L) z ''immediate'' zmq_immediate_update,
                rd (jl_int L) z ''linger_ms'' zmq_linger_ms_update,
                rd (jl_string L) z ''pub_id'' zmq_pub_id_update,
                (if jcontains z ''endpoints''
                 then load_endpoints L (jiter (jat z ''endpoints'')) else steps [])])
      else steps [])"

definition check_zmq :: cfg_step where
  "check_zmq cfg =
     (let cfg = (if zmq_hwm cfg < 1 then cfg\<lparr>zmq_hwm := 1\<rparr> else cfg)
      in if length (zmq_endpoints cfg) < 3
         then (cfg, Return ''zmq.endpoints must define visual_2d, visual_3d, sensor_data'')
         else (cfg, Go))"

definition load_spsc :: "json_lib \<Rightarrow> json \<Rightarrow> cfg_step" where
  "load_spsc L j =
     (if jcontains j ''spsc'' then
        (let s = jat j ''spsc'' in
         steps [rd (jl_int L) s ''queue_size'' spsc_queue_size_update,
                rd (jl_string L) s ''drop_policy'' spsc_drop_policy_update,
                rd (jl_int L) s ''cv_timeout_ms'' spsc_cv_timeout_ms_update])
      else steps [])"

definition clamp_queue :: cfg_step where
  "clamp_queue cfg =
     ((if spsc_queue_size cfg < 1 then cfg\<lparr>spsc_queue_size := 1\<rparr> else cfg), Go)"

definition load_body :: "json_lib \<Rightarrow> json \<Rightarrow> cfg_step" where
  "load_body L j =
     steps [rd (jl_int L) j ''version'' version_update,
            load_admin L j, check_admin j,
            load_capture L j, check_fps,
            load_zmq L j, check_zmq,
            load_spsc L j, clamp_queue,
            rd (jl_string L) j ''log_level'' log_level_update]"

definition config_load ::
    "json_lib \<Rightarrow> (string \<Rightarrow> string option) \<Rightarrow> string \<Rightarrow> string \<Rightarrow> config \<times> string" where
  "config_load L files config_dir err =
     (let (j, err) = load_json_file L files (config_dir @ ''/config.json'') err
      in if err \<noteq> [] then (config_default, err)
         else
           (case load_body L j config_default of
              (cfg, Go) \<Rightarrow> (cfg, err)
            | (cfg, Return msg) \<Rightarrow> (cfg, msg)
            | (cfg, Throw e) \<Rightarrow> (cfg, ''config field error: '' @ what e)))"

section \<open>What a finished load has read\<close>

lemma steps_Go:
  "steps (f # fs) cfg = (c, Go) \<longleftrightarrow> (\<exists>d. f cfg = (d, Go) \<and> steps fs d = (c, Go))"
  by (auto split: prod.splits outcome.splits)

lemma steps_Nil_Go: "steps [] cfg = (c, Go) \<longleftrightarrow> c = cfg"
  by auto

declare steps.simps(2) [simp del]

text \<open>The value a field has after its step: the member if present, else what it was.\<close>

definition fld :: "(json \<Rightarrow> 'v result) \<Rightarrow> json \<Rightarrow> string \<Rightarrow> 'v \<Rightarrow> 'v" where
  "fld get j key old =
     (if jcontains j key then (case get (jat j key) of Inr v \<Rightarrow> v | Inl e \<Rightarrow> old) else old)"

lemma rd_Go:
  assumes "\<And>c. upd (\<lambda>v. v) c = c"
  shows "rd get j key upd cfg = (c, Go) \<Longrightarrow>
    c = upd (fld get j key) cfg"
proof -
  have e: "(\<lambda>v. v) = fld get j key" if "\<not> jcontains j key"
    using that by (simp add: fld_def fun_eq_iff)
  have "(\<lambda>_. w) = fld get j key" if "jcontains j key" "get (jat j key) = Inr w" for w
    using that by (simp add: fld_def fun_eq_iff)
  then show "rd get j key upd cfg = (c, Go) \<Longrightarrow> c = upd (fld get j key) cfg"
    using assms [of cfg] e by (auto simp: rd_def split: if_splits sum.splits)
qed

lemma fld_absent: "\<not> jcontains j key \<Longrightarrow> fld get j key old = old"
  by (simp add: fld_def)

named_theorems cfg_go \<open>what a step that goes on has done\<close>

lemma jcontains_absent [simp]: "\<not> jcontains j k \<Longrightarrow> jcontains (jat j k) k' = False"
  by (cases j) (auto split: option.splits)

lemma load_admin_Go [cfg_go]:
  assumes "load_admin L j cfg = (c, Go)"
  shows "c =
    (ad_server_id_update (fld (jl_string L) (jat j ''admin_server'') ''server_id'')
    (ad_worker_threads_update (fld (jl_int L) (jat j ''admin_server'') ''worker_threads'')
    (ad_key_path_update (fld (jl_string L) (jat j ''admin_server'') ''key_path'')
    (ad_cert_path_update (fld (jl_string L) (jat j ''admin_server'') ''cert_path'')
    (ad_port_update (fld (jl_int L) (jat j ''admin_server'') ''port'')
    (ad_host_update (fld (jl_string L) (jat j ''admin_server'') ''host'') cfg))))))"
proof (cases "jcontains j ''admin_server''")
  case True
  with assms show ?thesis
    by (auto simp: load_admin_def Let_def steps_Go dest!: rd_Go [rotated])
next
  case False
  with assms show ?thesis by (simp add: load_admin_def fld_absent)
qed

lemma load_capture_Go [cfg_go]:
  assumes "load_capture L j cfg = (c, Go)"
  shows "c =
    (cap_image_channels_update (fld (jl_int L) (jat j ''capture'') ''image_channels'')
    (cap_image_height_update (fld (jl_int L) (jat j ''capture'') ''image_height'')
    (cap_image_width_update (fld (jl_int L) (jat j ''capture'') ''image_width'')
    (cap_stereo_image_dir_update (fld (jl_string L) (jat j ''capture'') ''stereo_image_dir'')
    (cap_data_source_dir_update (fld (jl_string L) (jat j ''capture'') ''data_source_dir'')
    (cap_fps_update (fld (jl_int L) (jat j ''capture'') ''fps'') cfg))))))"
proof (cases "jcontains j ''capture''")
  case True
  with assms show ?thesis
    by (auto simp: load_capture_def Let_def steps_Go dest!: rd_Go [rotated])
next
  case False
  with assms show ?thesis by (simp add: load_capture_def fld_absent)
qed

lemma load_spsc_Go [cfg_go]:
  assumes "load_spsc L j cfg = (c, Go)"
  shows "c =
    (spsc_cv_timeout_ms_update (fld (jl_int L) (jat j ''spsc'') ''cv_timeout_ms'')
    (spsc_drop_policy_update (fld (jl_string L) (jat j ''spsc'') ''drop_policy'')
    (spsc_queue_size_update (fld (jl_int L) (jat j ''spsc'') ''queue_size'') cfg)))"
proof (cases "jcontains j ''spsc''")
  case True
  with assms show ?thesis
    by (auto simp: load_spsc_def Let_def steps_Go dest!: rd_Go [rotated])
next
  case False
  with assms show ?thesis by (simp add: load_spsc_def fld_absent)
qed

text \<open>The endpoints a finished loop has stored.\<close>

definition endpoints_of :: "json_lib \<Rightarrow> json \<Rightarrow> (string, string) omap" where
  "endpoints_of L z =
     foldl (\<lambda>m kv. om_upd (the (fst kv)) (projr (jl_string L (snd kv))) m) []
       (if jcontains z ''endpoints'' then jiter (jat z ''endpoints'') else [])"

lemma load_endpoints_Go:
  "load_endpoints L es cfg = (c, Go) \<Longrightarrow> c = cfg\<lparr>zmq_endpoints :=
     foldl (\<lambda>m kv. om_upd (the (fst kv)) (projr (jl_string L (snd kv))) m) (zmq_endpoints cfg) es\<rparr>"
  by (induction L es cfg rule: load_endpoints.induct) (auto split: sum.splits option.splits)

lemma load_zmq_Go [cfg_go]:
  assumes "load_zmq L j cfg = (c, Go)" "zmq_endpoints cfg = []"
  shows "c =
    (zmq_endpoints_update (\<lambda>_. endpoints_of L (jat j ''zmq''))
    (zmq_pub_id_update (fld (jl_string L) (jat j ''zmq'') ''pub_id'')
    (zmq_linger_ms_update (fld (jl_int L) (jat j ''zmq'') ''linger_ms'')
    (zmq_immediate_update (fld (jl_bool L) (jat j ''zmq'') ''immediate'')
    (zmq_hwm_update (fld (jl_int L) (jat j ''zmq'') ''hwm'')
    (zmq_transport_update (fld (jl_string L) (jat j ''zmq'') ''transport'') cfg))))))"
proof (cases "jcontains j ''zmq''")
  case True
  have ep: "c = d\<lparr>zmq_endpoints := endpoints_of L (jat j ''zmq'')\<rparr>"
    if "(if jcontains (jat j ''zmq'') ''endpoints''
         then load_endpoints L (jiter (jat (jat j ''zmq'') ''endpoints'')) else steps []) d = (c, Go)"
      "zmq_endpoints d = []" for d
    using that by (cases "jcontains (jat j ''zmq'') ''endpoints''")
      (auto simp: endpoints_of_def dest: load_endpoints_Go)
  from assms True show ?thesis
    by (auto simp: load_zmq_def Let_def steps_Go dest!: rd_Go [rotated] ep)
next
  case False
  with assms show ?thesis by (simp add: load_zmq_def fld_absent endpoints_of_def)
qed

definition cfg_of :: "json_lib \<Rightarrow> json \<Rightarrow> config" where
  "cfg_of L j =
     (let d = config_default; a = jat j ''admin_server''; c = jat j ''capture'';
          z = jat j ''zmq''; s = jat j ''spsc'' in
      \<lparr>version = fld (jl_int L) j ''version'' (version d),
       ad_host = fld (jl_string L) a ''host'' (ad_host d),
       ad_port = fld (jl_int L) a ''port'' (ad_port d),
       ad_cert_path = fld (jl_string L) a ''cert_path'' (ad_cert_path d),
       ad_key_path = fld (jl_string L) a ''key_path'' (ad_key_path d),
       ad_worker_threads = fld (jl_int L) a ''worker_threads'' (ad_worker_threads d),
       ad_server_id = fld (jl_string L) a ''server_id'' (ad_server_id d),
       cap_fps = fld (jl_int L) c ''fps'' (cap_fps d),
       cap_data_source_dir = fld (jl_string L) c ''data_source_dir'' (cap_data_source_dir d),
       cap_stereo_image_dir = fld (jl_string L) c ''stereo_image_dir'' (cap_stereo_image_dir d),
       cap_image_width = fld (jl_int L) c ''image_width'' (cap_image_width d),
       cap_image_height = fld (jl_int L) c ''image_height'' (cap_image_height d),
       cap_image_channels = fld (jl_int L) c ''image_channels'' (cap_image_channels d),
       zmq_transport = fld (jl_string L) z ''transport'' (zmq_transport d),
       zmq_hwm = max 1 (fld (jl_int L) z ''hwm'' (zmq_hwm d)),
       zmq_immediate = fld (jl_bool L) z ''immediate'' (zmq_immediate d),
       zmq_linger_ms = fld (jl_int L) z ''linger_ms'' (zmq_linger_ms d),
       zmq_pub_id = fld (jl_string L) z ''pub_id'' (zmq_pub_id d),
       zmq_endpoints = endpoints_of L z,
       spsc_queue_size = max 1 (fld (jl_int L) s ''queue_size'' (spsc_queue_size d)),
       spsc_drop_policy = fld (jl_string L) s ''drop_policy'' (spsc_drop_policy d),
       spsc_cv_timeout_ms = fld (jl_int L) s ''cv_timeout_ms'' (spsc_cv_timeout_ms d),
       log_level = fld (jl_string L) j ''log_level'' (log_level d)\<rparr>)"

lemma check_Go:
  "check_admin j cfg = (c, Go) \<Longrightarrow> c = cfg \<and> jcontains j ''admin_server'' \<and> 0 < ad_port cfg"
  "check_fps cfg = (c, Go) \<Longrightarrow> c = cfg \<and> 1 \<le> cap_fps cfg \<and> cap_fps cfg \<le> 240"
  "check_zmq cfg = (c, Go) \<Longrightarrow>
     c = cfg\<lparr>zmq_hwm := max 1 (zmq_hwm cfg)\<rparr> \<and> 3 \<le> length (zmq_endpoints cfg)"
  "clamp_queue cfg = (c, Go) \<Longrightarrow> c = cfg\<lparr>spsc_queue_size := max 1 (spsc_queue_size cfg)\<rparr>"
  by (auto simp: check_admin_eq check_fps_def check_zmq_def clamp_queue_def Let_def max_def
      split: if_splits)

lemma load_body_Go:
  assumes "load_body L j config_default = (c, Go)"
  shows "c = cfg_of L j \<and> jcontains j ''admin_server'' \<and> 0 < ad_port c \<and>
    1 \<le> cap_fps c \<and> cap_fps c \<le> 240 \<and> 3 \<le> length (zmq_endpoints c)"
proof -
  obtain c1 c2 c3 c4 c5 c6 c7 c8 c9 where s:
    "rd (jl_int L) j ''version'' version_update config_default = (c1, Go)"
    "load_admin L j c1 = (c2, Go)" "check_admin j c2 = (c3, Go)"
    "load_capture L j c3 = (c4, Go)" "check_fps c4 = (c5, Go)"
    "load_zmq L j c5 = (c6, Go)" "check_zmq c6 = (c7, Go)"
    "load_spsc L j c7 = (c8, Go)" "clamp_queue c8 = (c9, Go)"
    "rd (jl_string L) j ''log_level'' log_level_update c9 = (c, Go)"
    using assms by (auto simp: load_body_def steps_Go)
  have e1: "c1 = config_default\<lparr>version := fld (jl_int L) j ''version'' (version config_default)\<rparr>"
    using rd_Go [OF _ s(1)] by simp
  note e2 = load_admin_Go [OF s(2)] and e3 = check_Go(1) [OF s(3)]
    and e4 = load_capture_Go [OF s(4)] and e5 = check_Go(2) [OF s(5)]
  have n: "zmq_endpoints c5 = []"
    using e1 e2 e3 e4 e5 by (simp add: config_default_def)
  note e6 = load_zmq_Go [OF s(6) n] and e7 = check_Go(3) [OF s(7)]
    and e8 = load_spsc_Go [OF s(8)] and e9 = check_Go(4) [OF s(9)]
  have e10: "c = c9\<lparr>log_level := fld (jl_string L) j ''log_level'' (log_level c9)\<rparr>"
    using rd_Go [OF _ s(10)] by simp
  have p: "ad_port c = ad_port c2" "cap_fps c = cap_fps c4" "zmq_endpoints c = zmq_endpoints c6"
    by (simp_all add: e10 e9 e8 e7 e6 e5 e4 e3)
  show ?thesis
    using e3 e5 e7 unfolding p
    by (simp add: e10 e9 e8 e7 e6 e5 e4 e3 e2 e1 cfg_of_def Let_def config_default_def)
qed

text \<open>No step returns early with an empty text.\<close>

definition reports :: "cfg_step \<Rightarrow> bool" where
  "reports f \<longleftrightarrow> (\<forall>cfg c. f cfg \<noteq> (c, Return []))"

lemma reports_steps: "\<forall>f \<in> set fs. reports f \<Longrightarrow> reports (steps fs)"
proof (induction fs)
  case (Cons f fs)
  then show ?case by (auto simp: reports_def steps.simps split: prod.splits outcome.splits)
qed (simp add: reports_def)

lemma reports_rd [simp]: "reports (rd get j k upd)"
  by (auto simp: reports_def rd_def split: sum.splits)

lemma reports_endpoints [simp]: "reports (load_endpoints L es)"
proof -
  have "load_endpoints L es cfg \<noteq> (c, Return [])" for cfg c
    by (induction L es cfg rule: load_endpoints.induct) (auto split: sum.splits option.splits)
  then show ?thesis by (simp add: reports_def)
qed

lemma reports_parts [simp]:
  "reports (load_admin L j)" "reports (check_admin j)" "reports (load_capture L j)"
  "reports check_fps" "reports (load_zmq L j)" "reports check_zmq" "reports (load_spsc L j)"
  "reports clamp_queue"
  by (auto simp: load_admin_def load_capture_def load_zmq_def load_spsc_def Let_def
      intro!: reports_steps)
    (auto simp: reports_def check_admin_eq check_fps_def check_zmq_def clamp_queue_def Let_def)

lemma load_body_reports: "load_body L j cfg \<noteq> (c, Return [])"
proof -
  have "reports (load_body L j)"
    unfolding load_body_def by (rule reports_steps) simp
  then show ?thesis by (simp add: reports_def)
qed


text \<open>A configuration file for the witnesses.\<close>

definition sample_json :: "int \<Rightarrow> json" where
  "sample_json port =
     JObj [(''admin_server'', JObj [(''port'', JInt port)]),
           (''zmq'', JObj [(''endpoints'', JObj [(''sensor_data'', JStr ''ipc:///tmp/s''),
              (''visual_2d'', JStr ''ipc:///tmp/v2''), (''visual_3d'', JStr ''ipc:///tmp/v3'')]),
              (''hwm'', JInt 0)])]"

definition sample_lib :: "int \<Rightarrow> json_lib" where
  "sample_lib port = conv_lib (\<lambda>_. Inr (sample_json port)) (\<lambda>_. Inr [])"

definition sample_files :: "string \<Rightarrow> string option" where
  "sample_files path = (if path = ''config/config.json'' then Some ''{...}'' else None)"

definition sample_config :: "int \<Rightarrow> config" where
  "sample_config port = config_default\<lparr>ad_port := port, zmq_hwm := 1,
     zmq_endpoints := [(''sensor_data'', ''ipc:///tmp/s''), (''visual_2d'', ''ipc:///tmp/v2''),
                       (''visual_3d'', ''ipc:///tmp/v3'')]\<rparr>"

lemma sample_load:
  assumes "in_int32 port" "0 < port"
  shows "config_load (sample_lib port) sample_files ''config'' [] = (sample_config port, [])"
  using assms
  by (simp add: config_load_def load_json_file_def sample_files_def sample_lib_def conv_lib_def
      sample_json_def load_body_def load_admin_def load_capture_def load_zmq_def load_spsc_def
      check_admin_eq check_fps_def check_zmq_def clamp_queue_def rd_def Let_def steps.simps
      config_default_def sample_config_def to_int32_id in_int32_def)


end
