(* ===== verification/Publisher.thy ===== *)
theory Publisher
  imports Capture Configuration
begin

text \<open>
  \<open>include/sim_vision/data/DataPublisher.h\<close> and \<open>src/data/DataPublisher.cpp\<close>: multipart
  messages on three publish sockets, the counters, start, the publishing loop and the shutdown
  broadcast. ZeroMQ is not code of this repository: its calls are the record \<open>zmq_lib\<close> over an
  abstract state, an argument. \<open>pb_log\<close> is a ghost variable, the list of all \<open>zmq_msg_send\<close>
  calls with their results; every send uses \<open>ZMQ_DONTWAIT\<close>.
\<close>

section \<open>State\<close>

record 'z zmq_lib =
  z_socket :: "'z \<Rightarrow> nat option \<times> 'z"
  z_setsockopt :: "nat \<Rightarrow> string \<Rightarrow> int \<Rightarrow> 'z \<Rightarrow> 'z"
  z_bind :: "nat \<Rightarrow> string \<Rightarrow> 'z \<Rightarrow> int \<times> 'z"
  z_send :: "nat \<Rightarrow> byte list \<Rightarrow> bool \<Rightarrow> 'z \<Rightarrow> int \<times> 'z"

text \<open>One send: the socket, the bytes, whether \<open>ZMQ_SNDMORE\<close> was given, and the result.\<close>

type_synonym send_call = "nat \<times> byte list \<times> bool \<times> int"

record 'z publisher =
  pb_pub_id :: string
  pb_hwm :: int
  pb_immediate :: bool
  pb_linger_ms :: int
  pb_endpoints :: "data_group \<Rightarrow> string"
  pb_sock :: "data_group \<Rightarrow> nat option"
  pb_running :: bool
  pb_sent :: "data_group \<Rightarrow> u64"
  pb_dropped_hwm :: u64
  pb_shutdown_sent :: u64
  pb_zmq :: 'z
  pb_log :: "send_call list"

fun default_endpoint :: "data_group \<Rightarrow> string" where
  "default_endpoint Visual2D = ''ipc:///tmp/sim_vision_visual_2d''"
| "default_endpoint Visual3D = ''ipc:///tmp/sim_vision_visual_3d''"
| "default_endpoint SensorData = ''ipc:///tmp/sim_vision_sensor_data''"

definition endpoint_for :: "config \<Rightarrow> data_group \<Rightarrow> string" where
  "endpoint_for cfg g =
     (case map_of (zmq_endpoints cfg) (group_to_string g) of
        Some e \<Rightarrow> e | None \<Rightarrow> default_endpoint g)"

definition publisher_new :: "'z \<Rightarrow> config \<Rightarrow> 'z publisher" where
  "publisher_new z cfg =
     \<lparr>pb_pub_id = zmq_pub_id cfg, pb_hwm = zmq_hwm cfg, pb_immediate = zmq_immediate cfg,
      pb_linger_ms = zmq_linger_ms cfg, pb_endpoints = endpoint_for cfg, pb_sock = (\<lambda>_. None),
      pb_running = False, pb_sent = (\<lambda>_. 0), pb_dropped_hwm = 0, pb_shutdown_sent = 0,
      pb_zmq = z, pb_log = []\<rparr>"

section \<open>Sending\<close>

text \<open>\<open>send_frame\<close>: the result of \<open>zmq_msg_send\<close> (or -1 when the message cannot be made).\<close>

definition send_frame ::
    "'z zmq_lib \<Rightarrow> nat \<Rightarrow> byte list \<Rightarrow> bool \<Rightarrow> 'z publisher \<Rightarrow> int \<times> 'z publisher" where
  "send_frame Z sock data sndmore pb =
     (let r = z_send Z sock data sndmore (pb_zmq pb)
      in (fst r, pb\<lparr>pb_zmq := snd r, pb_log := pb_log pb @ [(sock, data, sndmore, fst r)]\<rparr>))"

definition part_json :: "data_bundle \<Rightarrow> json" where
  "part_json b =
     jobj ([(''id'', JStr (b_part_id b)),
            (''size'', JInt (int (length (b_data b)))),
            (''format'', JStr (b_format b))] @
       (if 0 < b_width b then
          [(''is_encoded'', JBool (b_is_encoded b)),
           (''channels'', JInt (b_channels b)),
           (''channel_layout'', JStr (b_code b)),
           (''width'', JInt (b_width b)),
           (''height'', JInt (b_height b))] @
          (if 0 < b_right_channels b then [(''right_channels'', JInt (b_right_channels b))] else []) @
          (if b_right_code b \<noteq> [] then [(''right_channel_layout'', JStr (b_right_code b))] else [])
        else []))"

text \<open>The header; \<open>c1\<close> and \<open>c2\<close> are the two clock readings of the publish time stamp.\<close>

definition header_json :: "string \<Rightarrow> int \<Rightarrow> int \<Rightarrow> channel_frame \<Rightarrow> json" where
  "header_json own_pub_id c1 c2 f =
     jobj [(''group'', JStr (group_to_string (cf_group f))),
           (''ts_sec'', JInt (cf_ts_sec f)),
           (''ts_nsec'', JInt (cf_ts_nsec f)),
           (''pair_id'', JInt (uint (cf_pair_id f))),
           (''active'', JBool True),
           (''pub_id'', JStr (if cf_pub_id f = [] then own_pub_id else cf_pub_id f)),
           (''frame_index'', JInt (uint (cf_frame_index f))),
           (''source'', JStr version_tag),
           (''pub_ts_sec'', JInt (now_unix_sec c1)),
           (''pub_ts_nsec'', JInt (now_unix_nsec c2)),
           (''parts'', JArr (map part_json (cf_bundles f)))]"

definition count_drop :: "'z publisher \<Rightarrow> 'z publisher" where
  "count_drop pb = pb\<lparr>pb_dropped_hwm := pb_dropped_hwm pb + 1\<rparr>"

definition count_sent :: "data_group \<Rightarrow> 'z publisher \<Rightarrow> 'z publisher" where
  "count_sent g pb = pb\<lparr>pb_sent := (pb_sent pb)(g := pb_sent pb g + 1)\<rparr>"

text \<open>The loop over the payloads: the flag \<open>ZMQ_SNDMORE\<close> on all but the last.\<close>

fun send_parts ::
    "'z zmq_lib \<Rightarrow> nat \<Rightarrow> byte list list \<Rightarrow> 'z publisher \<Rightarrow> bool \<times> 'z publisher" where
  "send_parts Z sock [] pb = (True, pb)"
| "send_parts Z sock (d # ds) pb =
     (let r = send_frame Z sock d (ds \<noteq> []) pb
      in if fst r < 0 then (False, count_drop (snd r)) else send_parts Z sock ds (snd r))"

definition send_multipart ::
    "'z zmq_lib \<Rightarrow> json_lib \<Rightarrow> int \<Rightarrow> int \<Rightarrow> nat \<Rightarrow> channel_frame \<Rightarrow> 'z publisher \<Rightarrow>
     (bool \<times> 'z publisher) result" where
  "send_multipart Z L c1 c2 sock f pb =
     rbind (jl_dump L (header_json (pb_pub_id pb) c1 c2 f)) (\<lambda>header_str.
       let r = send_frame Z sock (text_bytes header_str) (cf_bundles f \<noteq> []) pb
       in if fst r < 0 then Inr (False, count_drop (snd r))
          else
            (let r2 = send_parts Z sock (map b_data (cf_bundles f)) (snd r)
             in if fst r2 then Inr (True, count_sent (cf_group f) (snd r2)) else Inr r2))"

definition send_group ::
    "'z zmq_lib \<Rightarrow> json_lib \<Rightarrow> int \<Rightarrow> int \<Rightarrow> channel_frame \<Rightarrow> 'z publisher \<Rightarrow> 'z publisher result" where
  "send_group Z L c1 c2 f pb =
     (case pb_sock pb (cf_group f) of
        None \<Rightarrow> Inr pb
      | Some sock \<Rightarrow> rbind (send_multipart Z L c1 c2 sock f pb) (\<lambda>r. Inr (snd r)))"

text \<open>
  The body of \<open>run\<close>: one \<open>pop_all\<close> and the sending of its frames, null pointers skipped.
  \<open>clocks\<close> gives the two clock readings of the i-th frame.
\<close>

fun send_all_frames ::
    "'z zmq_lib \<Rightarrow> json_lib \<Rightarrow> (nat \<Rightarrow> int \<times> int) \<Rightarrow> frame_ptr list \<Rightarrow> 'z publisher \<Rightarrow>
     'z publisher result" where
  "send_all_frames Z L clocks [] pb = Inr pb"
| "send_all_frames Z L clocks (None # fs) pb = send_all_frames Z L (\<lambda>i. clocks (Suc i)) fs pb"
| "send_all_frames Z L clocks (Some f # fs) pb =
     rbind (send_group Z L (fst (clocks 0)) (snd (clocks 0)) f pb) (\<lambda>pb'.
       send_all_frames Z L (\<lambda>i. clocks (Suc i)) fs pb')"

definition publish_round ::
    "'z zmq_lib \<Rightarrow> json_lib \<Rightarrow> (nat \<Rightarrow> int \<times> int) \<Rightarrow> (data_group \<times> frame_ptr) list \<Rightarrow>
     data_pipeline \<Rightarrow> 'z publisher \<Rightarrow> (data_pipeline \<times> 'z publisher) result" where
  "publish_round Z L clocks arrivals dp pb =
     (case pop_all arrivals dp of (frames, got, dp') \<Rightarrow>
        (if \<not> got then Inr (dp', pb)
         else rbind (send_all_frames Z L clocks frames pb) (\<lambda>pb'. Inr (dp', pb'))))"

definition shutdown_json :: "string \<Rightarrow> int \<Rightarrow> int \<Rightarrow> json" where
  "shutdown_json own_pub_id c1 c2 =
     jobj [(''event'', JStr ''server_shutdown''), (''pub_id'', JStr own_pub_id),
           (''ts_sec'', JInt (now_unix_sec c1)), (''ts_nsec'', JInt (now_unix_nsec c2))]"

definition send_ctrl ::
    "'z zmq_lib \<Rightarrow> json_lib \<Rightarrow> int \<times> int \<Rightarrow> nat option \<Rightarrow> 'z publisher \<Rightarrow> 'z publisher result" where
  "send_ctrl Z L c sock pb =
     (case sock of
        None \<Rightarrow> Inr pb
      | Some s \<Rightarrow>
          rbind (jl_dump L (shutdown_json (pb_pub_id pb) (fst c) (snd c))) (\<lambda>txt.
            let r = send_frame Z s (text_bytes txt) False pb
            in Inr (if 0 \<le> fst r
                    then (snd r)\<lparr>pb_shutdown_sent := pb_shutdown_sent (snd r) + 1\<rparr> else snd r)))"

definition publish_shutdown ::
    "'z zmq_lib \<Rightarrow> json_lib \<Rightarrow> (nat \<Rightarrow> int \<times> int) \<Rightarrow> 'z publisher \<Rightarrow> 'z publisher result" where
  "publish_shutdown Z L clocks pb =
     rbind (send_ctrl Z L (clocks 0) (pb_sock pb Visual2D) pb) (\<lambda>p1.
     rbind (send_ctrl Z L (clocks 1) (pb_sock pb Visual3D) p1) (\<lambda>p2.
       send_ctrl Z L (clocks 2) (pb_sock pb SensorData) p2))"

definition publisher_drain :: "data_pipeline \<Rightarrow> data_pipeline" where
  "publisher_drain dp = dp_drain dp"

section \<open>Start and stop\<close>

definition open_sock :: "'z zmq_lib \<Rightarrow> data_group \<Rightarrow> 'z publisher \<Rightarrow> 'z publisher" where
  "open_sock Z g pb =
     (let r = z_socket Z (pb_zmq pb)
      in pb\<lparr>pb_sock := (pb_sock pb)(g := fst r), pb_zmq := snd r\<rparr>)"

definition configure_pub :: "'z zmq_lib \<Rightarrow> data_group \<Rightarrow> 'z publisher \<Rightarrow> 'z publisher" where
  "configure_pub Z g pb =
     (case pb_sock pb g of
        None \<Rightarrow> pb
      | Some s \<Rightarrow>
          pb\<lparr>pb_zmq :=
            z_setsockopt Z s ''ZMQ_LINGER'' (pb_linger_ms pb)
              (z_setsockopt Z s ''ZMQ_IMMEDIATE'' (if pb_immediate pb then 1 else 0)
                (z_setsockopt Z s ''ZMQ_SNDHWM'' (pb_hwm pb) (pb_zmq pb)))\<rparr>)"

definition bind_one :: "'z zmq_lib \<Rightarrow> data_group \<Rightarrow> 'z publisher \<Rightarrow> bool \<times> 'z publisher" where
  "bind_one Z g pb =
     (case pb_sock pb g of
        None \<Rightarrow> (False, pb)
      | Some s \<Rightarrow>
          (let r = z_bind Z s (pb_endpoints pb g) (pb_zmq pb)
           in (fst r = 0, pb\<lparr>pb_zmq := snd r\<rparr>)))"

definition publisher_start :: "'z zmq_lib \<Rightarrow> 'z publisher \<Rightarrow> bool \<times> 'z publisher" where
  "publisher_start Z pb =
     (if pb_running pb then (False, pb)
      else
        (let p = open_sock Z SensorData (open_sock Z Visual3D (open_sock Z Visual2D pb)) in
         if pb_sock p Visual2D = None \<or> pb_sock p Visual3D = None \<or> pb_sock p SensorData = None
         then (False, p)
         else
           (let p = configure_pub Z SensorData (configure_pub Z Visual3D (configure_pub Z Visual2D p));
                b1 = bind_one Z Visual2D p in
            if \<not> fst b1 then (False, snd b1)
            else
              (let b2 = bind_one Z Visual3D (snd b1) in
               if \<not> fst b2 then (False, snd b2)
               else
                 (let b3 = bind_one Z SensorData (snd b2) in
                  if \<not> fst b3 then (False, snd b3)
                  else (True, (snd b3)\<lparr>pb_running := True\<rparr>))))))"

definition publisher_stop :: "'z publisher \<Rightarrow> 'z publisher" where
  "publisher_stop pb = (if \<not> pb_running pb then pb else pb\<lparr>pb_running := False\<rparr>)"

record publisher_stats =
  st_sent_2d :: u64
  st_sent_3d :: u64
  st_sent_sensor :: u64
  st_dropped_hwm :: u64
  st_shutdown_sent :: u64

definition publisher_stats_of :: "'z publisher \<Rightarrow> publisher_stats" where
  "publisher_stats_of pb =
     \<lparr>st_sent_2d = pb_sent pb Visual2D, st_sent_3d = pb_sent pb Visual3D,
      st_sent_sensor = pb_sent pb SensorData, st_dropped_hwm = pb_dropped_hwm pb,
      st_shutdown_sent = pb_shutdown_sent pb\<rparr>"

section \<open>What a subscriber receives\<close>

text \<open>
  A socket joins frames sent with \<open>ZMQ_SNDMORE\<close> to the next one: the complete messages of a
  socket and the frames of a message still open.
\<close>

definition wire :: "nat \<Rightarrow> send_call list \<Rightarrow> (byte list \<times> bool) list" where
  "wire sock calls =
     map (\<lambda>(s, d, m, rc). (d, m)) (filter (\<lambda>(s, d, m, rc). s = sock \<and> 0 \<le> rc) calls)"

fun assemble :: "byte list list \<Rightarrow> (byte list \<times> bool) list \<Rightarrow> byte list list list \<times> byte list list" where
  "assemble cur [] = ([], cur)"
| "assemble cur ((d, m) # ws) =
     (if m then assemble (cur @ [d]) ws
      else (let r = assemble [] ws in ((cur @ [d]) # fst r, snd r)))"

definition messages :: "nat \<Rightarrow> 'z publisher \<Rightarrow> byte list list list" where
  "messages sock pb = fst (assemble [] (wire sock (pb_log pb)))"

definition open_message :: "nat \<Rightarrow> 'z publisher \<Rightarrow> byte list list" where
  "open_message sock pb = snd (assemble [] (wire sock (pb_log pb)))"

lemma wire_append [simp]: "wire s (xs @ ys) = wire s xs @ wire s ys"
  by (simp add: wire_def)

lemma wire_Nil [simp]: "wire s [] = []"
  by (simp add: wire_def)

lemma assemble_append:
  "assemble cur (xs @ ys) =
     (let r1 = assemble cur xs; r2 = assemble (snd r1) ys in (fst r1 @ fst r2, snd r2))"
  by (induction cur xs rule: assemble.induct) (simp_all add: Let_def)

lemma messages_extend:
  assumes "pb_log pb' = pb_log pb @ calls"
  shows "messages s pb' = messages s pb @ fst (assemble (open_message s pb) (wire s calls)) \<and>
    open_message s pb' = snd (assemble (open_message s pb) (wire s calls))"
  using assms by (simp add: messages_def open_message_def assemble_append Let_def)

fun framed :: "byte list list \<Rightarrow> (byte list \<times> bool) list" where
  "framed [] = []"
| "framed (d # ds) = (d, ds \<noteq> []) # framed ds"

lemma assemble_framed: "ds \<noteq> [] \<Longrightarrow> assemble cur (framed ds) = ([cur @ ds], [])"
proof (induction ds arbitrary: cur)
  case (Cons d ds)
  then show ?case by (cases "ds = []") (auto simp: Let_def)
qed simp

lemma assemble_framed_prefix:
  "k < length ds \<Longrightarrow> assemble cur (take k (framed ds)) = ([], cur @ take k ds)"
proof (induction ds arbitrary: k cur)
  case (Cons d ds)
  then show ?case by (cases k) auto
qed simp

lemma length_framed [simp]: "length (framed ds) = length ds"
  by (induction ds) simp_all

text \<open>The calls one function adds to the log, all on its own socket.\<close>

definition own_calls :: "nat \<Rightarrow> send_call list \<Rightarrow> bool" where
  "own_calls sock calls \<longleftrightarrow> (\<forall>c \<in> set calls. fst c = sock)"

lemma wire_other: "own_calls sock calls \<Longrightarrow> s \<noteq> sock \<Longrightarrow> wire s calls = []"
  by (auto simp: wire_def own_calls_def filter_empty_conv)

definition same_counts :: "'z publisher \<Rightarrow> 'z publisher \<Rightarrow> bool" where
  "same_counts pb pb' \<longleftrightarrow> pb_sent pb' = pb_sent pb \<and> pb_dropped_hwm pb' = pb_dropped_hwm pb \<and>
     pb_shutdown_sent pb' = pb_shutdown_sent pb \<and> pb_sock pb' = pb_sock pb \<and>
     pb_pub_id pb' = pb_pub_id pb \<and> pb_running pb' = pb_running pb"

lemma same_counts_refl [simp]: "same_counts pb pb"
  by (simp add: same_counts_def)

lemma same_counts_trans: "same_counts a b \<Longrightarrow> same_counts b c \<Longrightarrow> same_counts a c"
  by (simp add: same_counts_def)

lemma send_frame_spec:
  assumes "send_frame Z sock d m pb = (rc, pb')"
  shows "pb_log pb' = pb_log pb @ [(sock, d, m, rc)] \<and> same_counts pb pb'"
  using assms by (auto simp: send_frame_def Let_def same_counts_def)

lemma send_parts_spec:
  assumes "send_parts Z sock ds pb = (ok, pb')"
  shows "\<exists>calls. pb_log pb' = pb_log pb @ calls \<and> own_calls sock calls \<and>
    (if ok then wire sock calls = framed ds \<and> same_counts pb pb'
     else (\<exists>k < length ds. wire sock calls = take k (framed ds)) \<and>
       (\<exists>p. same_counts pb p \<and> pb' = count_drop p))"
  using assms
proof (induction ds arbitrary: pb)
  case Nil
  then show ?case by (auto simp: own_calls_def intro!: exI [of _ "[]"])
next
  case (Cons d ds)
  obtain rc p where f: "send_frame Z sock d (ds \<noteq> []) pb = (rc, p)"
    by (cases "send_frame Z sock d (ds \<noteq> []) pb")
  note fs = send_frame_spec [OF f]
  let ?call = "(sock, d, ds \<noteq> [], rc)"
  show ?case
  proof (cases "rc < 0")
    case True
    then have "ok = False" "pb' = count_drop p" using Cons.prems by (simp_all add: f Let_def)
    with fs True show ?thesis
      by (intro exI [of _ "[?call]"]) (auto simp: own_calls_def wire_def count_drop_def)
  next
    case False
    then have "send_parts Z sock ds p = (ok, pb')" using Cons.prems by (simp add: f Let_def)
    from Cons.IH [OF this] obtain calls where c: "pb_log pb' = pb_log p @ calls" "own_calls sock calls"
      "if ok then wire sock calls = framed ds \<and> same_counts p pb'
       else (\<exists>k < length ds. wire sock calls = take k (framed ds)) \<and>
         (\<exists>q. same_counts p q \<and> pb' = count_drop q)" by blast
    have w: "wire sock (?call # calls) = (d, ds \<noteq> []) # wire sock calls"
      using False by (simp add: wire_def)
    have "pb_log pb' = pb_log pb @ (?call # calls)" using fs c(1) by simp
    moreover have "own_calls sock (?call # calls)" using c(2) by (simp add: own_calls_def)
    moreover have "if ok then wire sock (?call # calls) = framed (d # ds) \<and> same_counts pb pb'
       else (\<exists>k < length (d # ds). wire sock (?call # calls) = take k (framed (d # ds))) \<and>
         (\<exists>q. same_counts pb q \<and> pb' = count_drop q)"
    proof (cases ok)
      case True
      with c(3) fs w show ?thesis by (auto intro: same_counts_trans)
    next
      case False
      then obtain k q where k: "k < length ds" "wire sock calls = take k (framed ds)"
        "same_counts p q" "pb' = count_drop q" using c(3) by auto
      then have "Suc k < length (d # ds)" "wire sock (?call # calls) = take (Suc k) (framed (d # ds))"
        by (simp_all add: w)
      with False k(3,4) fs show ?thesis by (metis same_counts_trans)
    qed
    ultimately show ?thesis by blast
  qed
qed

text \<open>The frames of one message: the header, then the payloads.\<close>

definition multipart_of :: "string \<Rightarrow> channel_frame \<Rightarrow> byte list list" where
  "multipart_of hs f = text_bytes hs # map b_data (cf_bundles f)"

lemma send_multipart_parts:
  "send_multipart Z L c1 c2 sock f pb =
     rbind (jl_dump L (header_json (pb_pub_id pb) c1 c2 f)) (\<lambda>hs.
       let r = send_parts Z sock (multipart_of hs f) pb
       in Inr (if fst r then (True, count_sent (cf_group f) (snd r)) else r))"
proof (cases "jl_dump L (header_json (pb_pub_id pb) c1 c2 f)")
  case (Inr hs)
  have "(False, x) = r" if "\<not> fst r" "x = snd r" for x and r :: "bool \<times> 'a publisher"
    using that by (cases r) simp
  then show ?thesis by (simp add: Inr send_multipart_def multipart_of_def Let_def)
qed (simp add: send_multipart_def)

lemma send_multipart_spec:
  assumes "send_multipart Z L c1 c2 sock f pb = Inr (ok, pb')"
  shows "\<exists>hs calls. jl_dump L (header_json (pb_pub_id pb) c1 c2 f) = Inr hs \<and>
    pb_log pb' = pb_log pb @ calls \<and> own_calls sock calls \<and>
    (if ok then wire sock calls = framed (multipart_of hs f) \<and>
         (\<exists>p. same_counts pb p \<and> pb' = count_sent (cf_group f) p)
     else (\<exists>k < length (multipart_of hs f). wire sock calls = take k (framed (multipart_of hs f))) \<and>
         (\<exists>p. same_counts pb p \<and> pb' = count_drop p))"
proof -
  obtain hs where hs: "jl_dump L (header_json (pb_pub_id pb) c1 c2 f) = Inr hs"
    using assms by (auto simp: send_multipart_parts rbind_eq_Inr)
  obtain b p where sp: "send_parts Z sock (multipart_of hs f) pb = (b, p)"
    by (cases "send_parts Z sock (multipart_of hs f) pb")
  have r: "ok = b" "pb' = (if b then count_sent (cf_group f) p else p)"
    using assms by (auto simp: send_multipart_parts hs sp Let_def split: if_splits)
  have l: "pb_log pb' = pb_log p" by (simp add: r count_sent_def)
  from send_parts_spec [OF sp] obtain calls where c: "pb_log p = pb_log pb @ calls" "own_calls sock calls"
    "if b then wire sock calls = framed (multipart_of hs f) \<and> same_counts pb p
     else (\<exists>k < length (multipart_of hs f). wire sock calls = take k (framed (multipart_of hs f))) \<and>
       (\<exists>q. same_counts pb q \<and> p = count_drop q)" by blast
  with hs r l show ?thesis by (cases b) auto
qed


lemma map_jat_parts:
  "map (\<lambda>p. jat p ''id'') (map part_json bs) = map (\<lambda>b. JStr (b_part_id b)) bs"
  "map (\<lambda>p. jat p ''size'') (map part_json bs) = map (\<lambda>b. JInt (int (length (b_data b)))) bs"
  "map (\<lambda>p. jat p ''format'') (map part_json bs) = map (\<lambda>b. JStr (b_format b)) bs"
  "map (\<lambda>p. jcontains p ''channel_layout'') (map part_json bs) = map (\<lambda>b. 0 < b_width b) bs"
  by (auto simp: part_json_def jat_jobj jcontains_jobj image_iff)

text \<open>
  The header describes the message: the entries of \<open>parts\<close> are, in order, the identifier,
  the exact size in bytes and the format of the binary frames that follow it, image metadata
  is present exactly for bundles of positive width, and group, numbering and publisher are
  those of the frame.
\<close>

theorem header_describes_payload:
  "let h = header_json own c1 c2 f; ps = jelems (jat h ''parts'') in
     map (\<lambda>p. jat p ''size'') ps = map (\<lambda>d. JInt (int (length d))) (tl (multipart_of hs f)) \<and>
     map (\<lambda>p. jat p ''id'') ps = map (\<lambda>b. JStr (b_part_id b)) (cf_bundles f) \<and>
     map (\<lambda>p. jat p ''format'') ps = map (\<lambda>b. JStr (b_format b)) (cf_bundles f) \<and>
     map (\<lambda>p. jcontains p ''channel_layout'') ps = map (\<lambda>b. 0 < b_width b) (cf_bundles f) \<and>
     jat h ''group'' = JStr (group_to_string (cf_group f)) \<and>
     jat h ''pair_id'' = JInt (uint (cf_pair_id f)) \<and>
     jat h ''frame_index'' = JInt (uint (cf_frame_index f)) \<and>
     jat h ''pub_id'' = JStr (if cf_pub_id f = [] then own else cf_pub_id f)"
proof -
  have p: "jelems (jat (header_json own c1 c2 f) ''parts'') = map part_json (cf_bundles f)"
    by (simp add: header_json_def jat_jobj)
  show ?thesis
    unfolding Let_def p map_jat_parts
    by (simp add: header_json_def jat_jobj multipart_of_def)
qed

text \<open>
  A send that fails after its header went out leaves the message open, and nothing closes
  it: the next frame published on that socket arrives glued to the fragments, as one message
  that starts with the old header.
\<close>

theorem failed_send_corrupts_next:
  assumes "open_message sock p1 \<noteq> []"
    and "send_multipart Z L c1 c2 sock f p1 = Inr (True, p2)"
  shows "\<exists>hs. jl_dump L (header_json (pb_pub_id p1) c1 c2 f) = Inr hs \<and>
    messages sock p2 = messages sock p1 @ [open_message sock p1 @ multipart_of hs f] \<and>
    multipart_of hs f \<notin> set (drop (length (messages sock p1)) (messages sock p2))"
proof -
  obtain hs calls where h: "jl_dump L (header_json (pb_pub_id p1) c1 c2 f) = Inr hs"
    "pb_log p2 = pb_log p1 @ calls" "wire sock calls = framed (multipart_of hs f)"
    using send_multipart_spec [OF assms(2)] by auto
  have ne: "multipart_of hs f \<noteq> []" by (simp add: multipart_of_def)
  have m: "messages sock p2 = messages sock p1 @ [open_message sock p1 @ multipart_of hs f]"
    using messages_extend [OF h(2), of sock] assemble_framed [OF ne] h(3) by simp
  show ?thesis using h(1) assms(1) by (simp add: m)
qed

section \<open>Counting\<close>

definition sent_total :: "'z publisher \<Rightarrow> u64" where
  "sent_total pb = pb_sent pb Visual2D + pb_sent pb Visual3D + pb_sent pb SensorData"

definition sockets_open :: "'z publisher \<Rightarrow> bool" where
  "sockets_open pb \<longleftrightarrow> (\<forall>g. pb_sock pb g \<noteq> None)"

lemma sent_total_upd:
  "pb_sent pb' = (pb_sent pb)(g := pb_sent pb g + 1) \<Longrightarrow> sent_total pb' = sent_total pb + 1"
  by (cases g) (simp_all add: sent_total_def)

lemma send_group_counts:
  assumes "send_group Z L c1 c2 f pb = Inr pb'" "sockets_open pb"
  shows "sent_total pb' + pb_dropped_hwm pb' = sent_total pb + pb_dropped_hwm pb + 1 \<and> sockets_open pb'"
proof -
  obtain sock where s: "pb_sock pb (cf_group f) = Some sock" using assms(2) by (auto simp: sockets_open_def)
  then obtain ok where "send_multipart Z L c1 c2 sock f pb = Inr (ok, pb')"
    using assms(1) by (auto simp: send_group_def rbind_eq_Inr)
  then obtain p where p: "same_counts pb p" "pb' = (if ok then count_sent (cf_group f) p else count_drop p)"
    using send_multipart_spec by (metis (full_types))
  have "sent_total p = sent_total pb" "pb_dropped_hwm p = pb_dropped_hwm pb" "sockets_open p"
    using p(1) assms(2) by (simp_all add: same_counts_def sent_total_def sockets_open_def)
  moreover have "sent_total (count_sent (cf_group f) p) = sent_total p + 1"
    by (rule sent_total_upd [where g = "cf_group f"]) (simp add: count_sent_def)
  moreover have "sent_total (count_drop p) = sent_total p" by (simp add: count_drop_def sent_total_def)
  ultimately show ?thesis
    using p(2) by (auto simp: count_sent_def count_drop_def sockets_open_def)
qed

text \<open>
  Every non-null frame taken from the pipeline is counted exactly once, as sent or as
  dropped, whatever ZeroMQ answers: with the three sockets open, publishing a list of frames
  raises the sum of the sent counters and the drop counter by the number of its non-null
  frames.
\<close>

theorem published_frames_counted:
  assumes "sockets_open pb" "send_all_frames Z L clocks fs pb = Inr pb'"
  shows "sent_total pb' + pb_dropped_hwm pb' =
    sent_total pb + pb_dropped_hwm pb + of_nat (length (filter (\<lambda>p. p \<noteq> None) fs)) \<and> sockets_open pb'"
  using assms
proof (induction Z L clocks fs pb rule: send_all_frames.induct)
  case (3 Z L clocks f fs pb)
  obtain p where p: "send_group Z L (fst (clocks 0)) (snd (clocks 0)) f pb = Inr p"
    "send_all_frames Z L (\<lambda>i. clocks (Suc i)) fs p = Inr pb'"
    using "3.prems"(2) by (auto simp: rbind_eq_Inr)
  note c = send_group_counts [OF p(1) "3.prems"(1)]
  with "3.IH" [of p] p(2) show ?case by (simp add: add.assoc)
qed simp_all

section \<open>The shutdown broadcast\<close>

text \<open>
  \<open>publish_shutdown\<close> is called on the main thread while the publishing thread still runs, on
  the same sockets. Between the header of a frame and its payload, the broadcast's single
  frame becomes part of that frame's message.
\<close>

lemma send_ctrl_log:
  assumes "send_ctrl Z L c (Some s) pb = Inr pb'"
  shows "\<exists>ev rc. jl_dump L (shutdown_json (pb_pub_id pb) (fst c) (snd c)) = Inr ev \<and>
    pb_log pb' = pb_log pb @ [(s, text_bytes ev, False, rc)] \<and>
    pb_shutdown_sent pb' = pb_shutdown_sent pb + (if 0 \<le> rc then 1 else 0)"
proof -
  obtain ev where ev: "jl_dump L (shutdown_json (pb_pub_id pb) (fst c) (snd c)) = Inr ev"
    using assms by (auto simp: send_ctrl_def rbind_eq_Inr)
  obtain rc p where f: "send_frame Z s (text_bytes ev) False pb = (rc, p)"
    by (cases "send_frame Z s (text_bytes ev) False pb")
  have "pb' = (if 0 \<le> rc then p\<lparr>pb_shutdown_sent := pb_shutdown_sent p + 1\<rparr> else p)"
    using assms by (cases "0 \<le> rc") (simp_all add: send_ctrl_def ev f Let_def)
  with send_frame_spec [OF f] ev show ?thesis by (auto simp: same_counts_def)
qed

text \<open>
  The race of the shutdown broadcast with the publishing thread: if the broadcast is sent
  after the header of a frame with one bundle and before its payload, and no send fails, the
  subscriber never receives that frame nor a message consisting of the shutdown event: it
  receives the header joined to the event, and then the bare payload.
\<close>

theorem shutdown_inside_multipart:
  assumes "open_message s pb = []"
    and "send_frame Z s h True pb = (rc, p1)" "0 \<le> rc"
    and "send_ctrl Z L c (Some s) p1 = Inr p2" "pb_shutdown_sent p2 \<noteq> pb_shutdown_sent p1"
    and "send_parts Z s [d] p2 = (True, p3)"
  shows "\<exists>ev. jl_dump L (shutdown_json (pb_pub_id pb) (fst c) (snd c)) = Inr ev \<and>
    messages s p3 = messages s pb @ [[h, text_bytes ev], [d]]"
proof -
  have f: "pb_log p1 = pb_log pb @ [(s, h, True, rc)]" "pb_pub_id p1 = pb_pub_id pb"
    using send_frame_spec [OF assms(2)] by (simp_all add: same_counts_def)
  obtain ev rc2 where e: "jl_dump L (shutdown_json (pb_pub_id pb) (fst c) (snd c)) = Inr ev"
    "pb_log p2 = pb_log p1 @ [(s, text_bytes ev, False, rc2)]" "0 \<le> rc2"
    using send_ctrl_log [OF assms(4)] assms(5) by (auto simp: f(2) split: if_splits)
  obtain calls where c: "pb_log p3 = pb_log p2 @ calls" "wire s calls = framed [d]"
    using send_parts_spec [OF assms(6)] by auto
  have "pb_log p3 = pb_log pb @ ((s, h, True, rc) # (s, text_bytes ev, False, rc2) # calls)"
    by (simp add: f(1) e(2) c(1))
  from messages_extend [OF this, of s] assms(1,3) e(3) c(2)
  have "messages s p3 = messages s pb @ [[h, text_bytes ev], [d]]"
    by (simp add: wire_def Let_def)
  with e(1) show ?thesis by blast
qed

text \<open>A ZeroMQ that accepts a number of sends, and a publisher with open sockets.\<close>

definition count_zmq :: "nat zmq_lib" where
  "count_zmq = \<lparr>z_socket = (\<lambda>n. (Some 7, n)), z_setsockopt = (\<lambda>_ _ _ n. n), z_bind = (\<lambda>_ _ n. (0, n)),
     z_send = (\<lambda>_ d _ n. if n = 0 then (- 1, 0) else (int (length d), n - 1))\<rparr>"

definition brace_lib :: json_lib where
  "brace_lib = conv_lib (\<lambda>_. Inr JNull) (\<lambda>_. Inr ''{}'')"

definition demo_pub :: "nat \<Rightarrow> nat publisher" where
  "demo_pub n = (publisher_new n config_default)\<lparr>pb_sock := (\<lambda>_. Some 7)\<rparr>"

definition demo_frame :: channel_frame where
  "demo_frame = imu_frame\<lparr>cf_bundles := [(make_bundle IMU ''imu'' 0 0)\<lparr>b_data := [1, 2]\<rparr>]\<rparr>"

lemmas demo_defs = count_zmq_def brace_lib_def demo_pub_def demo_frame_def publisher_new_def
  imu_frame_def make_bundle_def conv_lib_def multipart_of_def send_frame_def count_sent_def count_drop_def

lemma demo_closed: "open_message 7 (demo_pub n) = []" "messages 7 (demo_pub n) = []"
  by (simp_all add: open_message_def messages_def demo_pub_def publisher_new_def)

lemma demo_send:
  "\<exists>p. send_multipart count_zmq brace_lib 0 0 7 demo_frame (demo_pub 9) = Inr (True, p)"
  by (simp add: send_multipart_parts demo_defs Let_def)

lemma demo_send_fails:
  "\<exists>p. send_multipart count_zmq brace_lib 0 0 7 demo_frame (demo_pub 1) = Inr (False, p) \<and>
     open_message 7 p = [text_bytes ''{}'']"
  by (simp add: send_multipart_parts demo_defs Let_def open_message_def wire_def)


definition glued :: "nat publisher" where
  "glued = (demo_pub 9)\<lparr>pb_log := [(7, [1], True, 1)]\<rparr>"

theorem failed_send_corrupts_next_witness:
  "\<exists>p hs. send_multipart count_zmq brace_lib 0 0 7 demo_frame glued = Inr (True, p) \<and>
     messages 7 p = [[1] # multipart_of hs demo_frame]"
proof -
  have o: "open_message 7 glued = [[1]]" "messages 7 glued = []"
    by (simp_all add: open_message_def messages_def glued_def wire_def)
  then have ne: "open_message 7 glued \<noteq> []" by simp
  obtain p where p: "send_multipart count_zmq brace_lib 0 0 7 demo_frame glued = Inr (True, p)"
    by (simp add: send_multipart_parts demo_defs glued_def Let_def)
  from failed_send_corrupts_next [OF ne p] p show ?thesis by (auto simp: o)
qed

theorem published_frames_counted_witness:
  "\<exists>p. send_all_frames count_zmq brace_lib (\<lambda>_. (0, 0)) [Some demo_frame, None, Some demo_frame] (demo_pub 3) = Inr p \<and>
     sent_total p + pb_dropped_hwm p = 2"
proof -
  let ?fs = "[Some demo_frame, None, Some demo_frame]"
  have "sockets_open (demo_pub 3)" by (simp add: sockets_open_def demo_pub_def)
  moreover obtain p where p: "send_all_frames count_zmq brace_lib (\<lambda>_. (0, 0)) ?fs (demo_pub 3) = Inr p"
    by (simp add: send_group_def send_multipart_parts demo_defs Let_def)
  ultimately have "sent_total p + pb_dropped_hwm p =
      sent_total (demo_pub 3) + pb_dropped_hwm (demo_pub 3) + of_nat (length (filter (\<lambda>p. p \<noteq> None) ?fs))"
    using published_frames_counted by blast
  then show ?thesis using p by (simp add: sent_total_def demo_pub_def publisher_new_def)
qed

theorem shutdown_inside_multipart_witness:
  "\<exists>p1 p2 p3. send_ctrl count_zmq brace_lib (0, 0) (Some 7) p1 = Inr p2 \<and>
     send_parts count_zmq 7 [[9]] p2 = (True, p3) \<and>
     messages 7 p3 = [[[5], text_bytes ''{}''], [[9]]]"
proof -
  obtain p1 where p1: "send_frame count_zmq 7 [5] True (demo_pub 9) = (1, p1)"
    by (simp add: demo_defs)
  then have e1: "p1 = snd (send_frame count_zmq 7 [5] True (demo_pub 9))" by simp
  obtain p2 where p2: "send_ctrl count_zmq brace_lib (0, 0) (Some 7) p1 = Inr p2"
    "pb_shutdown_sent p2 \<noteq> pb_shutdown_sent p1"
    by (simp add: e1 send_ctrl_def demo_defs Let_def)
  obtain p3 where p3: "send_parts count_zmq 7 [[9]] p2 = (True, p3)"
    using p2(1) by (auto simp: e1 send_ctrl_def demo_defs Let_def)
  have d: "jl_dump brace_lib j = Inr ''{}''" for j by (simp add: brace_lib_def conv_lib_def)
  from shutdown_inside_multipart [OF demo_closed(1) p1 _ p2 p3] p2 p3 show ?thesis
    by (auto simp: d demo_closed)
qed

end
