(* ===== verification/DataPath.thy ===== *)
theory DataPath
  imports Publisher
begin

text \<open>
  The whole data path: capture rounds (\<open>src/capture/CaptureEngine.cpp\<close>), the pipeline
  (\<open>src/data/DataPipeline.cpp\<close>), publishing rounds (\<open>src/data/DataPublisher.cpp\<close>) and the flushes
  that the commands make (\<open>src/api/CommandHandler.cpp\<close>), in any order of whole calls. Ghost
  variables list the frames the engine offered to the pipeline, with the answer of \<open>push\<close>, and
  the frames that left it, published or flushed.
\<close>

section \<open>Runs of the data path\<close>

record 'z system =
  sy_engine :: engine
  sy_pub :: "'z publisher"
  sy_captured :: "(channel_frame \<times> bool) list"
  sy_taken :: "(channel_frame \<times> bool) list"

datatype sys_event =
    CaptureGroup tick_env data_group
  | NextRound
  | Publish "nat \<Rightarrow> int \<times> int"
  | FlushAll
  | FlushGroup data_group

definition offered :: "gen_env \<Rightarrow> tick_env \<Rightarrow> data_group \<Rightarrow> engine \<Rightarrow> (channel_frame \<times> bool) list" where
  "offered G E g ce =
     (if \<not> te_group E g then []
      else
        (case build_frame G (te_build_params E g) (te_active E) g
                (now_unix_sec (te_clock_sec E)) (now_unix_nsec (te_clock_nsec E))
                (ce_frame_index ce) [] (ce_source ce) of
           Inl e \<Rightarrow> []
         | Inr (f, ds) \<Rightarrow>
             (if cf_bundles f \<noteq> [] then [(f, fst (dp_push g (Some f) (ce_pipeline ce)))] else [])))"

definition left_with :: "bool \<Rightarrow> frame_ptr list \<Rightarrow> (channel_frame \<times> bool) list" where
  "left_with b ps = map (\<lambda>p. (the p, b)) (filter (\<lambda>p. p \<noteq> None) ps)"

definition set_pipeline :: "data_pipeline \<Rightarrow> 'z system \<Rightarrow> 'z system" where
  "set_pipeline dp s = s\<lparr>sy_engine := (sy_engine s)\<lparr>ce_pipeline := dp\<rparr>\<rparr>"

fun sys_step ::
    "gen_env \<Rightarrow> 'z zmq_lib \<Rightarrow> json_lib \<Rightarrow> sys_event \<Rightarrow> 'z system \<Rightarrow> 'z system result" where
  "sys_step G Z L (CaptureGroup E g) s =
     rbind (tick_group G E g (sy_engine s)) (\<lambda>ce.
       Inr (s\<lparr>sy_engine := ce, sy_captured := sy_captured s @ offered G E g (sy_engine s)\<rparr>))"
| "sys_step G Z L NextRound s =
     (let ce = sy_engine s in
      Inr (s\<lparr>sy_engine := ce\<lparr>ce_frame_index := ce_frame_index ce + 1,
                             ce_frames_produced := ce_frames_produced ce + 1\<rparr>\<rparr>))"
| "sys_step G Z L (Publish clocks) s =
     (let dp = ce_pipeline (sy_engine s) in
      rbind (publish_round Z L clocks [] dp (sy_pub s)) (\<lambda>r.
        Inr ((set_pipeline (fst r) s)\<lparr>sy_pub := snd r,
               sy_taken := sy_taken s @ left_with True (fst (pop_all [] dp))\<rparr>)))"
| "sys_step G Z L FlushAll s =
     (let dp = ce_pipeline (sy_engine s) in
      Inr ((set_pipeline (dp_drain dp) s)\<lparr>
             sy_taken := sy_taken s @ left_with False (fst (pop_queues dp))\<rparr>))"
| "sys_step G Z L (FlushGroup g) s =
     (let dp = ce_pipeline (sy_engine s) in
      Inr ((set_pipeline (drain_group g dp) s)\<lparr>
             sy_taken := sy_taken s @ left_with False (fst (pop_loop (dp_queue g dp)))\<rparr>))"

fun sys_run ::
    "gen_env \<Rightarrow> 'z zmq_lib \<Rightarrow> json_lib \<Rightarrow> sys_event list \<Rightarrow> 'z system \<Rightarrow> 'z system result" where
  "sys_run G Z L [] s = Inr s"
| "sys_run G Z L (e # es) s = rbind (sys_step G Z L e s) (sys_run G Z L es)"

definition sys_start :: "engine \<Rightarrow> 'z publisher \<Rightarrow> 'z system" where
  "sys_start ce pb = \<lparr>sy_engine = ce, sy_pub = pb, sy_captured = [], sy_taken = []\<rparr>"

text \<open>A capture round of the engine is three such events and the end of the round.\<close>

lemma tick_as_events:
  assumes "tick G E ce = Inr (ce', ms)"
  shows "\<exists>cap. sys_run G Z L [CaptureGroup E Visual2D, CaptureGroup E Visual3D,
      CaptureGroup E SensorData, NextRound] (sys_start ce pb) =
    Inr \<lparr>sy_engine = ce', sy_pub = pb, sy_captured = cap, sy_taken = []\<rparr>"
  using assms by (auto simp: tick_def rbind_eq_Inr sys_start_def Let_def)

section \<open>What the publisher puts on the wire\<close>

text \<open>
  A PUB socket that has reached its high-water mark drops messages itself: \<open>zmq_msg_send\<close> does
  not fail on it.
\<close>

definition pub_accepts :: "'z zmq_lib \<Rightarrow> bool" where
  "pub_accepts Z \<longleftrightarrow> (\<forall>s d m z. 0 \<le> fst (z_send Z s d m z))"

definition pub_ready :: "(data_group \<Rightarrow> nat) \<Rightarrow> 'z publisher \<Rightarrow> bool" where
  "pub_ready so pb \<longleftrightarrow> inj so \<and> (\<forall>g. pb_sock pb g = Some (so g) \<and> open_message (so g) pb = [])"

text \<open>The message of a frame: the header with some reading of the clock, and the payloads.\<close>

definition carries :: "json_lib \<Rightarrow> string \<Rightarrow> byte list list \<Rightarrow> channel_frame \<Rightarrow> bool" where
  "carries L pub_id m f \<longleftrightarrow>
     (\<exists>c1 c2 hs. jl_dump L (header_json pub_id c1 c2 f) = Inr hs \<and> m = multipart_of hs f)"

definition delivers ::
    "json_lib \<Rightarrow> (data_group \<Rightarrow> nat) \<Rightarrow> 'z publisher \<Rightarrow> 'z publisher \<Rightarrow>
     (data_group \<Rightarrow> channel_frame list) \<Rightarrow> bool" where
  "delivers L so pb pb' F \<longleftrightarrow>
     pub_ready so pb' \<and> pb_pub_id pb' = pb_pub_id pb \<and> pb_dropped_hwm pb' = pb_dropped_hwm pb \<and>
     (\<forall>g. (\<exists>ms. messages (so g) pb' = messages (so g) pb @ ms \<and>
               list_all2 (carries L (pb_pub_id pb)) ms (F g)) \<and>
          pb_sent pb' g = pb_sent pb g + of_nat (length (F g)))"

lemma delivers_refl: "pub_ready so pb \<Longrightarrow> delivers L so pb pb (\<lambda>g. [])"
  by (simp add: delivers_def)

lemma delivers_trans:
  assumes "delivers L so a b F" "delivers L so b c H"
  shows "delivers L so a c (\<lambda>g. F g @ H g)"
  unfolding delivers_def
proof (intro conjI allI)
  fix g
  obtain m1 m2 where
    "messages (so g) b = messages (so g) a @ m1" "list_all2 (carries L (pb_pub_id a)) m1 (F g)"
    "messages (so g) c = messages (so g) b @ m2" "list_all2 (carries L (pb_pub_id b)) m2 (H g)"
    using assms unfolding delivers_def by blast
  moreover have "pb_pub_id b = pb_pub_id a" using assms(1) by (simp add: delivers_def)
  ultimately show "\<exists>ms. messages (so g) c = messages (so g) a @ ms \<and>
      list_all2 (carries L (pb_pub_id a)) ms (F g @ H g)"
    by (intro exI [of _ "m1 @ m2"]) (simp add: list_all2_appendI)
qed (use assms in \<open>simp_all add: delivers_def add.assoc\<close>)

lemma send_parts_accepted:
  assumes "pub_accepts Z"
  shows "fst (send_parts Z sock ds pb)"
proof (induction ds arbitrary: pb)
  case (Cons d ds)
  have "\<not> fst (send_frame Z sock d m pb) < 0" for m
    using assms by (simp add: send_frame_def pub_accepts_def Let_def not_less)
  with Cons show ?case by (simp add: Let_def)
qed simp

lemma send_group_delivers:
  assumes "pub_accepts Z" "pub_ready so pb" "send_group Z L c1 c2 f pb = Inr pb'"
  shows "delivers L so pb pb' (\<lambda>g. if g = cf_group f then [f] else [])"
proof -
  have so: "pb_sock pb (cf_group f) = Some (so (cf_group f))" and inj: "inj so"
    and cl: "open_message (so g) pb = []" for g
    using assms(2) by (simp_all add: pub_ready_def)
  obtain ok where sm: "send_multipart Z L c1 c2 (so (cf_group f)) f pb = Inr (ok, pb')"
    using assms(3) so by (auto simp: send_group_def rbind_eq_Inr)
  have ok
    using sm send_parts_accepted [OF assms(1)]
    by (auto simp: send_multipart_parts rbind_eq_Inr Let_def split: if_splits)
  then obtain hs calls p where h: "jl_dump L (header_json (pb_pub_id pb) c1 c2 f) = Inr hs"
    "pb_log pb' = pb_log pb @ calls" "own_calls (so (cf_group f)) calls"
    "wire (so (cf_group f)) calls = framed (multipart_of hs f)" "same_counts pb p"
    "pb' = count_sent (cf_group f) p"
    using send_multipart_spec [OF sm] by auto
  have ne: "multipart_of hs f \<noteq> []" by (simp add: multipart_of_def)
  have car: "carries L (pb_pub_id pb) (multipart_of hs f) f"
    using h(1) by (auto simp: carries_def)
  have msg: "messages (so g) pb' = messages (so g) pb @
        (if g = cf_group f then [multipart_of hs f] else []) \<and> open_message (so g) pb' = []" for g
  proof (cases "g = cf_group f")
    case True
    then show ?thesis
      using messages_extend [OF h(2), of "so g"] h(4) assemble_framed [OF ne, of "[]"] cl by simp
  next
    case False
    then have "so g \<noteq> so (cf_group f)" using inj by (auto dest: injD)
    then show ?thesis
      using False messages_extend [OF h(2), of "so g"] wire_other [OF h(3), of "so g"] cl by auto
  qed
  have "pb_sock pb' = pb_sock pb" "pb_pub_id pb' = pb_pub_id pb"
    "pb_dropped_hwm pb' = pb_dropped_hwm pb"
    "pb_sent pb' = (pb_sent pb)(cf_group f := pb_sent pb (cf_group f) + 1)"
    using h(5,6) by (simp_all add: same_counts_def count_sent_def)
  then show ?thesis
    using msg assms(2) car by (simp add: delivers_def pub_ready_def)
qed

lemma send_all_delivers:
  assumes "pub_accepts Z" "pub_ready so pb" "send_all_frames Z L clocks fs pb = Inr pb'"
  shows "delivers L so pb pb' (\<lambda>g. map the (of_group g fs))"
  using assms
proof (induction Z L clocks fs pb rule: send_all_frames.induct)
  case (1 Z L clocks pb)
  then show ?case by (simp add: delivers_refl)
next
  case (2 Z L clocks fs pb)
  then show ?case by (simp add: of_group_def)
next
  case (3 Z L clocks f fs pb)
  obtain p where p: "send_group Z L (fst (clocks 0)) (snd (clocks 0)) f pb = Inr p"
    "send_all_frames Z L (\<lambda>i. clocks (Suc i)) fs p = Inr pb'"
    using "3.prems"(3) by (auto simp: rbind_eq_Inr)
  note d = send_group_delivers [OF "3.prems"(1,2) p(1)]
  then have "pub_ready so p" by (simp add: delivers_def)
  from delivers_trans [OF d "3.IH" [OF "3.prems"(1) this p(2)]]
  have "delivers L so pb pb' (\<lambda>g. (if g = cf_group f then [f] else []) @ map the (of_group g fs))" .
  moreover have "(\<lambda>g. (if g = cf_group f then [f] else []) @ map the (of_group g fs)) =
      (\<lambda>g. map the (of_group g (Some f # fs)))"
    by (auto simp: fun_eq_iff of_group_def)
  ultimately show ?case by simp
qed

section \<open>From the camera to the wire\<close>

definition grp :: "data_group \<Rightarrow> (channel_frame \<times> bool) list \<Rightarrow> (channel_frame \<times> bool) list" where
  "grp g xs = filter (\<lambda>x. cf_group (fst x) = g) xs"

lemma grp_append [simp]: "grp g (xs @ ys) = grp g xs @ grp g ys"
  by (simp add: grp_def)

lemma grp_Nil [simp]: "grp g [] = []"
  by (simp add: grp_def)

lemma grp_left_with: "grp g (left_with b ps) = map (\<lambda>p. (the p, b)) (of_group g ps)"
  by (induction ps) (auto simp: grp_def left_with_def of_group_def)

lemma map_the_of_group: "map (Some \<circ> the) (of_group g ps) = of_group g ps"
  by (auto simp: of_group_def intro!: map_idI)

lemma filter_snd_const: "filter snd (map (\<lambda>x. (h x, b)) xs) = (if b then map (\<lambda>x. (h x, b)) xs else [])"
  by (induction xs) auto

fun is_flush :: "sys_event \<Rightarrow> bool" where
  "is_flush FlushAll = True"
| "is_flush (FlushGroup g) = True"
| "is_flush _ = False"

lemma tick_group_offered:
  assumes "tick_group G E g ce = Inr ce'"
  shows "(offered G E g ce = [] \<and> ce_pipeline ce' = ce_pipeline ce) \<or>
    (\<exists>f. offered G E g ce = [(f, fst (dp_push g (Some f) (ce_pipeline ce)))] \<and> cf_group f = g \<and>
       ce_pipeline ce' = snd (dp_push g (Some f) (ce_pipeline ce)))"
proof (cases "te_group E g")
  case False
  with assms show ?thesis by (simp add: tick_group_def offered_def)
next
  case True
  then obtain f ds where bf: "build_frame G (te_build_params E g) (te_active E) g
      (now_unix_sec (te_clock_sec E)) (now_unix_nsec (te_clock_nsec E)) (ce_frame_index ce) []
      (ce_source ce) = Inr (f, ds)"
    using assms by (auto simp: tick_group_def rbind_eq_Inr)
  then have "cf_group f = g" by (auto simp: build_frame_def rbind_eq_Inr)
  with assms True bf show ?thesis
    by (cases "cf_bundles f = []") (auto simp: tick_group_def offered_def)
qed

lemma pop_all_none:
  assumes "dp_at n dp" "sorted_out dp" "pop_all [] dp = (fs, got, dp')"
  shows "of_group g fs = dp_items dp g \<and> dp_items dp' = (\<lambda>_. []) \<and> dp_at n dp' \<and> (\<not> got \<longrightarrow> fs = [])"
proof (cases "fst (pop_queues dp) = []")
  case False
  with assms(3) show ?thesis
    using pop_queues_spec(2,3) [OF assms(1)] of_group_pop_queues [OF assms(1,2)]
    by (auto simp: pop_all_def Let_def)
next
  case True
  let ?d = "(snd (pop_queues dp))\<lparr>dp_notified := False\<rparr>"
  note p = pop_queues_spec [OF assms(1)]
  have at: "dp_at n ?d" "dp_items ?d = (\<lambda>_. [])" using p by simp_all
  then have so: "sorted_out ?d" by (simp add: sorted_out_def)
  have e: "dp_items dp g = []" using of_group_pop_queues [OF assms(1,2)] True by (metis of_group_Nil)
  have "fst (pop_queues ?d) = []" using pop_queues_spec(1) [OF at(1)] at(2) by simp
  with assms(3) True e show ?thesis
    using pop_queues_spec(2,3) [OF at(1)] by (auto simp: pop_all_def Let_def)
qed

text \<open>The frames of a group accepted so far have left the queue or are still in it.\<close>

definition path_inv :: "'z system \<Rightarrow> bool" where
  "path_inv s \<longleftrightarrow>
     (let dp = ce_pipeline (sy_engine s) in
      dp_at (length (sy_captured s)) dp \<and> sorted_out dp \<and>
      (\<forall>g. map (Some \<circ> fst) (filter snd (grp g (sy_captured s))) =
           map (Some \<circ> fst) (grp g (sy_taken s)) @ dp_items dp g))"

lemma path_inv_take:
  assumes "path_inv s" "dp_at (length (sy_captured s)) dp'" "sorted_out dp'"
    and "\<And>g. dp_items (ce_pipeline (sy_engine s)) g = of_group g ps @ dp_items dp' g"
  shows "path_inv ((set_pipeline dp' s)\<lparr>sy_taken := sy_taken s @ left_with b ps\<rparr>)"
proof -
  have "map (Some \<circ> fst) (grp g (left_with b ps)) = of_group g ps" for g
    using map_the_of_group [of g ps] by (simp add: grp_left_with comp_def)
  with assms show ?thesis by (simp add: path_inv_def set_pipeline_def Let_def)
qed

lemma path_inv_pub [simp]: "path_inv (s\<lparr>sy_pub := p\<rparr>) = path_inv s"
  by (simp add: path_inv_def)

lemma path_inv_capture:
  assumes "path_inv s" "tick_group G E g (sy_engine s) = Inr ce" "length (sy_captured s) < 2 ^ 64"
  shows "path_inv (s\<lparr>sy_engine := ce, sy_captured := sy_captured s @ offered G E g (sy_engine s)\<rparr>)"
  using tick_group_offered [OF assms(2)]
proof
  assume "offered G E g (sy_engine s) = [] \<and> ce_pipeline ce = ce_pipeline (sy_engine s)"
  with assms(1) show ?thesis by (simp add: path_inv_def)
next
  let ?dp = "ce_pipeline (sy_engine s)"
  assume "\<exists>f. offered G E g (sy_engine s) = [(f, fst (dp_push g (Some f) ?dp))] \<and> cf_group f = g \<and>
    ce_pipeline ce = snd (dp_push g (Some f) ?dp)"
  then obtain f where f: "offered G E g (sy_engine s) = [(f, fst (dp_push g (Some f) ?dp))]"
    "cf_group f = g" "ce_pipeline ce = snd (dp_push g (Some f) ?dp)" by blast
  have at: "dp_at (length (sy_captured s)) ?dp" and so: "sorted_out ?dp"
    and eq: "map (Some \<circ> fst) (filter snd (grp h (sy_captured s))) =
      map (Some \<circ> fst) (grp h (sy_taken s)) @ dp_items ?dp h" for h
    using assms(1) by (simp_all add: path_inv_def Let_def)
  note p = dp_push_spec [OF at assms(3), where g = g and f = "Some f"]
  have "sorted_out (ce_pipeline ce)"
    using so f(2) by (auto simp: sorted_out_def f(3) p(1))
  moreover have "dp_at (Suc (length (sy_captured s))) (ce_pipeline ce)" using p(3) by (simp add: f(3))
  ultimately show ?thesis
    using eq by (auto simp: path_inv_def Let_def f(1) f(3) p(1) grp_def f(2))
qed

lemma sys_step_inv:
  assumes inv: "path_inv s" and st: "sys_step G Z L e s = Inr s'" and b: "length (sy_captured s') < 2 ^ 64"
  shows "path_inv s'"
proof -
  let ?dp = "ce_pipeline (sy_engine s)"
  have at: "dp_at (length (sy_captured s)) ?dp" and so: "sorted_out ?dp"
    using inv by (simp_all add: path_inv_def Let_def)
  note pq = pop_queues_spec [OF at] of_group_pop_queues [OF at so]
  show ?thesis
  proof (cases e)
    case (CaptureGroup E g)
    then obtain ce where ce: "tick_group G E g (sy_engine s) = Inr ce"
      "s' = s\<lparr>sy_engine := ce, sy_captured := sy_captured s @ offered G E g (sy_engine s)\<rparr>"
      using st by (auto simp: rbind_eq_Inr)
    with b path_inv_capture [OF inv ce(1)] show ?thesis by simp
  next
    case NextRound
    with st inv show ?thesis by (auto simp: path_inv_def Let_def)
  next
    case (Publish clocks)
    obtain fs got dp' where pa: "pop_all [] ?dp = (fs, got, dp')" by (cases "pop_all [] ?dp")
    note pn = pop_all_none [OF at so pa]
    obtain pb where "s' = (set_pipeline dp' s)\<lparr>sy_pub := pb, sy_taken := sy_taken s @ left_with True fs\<rparr>"
      using st Publish pa by (auto simp: publish_round_def rbind_eq_Inr Let_def split: if_splits)
    then have "s' = ((set_pipeline dp' s)\<lparr>sy_taken := sy_taken s @ left_with True fs\<rparr>)\<lparr>sy_pub := pb\<rparr>"
      by simp
    moreover have "sorted_out dp'" using pn by (simp add: sorted_out_def)
    ultimately show ?thesis using path_inv_take [OF inv, of dp' fs True] pn by simp
  next
    case FlushAll
    note d = dp_drain_spec [OF at]
    have s': "s' = (set_pipeline (dp_drain ?dp) s)\<lparr>
        sy_taken := sy_taken s @ left_with False (fst (pop_queues ?dp))\<rparr>"
      using FlushAll st by (simp add: Let_def)
    show ?thesis unfolding s'
    proof (rule path_inv_take [OF inv])
      show "dp_at (length (sy_captured s)) (dp_drain ?dp)" using d by simp
      show "sorted_out (dp_drain ?dp)" using d by (simp add: sorted_out_def)
      show "dp_items ?dp g = of_group g (fst (pop_queues ?dp)) @ dp_items (dp_drain ?dp) g" for g
        using d pq(4) by simp
    qed
  next
    case (FlushGroup g)
    note d = drain_group_spec [OF at, of g]
    have l: "fst (pop_loop (dp_queue g ?dp)) = dp_items ?dp g"
      using ring.drain_items [OF dp_at_invar [OF at, of g]] by (simp add: dp_items_def)
    have s': "s' = (set_pipeline (drain_group g ?dp) s)\<lparr>
        sy_taken := sy_taken s @ left_with False (dp_items ?dp g)\<rparr>"
      using FlushGroup st by (simp add: Let_def l)
    show ?thesis unfolding s'
    proof (rule path_inv_take [OF inv])
      show "dp_at (length (sy_captured s)) (drain_group g ?dp)" using d by simp
      show "sorted_out (drain_group g ?dp)" using d so by (simp add: sorted_out_def)
      show "dp_items ?dp h = of_group h (dp_items ?dp g) @ dp_items (drain_group g ?dp) h" for h
        using d of_group_items [OF so] by simp
    qed
  qed
qed

definition published :: "'z system \<Rightarrow> data_group \<Rightarrow> channel_frame list" where
  "published s g = map fst (filter snd (grp g (sy_taken s)))"

lemma pop_all_got: "pop_all arr dp = (fs, got, dp') \<Longrightarrow> \<not> got \<Longrightarrow> fs = []"
  by (auto simp: pop_all_def Let_def split: if_splits)

lemma sys_step_delivers:
  assumes "pub_accepts Z" "delivers L so pb0 (sy_pub s) (published s)" "sys_step G Z L e s = Inr s'"
  shows "delivers L so pb0 (sy_pub s') (published s')"
proof (cases e)
  case (CaptureGroup E g)
  with assms(2,3) show ?thesis by (auto simp: rbind_eq_Inr published_def [abs_def])
next
  case (Publish clocks)
  let ?dp = "ce_pipeline (sy_engine s)"
  obtain fs got dp' where pa: "pop_all [] ?dp = (fs, got, dp')" by (cases "pop_all [] ?dp")
  obtain pb where sa: "if got then send_all_frames Z L clocks fs (sy_pub s) = Inr pb else pb = sy_pub s"
    and s': "sy_pub s' = pb" "sy_taken s' = sy_taken s @ left_with True fs"
    using assms(3) Publish pa
    by (cases got) (auto simp: publish_round_def rbind_eq_Inr Let_def set_pipeline_def)
  have ready: "pub_ready so (sy_pub s)" using assms(2) by (simp add: delivers_def)
  have "delivers L so (sy_pub s) pb (\<lambda>g. map the (of_group g fs))"
  proof (cases got)
    case True
    with sa send_all_delivers [OF assms(1) ready] show ?thesis by simp
  next
    case False
    with sa pop_all_got [OF pa] delivers_refl [OF ready] show ?thesis by simp
  qed
  note d = delivers_trans [OF assms(2) this]
  have "published s' = (\<lambda>g. published s g @ map the (of_group g fs))"
    by (simp add: fun_eq_iff published_def s'(2) grp_left_with filter_snd_const comp_def)
  with d show ?thesis by (simp add: s'(1))
next
  case FlushAll
  have "published s' = published s" "sy_pub s' = sy_pub s"
    using assms(3) FlushAll
    by (auto simp: fun_eq_iff published_def Let_def grp_left_with filter_snd_const set_pipeline_def)
  with assms(2) show ?thesis by simp
next
  case (FlushGroup g)
  have "published s' = published s" "sy_pub s' = sy_pub s"
    using assms(3) FlushGroup
    by (auto simp: fun_eq_iff published_def Let_def grp_left_with filter_snd_const set_pipeline_def)
  with assms(2) show ?thesis by simp
next
  case NextRound
  with assms(2,3) show ?thesis by (auto simp: published_def [abs_def] Let_def)
qed

lemma sys_step_captured:
  "sys_step G Z L e s = Inr s' \<Longrightarrow> length (sy_captured s) \<le> length (sy_captured s')"
  by (cases e) (auto simp: rbind_eq_Inr Let_def set_pipeline_def)

lemma sys_run_captured:
  "sys_run G Z L es s = Inr s' \<Longrightarrow> length (sy_captured s) \<le> length (sy_captured s')"
proof (induction es arbitrary: s)
  case (Cons e es)
  then obtain s1 where "sys_step G Z L e s = Inr s1" "sys_run G Z L es s1 = Inr s'"
    by (auto simp: rbind_eq_Inr)
  with sys_step_captured [of G Z L e s s1] Cons.IH [of s1] show ?case by simp
qed simp

lemma sys_run_inv:
  assumes "pub_accepts Z" "sys_run G Z L es s = Inr s'" "length (sy_captured s') < 2 ^ 64"
    and "path_inv s" "delivers L so pb0 (sy_pub s) (published s)"
  shows "path_inv s' \<and> delivers L so pb0 (sy_pub s') (published s')"
  using assms(2,4,5)
proof (induction es arbitrary: s)
  case (Cons e es)
  then obtain s1 where r: "sys_step G Z L e s = Inr s1" "sys_run G Z L es s1 = Inr s'"
    by (auto simp: rbind_eq_Inr)
  have "length (sy_captured s1) < 2 ^ 64" using sys_run_captured [OF r(2)] assms(3) by simp
  then show ?case
    using Cons.IH [OF r(2) sys_step_inv [OF Cons.prems(2) r(1)]]
      sys_step_delivers [OF assms(1) Cons.prems(3) r(1)] by blast
qed simp

lemma sys_step_unflushed:
  assumes "sys_step G Z L e s = Inr s'" "\<not> is_flush e" "filter snd (sy_taken s) = sy_taken s"
  shows "filter snd (sy_taken s') = sy_taken s'"
  using assms
  by (cases e) (auto simp: rbind_eq_Inr Let_def set_pipeline_def left_with_def filter_snd_const)

lemma sys_run_unflushed:
  "sys_run G Z L es s = Inr s' \<Longrightarrow> list_all (\<lambda>e. \<not> is_flush e) es \<Longrightarrow>
   filter snd (sy_taken s) = sy_taken s \<Longrightarrow> filter snd (sy_taken s') = sy_taken s'"
proof (induction es arbitrary: s)
  case (Cons e es)
  then obtain s1 where r: "sys_step G Z L e s = Inr s1" "sys_run G Z L es s1 = Inr s'"
    by (auto simp: rbind_eq_Inr)
  show ?case
    using Cons.IH [OF r(2)] sys_step_unflushed [OF r(1)] Cons.prems by simp
qed simp

lemma filter_grp_id: "filter snd xs = xs \<Longrightarrow> filter snd (grp g xs) = grp g xs"
  by (auto simp: grp_def filter_id_conv intro: filter_cong)


text \<open>A ZeroMQ that accepts every send, and a publisher with three sockets.\<close>

definition open_zmq :: "nat zmq_lib" where
  "open_zmq = count_zmq\<lparr>z_send := (\<lambda>_ d _ n. (int (length d), n))\<rparr>"

fun sock_of :: "data_group \<Rightarrow> nat" where
  "sock_of Visual2D = 1"
| "sock_of Visual3D = 2"
| "sock_of SensorData = 3"

definition open_pub :: "nat publisher" where
  "open_pub = (publisher_new 0 config_default)\<lparr>pb_sock := (\<lambda>g. Some (sock_of g))\<rparr>"

lemma open_pub_ready: "pub_ready sock_of open_pub"
proof -
  have "inj sock_of"
  proof (rule injI)
    fix g h show "sock_of g = sock_of h \<Longrightarrow> g = h" by (cases g; cases h) simp_all
  qed
  then show ?thesis by (simp add: pub_ready_def open_pub_def publisher_new_def open_message_def)
qed

lemma open_zmq_accepts: "pub_accepts open_zmq"
  by (simp add: pub_accepts_def open_zmq_def)

lemma send_all_total:
  "(\<And>j. \<exists>d. jl_dump L j = Inr d) \<Longrightarrow> \<exists>pb'. send_all_frames Z L clocks fs pb = Inr pb'"
proof (induction Z L clocks fs pb rule: send_all_frames.induct)
  case (3 Z L clocks f fs pb)
  obtain d where d: "jl_dump L (header_json (pb_pub_id pb) (fst (clocks 0)) (snd (clocks 0)) f) = Inr d"
    using "3.prems" by blast
  have "\<exists>p. send_group Z L (fst (clocks 0)) (snd (clocks 0)) f pb = Inr p"
    by (cases "pb_sock pb (cf_group f)") (simp_all add: send_group_def send_multipart_parts d Let_def)
  then obtain p where p: "send_group Z L (fst (clocks 0)) (snd (clocks 0)) f pb = Inr p" ..
  with "3.IH" [OF "3.prems"] show ?case by simp
qed simp_all

lemma publish_total:
  assumes "\<And>j. \<exists>d. jl_dump L j = Inr d"
  shows "\<exists>s'. sys_step G Z L (Publish clocks) s = Inr s'"
proof -
  obtain fs got dp' where pa: "pop_all [] (ce_pipeline (sy_engine s)) = (fs, got, dp')"
    by (cases "pop_all [] (ce_pipeline (sy_engine s))")
  obtain pb where "send_all_frames Z L clocks fs (sy_pub s) = Inr pb"
    using send_all_total [OF assms] by blast
  with pa show ?thesis by (cases got) (simp_all add: publish_round_def Let_def)
qed

text \<open>One capture of the sensor group and one publishing round.\<close>

definition demo_events :: "sys_event list" where
  "demo_events = [CaptureGroup demo_tick SensorData, Publish (\<lambda>_. (0, 0))]"

lemma demo_system_run:
  "\<exists>s. sys_run demo_gen open_zmq brace_lib demo_events (sys_start demo_engine open_pub) = Inr s \<and>
     length (sy_captured s) \<le> 1"
proof -
  obtain ce where ce: "tick_group demo_gen demo_tick SensorData demo_engine = Inr ce"
    using tick_group_total [OF demo_engine_good demo_gen_ok] by blast
  let ?s = "\<lparr>sy_engine = ce, sy_pub = open_pub,
    sy_captured = offered demo_gen demo_tick SensorData demo_engine, sy_taken = []\<rparr>"
  have dump: "\<exists>d. jl_dump brace_lib j = Inr d" for j by (simp add: brace_lib_def conv_lib_def)
  obtain s where s: "sys_step demo_gen open_zmq brace_lib (Publish (\<lambda>_. (0, 0))) ?s = Inr s"
    using publish_total [OF dump] by blast
  then have "sy_captured s = sy_captured ?s"
    by (auto simp: rbind_eq_Inr Let_def set_pipeline_def)
  moreover have "length (offered demo_gen demo_tick SensorData demo_engine) \<le> 1"
    using tick_group_offered [OF ce] by auto
  ultimately show ?thesis
    using s ce by (auto simp: demo_events_def sys_start_def simp del: sys_step.simps(3))
qed


end
