(* ===== verification/Responses.thy ===== *)
theory Responses
  imports Json
begin

text \<open>
  \<open>include/sim_vision/common/Response.h\<close> and \<open>src/common/Response.cpp\<close>: the reply envelope
  and the HTTP status of each code.
\<close>

datatype code = Success | Error | NotReady | AlreadyInit | InvalidParam | Unavailable

fun code_int :: "code \<Rightarrow> int" where
  "code_int Success = 0"
| "code_int Error = 1"
| "code_int NotReady = 2"
| "code_int AlreadyInit = 3"
| "code_int InvalidParam = 4"
| "code_int Unavailable = 5"

record response =
  r_code :: code
  r_message :: string
  r_detail :: json
  r_server_id :: string
  r_client_id :: string
  r_recv_sec :: int
  r_recv_nsec :: int
  r_send_sec :: int
  r_send_nsec :: int

definition response_default :: response where
  "response_default = \<lparr>r_code = Success, r_message = [], r_detail = JObj [], r_server_id = [],
     r_client_id = [], r_recv_sec = 0, r_recv_nsec = 0, r_send_sec = 0, r_send_nsec = 0\<rparr>"

definition response_json :: "response \<Rightarrow> json" where
  "response_json r =
     jobj [(''code'', JInt (code_int (r_code r))),
           (''message'', JStr (r_message r)),
           (''detail'', r_detail r),
           (''server_id'', JStr (r_server_id r)),
           (''client_id'', JStr (r_client_id r)),
           (''recv_timestamp'', jobj [(''sec'', JInt (r_recv_sec r)), (''nsec'', JInt (r_recv_nsec r))]),
           (''send_timestamp'', jobj [(''sec'', JInt (r_send_sec r)), (''nsec'', JInt (r_send_nsec r))])]"

text \<open>\<open>dump()\<close> throws on text that is not UTF-8, for example a request's own strings.\<close>

definition to_json :: "json_lib \<Rightarrow> response \<Rightarrow> string result" where
  "to_json L r = jl_dump L (response_json r)"

definition from_error :: "code \<Rightarrow> string \<Rightarrow> response" where
  "from_error c message = response_default\<lparr>r_code := c, r_message := message\<rparr>"

fun http_status :: "code \<Rightarrow> int" where
  "http_status Success = 200"
| "http_status AlreadyInit = 200"
| "http_status Error = 500"
| "http_status NotReady = 400"
| "http_status InvalidParam = 400"
| "http_status Unavailable = 404"

lemma from_error_simps [simp]:
  "r_code (from_error c m) = c" "r_message (from_error c m) = m" "r_detail (from_error c m) = JObj []"
  by (simp_all add: from_error_def response_default_def)

lemma response_default_simps [simp]:
  "r_code response_default = Success" "r_message response_default = []"
  "r_detail response_default = JObj []"
  by (simp_all add: response_default_def)

lemma http_status_success: "http_status c = 200 \<longleftrightarrow> c = Success \<or> c = AlreadyInit"
  by (cases c) simp_all

lemma http_status_known: "http_status c \<in> {200, 400, 404, 500}"
  by (cases c) simp_all

text \<open>Every reply carries the seven members of the documented envelope.\<close>

lemma response_json_members:
  "jat (response_json r) ''code'' = JInt (code_int (r_code r))"
  "jat (response_json r) ''message'' = JStr (r_message r)"
  "jat (response_json r) ''detail'' = r_detail r"
  "jat (response_json r) ''server_id'' = JStr (r_server_id r)"
  "jat (response_json r) ''client_id'' = JStr (r_client_id r)"
  "jat (jat (response_json r) ''recv_timestamp'') ''sec'' = JInt (r_recv_sec r)"
  "jat (jat (response_json r) ''send_timestamp'') ''sec'' = JInt (r_send_sec r)"
  by (simp_all add: response_json_def jat_jobj)

end
