(* ===== verification/Sessions.thy ===== *)
theory Sessions
  imports Prelude
begin

text \<open>
  \<open>include/sim_vision/api/SessionManager.h\<close> and \<open>src/api/SessionManager.cpp\<close>: the set of
  connected clients.
\<close>

type_synonym session_manager = "string list"

definition connect :: "string \<Rightarrow> session_manager \<Rightarrow> bool \<times> session_manager" where
  "connect client_id sm = (client_id \<notin> set sm, os_insert client_id sm)"

definition disconnect :: "string \<Rightarrow> session_manager \<Rightarrow> bool \<times> session_manager" where
  "disconnect client_id sm = (client_id \<in> set sm, os_erase client_id sm)"

definition is_connected :: "session_manager \<Rightarrow> string \<Rightarrow> bool" where
  "is_connected sm client_id \<longleftrightarrow> client_id \<in> set sm"

definition session_count :: "session_manager \<Rightarrow> int" where
  "session_count sm = to_int32 (int (length sm))"

lemma os_ok_connect: "os_ok sm \<Longrightarrow> os_ok (snd (connect c sm))"
  by (auto simp: connect_def)

lemma os_ok_disconnect: "os_ok sm \<Longrightarrow> os_ok (snd (disconnect c sm))"
  by (auto simp: disconnect_def)

lemma session_simps [simp]:
  "is_connected (snd (connect c sm)) d \<longleftrightarrow> d = c \<or> is_connected sm d"
  "is_connected (snd (disconnect c sm)) d \<longleftrightarrow> d \<noteq> c \<and> is_connected sm d"
  "fst (connect c sm) \<longleftrightarrow> \<not> is_connected sm c"
  "fst (disconnect c sm) \<longleftrightarrow> is_connected sm c"
  by (auto simp: connect_def disconnect_def is_connected_def)

lemma session_count_card:
  "os_ok sm \<Longrightarrow> length sm < 2 ^ 31 \<Longrightarrow> session_count sm = int (card {c. is_connected sm c})"
  by (simp add: session_count_def is_connected_def os_ok_iff distinct_card to_int32_id in_int32_def)

end
