(* ===== verification/TextSearch.thy ===== *)
theory TextSearch
  imports Prelude
begin

text \<open>
  What \<open>std::string::find\<close> returns on texts whose parts are known: the lemmas behind the
  routing of request paths and the parsing of request heads.
\<close>

lemma starts_with_append [simp]: "starts_with p (p @ s)"
  by (simp add: starts_with_def)

lemma starts_with_Cons [simp]:
  "starts_with [] s" "\<not> starts_with (a # p) []"
  "starts_with (a # p) (b # s) \<longleftrightarrow> a = b \<and> starts_with p s"
  by (auto simp: starts_with_def)

lemma starts_with_segment:
  assumes "c \<notin> set p" "c \<notin> set seg"
  shows "starts_with (p @ [c]) (seg @ c # y) \<longleftrightarrow> seg = p"
  using assms
proof (induction p arbitrary: seg)
  case Nil
  then show ?case by (cases seg) auto
next
  case (Cons a p)
  then show ?case by (cases seg) auto
qed

lemma starts_with_absent:
  assumes "c \<in> set p" "c \<notin> set s"
  shows "\<not> starts_with p s"
  using assms by (metis in_set_takeD starts_with_def)

lemma find_sub_absent:
  assumes "c \<in> set p" "c \<notin> set s"
  shows "find_sub p s = None"
  using assms(2)
proof (induction s)
  case Nil
  with assms(1) show ?case by auto
next
  case (Cons a s)
  then show ?case using starts_with_absent [OF assms(1), of "a # s"] by simp
qed

text \<open>A pattern that starts with \<open>c\<close> is found right after a prefix without \<open>c\<close>.\<close>

lemma find_sub_after:
  assumes "c \<notin> set a"
  shows "find_sub (c # p) (a @ c # p @ y) = Some (length a)"
  using assms by (induction a) auto

lemmas find_char_after = find_sub_after [of _ _ "[]", simplified]

lemma find_sub_from_after:
  assumes "c \<notin> set a"
  shows "find_sub_from (c # p) (x @ a @ c # p @ y) (length x) = Some (length x + length a)"
  by (simp add: find_sub_from_def find_sub_after [OF assms])

text \<open>The first occurrence, by its three defining facts.\<close>

lemma find_sub_SomeI:
  assumes "take (length p) (drop i s) = p" "i \<le> length s"
    and "\<And>j. j < i \<Longrightarrow> take (length p) (drop j s) \<noteq> p"
  shows "find_sub p s = Some i"
  using assms
proof (induction s arbitrary: i)
  case Nil
  then show ?case by auto
next
  case (Cons a s)
  show ?case
  proof (cases i)
    case 0
    with Cons.prems(1) show ?thesis by (simp add: starts_with_def)
  next
    case (Suc k)
    have "\<not> starts_with p (a # s)"
      using Cons.prems(3) [of 0] Suc by (simp add: starts_with_def)
    moreover have "find_sub p s = Some k"
      using Cons.prems Cons.prems(3) [of "Suc j" for j] Suc by (intro Cons.IH) auto
    ultimately show ?thesis using Suc by simp
  qed
qed

lemma find_sub_prefix:
  assumes "find_sub p s = Some i"
  shows "find_sub p (s @ t) = Some i"
proof (rule find_sub_SomeI)
  have b: "i + length p \<le> length s" by (rule find_sub_Some_bound [OF assms])
  show "take (length p) (drop i (s @ t)) = p"
    using b find_sub_Some_match [OF assms] by simp
  show "i \<le> length (s @ t)" using b by simp
  show "take (length p) (drop j (s @ t)) \<noteq> p" if "j < i" for j
    using b find_sub_first [OF assms that] that by simp
qed

end
