(* ===== verification/Commands.thy ===== *)
theory Commands
  imports ChannelManager Parameters Responses Sessions Publisher TextSearch
begin

text \<open>
  \<open>include/sim_vision/api/CommandHandler.h\<close> and \<open>src/api/CommandHandler.cpp\<close>: routing of a
  request path to a command, and every command over the sessions, channels, parameters and the
  pipeline. A command returns its reply and the new state, or the exception that one of the
  typed JSON conversions throws. Log lines are left out.
\<close>

section \<open>JSON views of the parameters\<close>

definition alias_map :: "(string, string) omap" where
  "alias_map =
     [(''activatechannel'', ''activate_channel''),
      (''checkstatus'', ''check_status''),
      (''deactivatechannel'', ''deactivate_channel''),
      (''getparameter'', ''get_parameter''),
      (''listchannels'', ''list_channels''),
      (''listparameters'', ''list_parameters''),
      (''setparameter'', ''set_parameter''),
      (''startcapture'', ''start_capture''),
      (''stopcapture'', ''stop_capture'')]"

fun value_to_json :: "param_value \<Rightarrow> json" where
  "value_to_json (Integer n) = JInt n"
| "value_to_json (Float d) = JFloat d"
| "value_to_json (Enum s) = JStr s"

definition param_to_json :: "parameter \<Rightarrow> json" where
  "param_to_json p =
     jobj ([(''name'', JStr (p_name p)),
            (''type'', JStr (param_variant_type_name (p_value p))),
            (''value'', value_to_json (p_value p)),
            (''default'', value_to_json (p_default_value p)),
            (''is_readonly'', JBool (p_is_readonly p)),
            (''is_available'', JBool (p_is_available p)),
            (''needs_reopen'', JBool (p_needs_reopen p))] @
       (if \<not> is_Enum (p_value p)
        then [(''min'', value_to_json (p_min p)), (''max'', value_to_json (p_max p))] else []) @
       (if p_enum_options p \<noteq> [] then [(''enum_options'', JArr (map JStr (p_enum_options p)))] else []))"

section \<open>The types a request names\<close>

definition types_of_name :: "string \<Rightarrow> data_type list" where
  "types_of_name ls =
     (if ls = ''visual_2d'' \<or> ls = ''visual_geometric_2d'' then group_members Visual2D
      else if ls = ''visual_3d'' \<or> ls = ''visual_geometric_3d'' then group_members Visual3D
      else if ls = ''sensor_data'' \<or> ls = ''sensor_tracking'' then group_members SensorData
      else (case data_type_from_string ls of Some t \<Rightarrow> [t] | None \<Rightarrow> []))"

text \<open>\<open>get<std::string>()\<close> after \<open>is_string()\<close> does not throw.\<close>

fun expand_items :: "json list \<Rightarrow> data_type list" where
  "expand_items [] = []"
| "expand_items (JStr s # items) = types_of_name (to_lower s) @ expand_items items"
| "expand_items (item # items) = expand_items items"

definition expand_types :: "json \<Rightarrow> data_type list" where
  "expand_types body =
     (if \<not> jcontains body ''data_types'' \<or> \<not> is_jarr (jat body ''data_types'') then
        (case jat body ''data_type'' of
           JStr s \<Rightarrow> (case data_type_from_string s of Some t \<Rightarrow> [t] | None \<Rightarrow> [])
         | _ \<Rightarrow> [])
      else expand_items (jelems (jat body ''data_types'')))"

section \<open>Routing\<close>

definition apply_alias :: "string \<Rightarrow> string" where
  "apply_alias cmd = (case map_of alias_map cmd of Some c \<Rightarrow> c | None \<Rightarrow> cmd)"

definition normalize_command :: "string \<Rightarrow> json \<Rightarrow> string" where
  "normalize_command path body =
     (let p = (if path \<noteq> [] \<and> hd path = CHR ''/'' then tl path else path);
          p = (if starts_with ''api/'' p then drop 4 p else p);
          cmd = (if p \<noteq> []
                 then apply_alias (to_lower (case find_sub ''/'' p of
                        Some slash \<Rightarrow> drop (slash + 1) p | None \<Rightarrow> p))
                 else [])
      in if cmd = [] \<and> jcontains body ''command''
         then (case jat body ''command'' of JStr s \<Rightarrow> apply_alias (to_lower s) | _ \<Rightarrow> cmd)
         else cmd)"

section \<open>State\<close>

text \<open>
  The handler's references. The pipeline object is shared with the publisher;
  \<open>ch_pipeline_ptr\<close> tells whether the handler's own pointer to it is non-null, and the other
  pointers are options holding what the status report reads through them.
\<close>

record handler =
  ch_sessions :: session_manager
  ch_channels :: channel_manager
  ch_params :: params
  ch_dp :: data_pipeline
  ch_pipeline_ptr :: bool
  ch_publisher :: "publisher_stats option"
  ch_source_pairs :: "nat option"
  ch_frames_produced :: "u64 option"

type_synonym cmd_result = "(response \<times> handler) result"

definition reply :: "code \<Rightarrow> string \<Rightarrow> (string \<times> json) list \<Rightarrow> response" where
  "reply c msg details = response_default\<lparr>r_code := c, r_message := msg, r_detail := jobj details\<rparr>"

text \<open>\<open>if (pipeline_) pipeline_->drain(); if (publisher_) publisher_->drain();\<close>\<close>

definition flush_all :: "handler \<Rightarrow> handler" where
  "flush_all h =
     (let h1 = (if ch_pipeline_ptr h then h\<lparr>ch_dp := dp_drain (ch_dp h)\<rparr> else h)
      in if ch_publisher h1 \<noteq> None then h1\<lparr>ch_dp := publisher_drain (ch_dp h1)\<rparr> else h1)"

section \<open>The commands\<close>

definition cmd_connect :: "string \<Rightarrow> handler \<Rightarrow> cmd_result" where
  "cmd_connect client_id h =
     (if is_connected (ch_sessions h) client_id
      then Inr (response_default\<lparr>r_code := AlreadyInit, r_message := ''Already connected''\<rparr>, h)
      else Inr (response_default\<lparr>r_code := Success, r_message := ''Connected''\<rparr>,
                h\<lparr>ch_sessions := snd (connect client_id (ch_sessions h))\<rparr>))"

definition cmd_disconnect :: "string \<Rightarrow> handler \<Rightarrow> cmd_result" where
  "cmd_disconnect client_id h =
     (if \<not> is_connected (ch_sessions h) client_id
      then Inr (from_error NotReady ''Not connected'', h)
      else
        (let h1 = h\<lparr>ch_channels := snd (disconnect_client client_id (ch_channels h))\<rparr>;
             h2 = h1\<lparr>ch_sessions := snd (disconnect client_id (ch_sessions h1))\<rparr>;
             h3 = (if \<not> any_subscriber (ch_channels h2) then flush_all h2 else h2)
         in Inr (response_default\<lparr>r_code := Success, r_message := ''Disconnected''\<rparr>, h3)))"

text \<open>The dash in the message is U+2014 in UTF-8.\<close>

definition not_connected_msg :: string where
  "not_connected_msg = ''not connected '' @ [CHR 0xE2, CHR 0x80, CHR 0x94] @ '' call connect first''"

definition type_names :: "data_type list \<Rightarrow> json" where
  "type_names ts = JArr (map (\<lambda>t. JStr (data_type_to_string t)) ts)"

definition cmd_start_capture :: "json \<Rightarrow> string \<Rightarrow> handler \<Rightarrow> cmd_result" where
  "cmd_start_capture body client_id h =
     (if \<not> is_connected (ch_sessions h) client_id
      then Inr (from_error NotReady not_connected_msg, h)
      else
        (let types = expand_types body in
         if types = [] then Inr (from_error InvalidParam ''no valid data_types'', h)
         else Inr (reply Success ''Capture started'' [(''data_types'', type_names types)],
                   h\<lparr>ch_channels := cm_start_capture client_id types (ch_channels h)\<rparr>)))"

definition cmd_stop_capture :: "json \<Rightarrow> string \<Rightarrow> handler \<Rightarrow> cmd_result" where
  "cmd_stop_capture body client_id h =
     (let types = expand_types body in
      if types = [] then Inr (from_error InvalidParam ''no valid data_types'', h)
      else
        (let h1 = h\<lparr>ch_channels := cm_stop_capture client_id types (ch_channels h)\<rparr>;
             h2 = (if \<not> any_subscriber (ch_channels h1) then flush_all h1 else h1)
         in Inr (reply Success ''Capture stopped'' [(''data_types'', type_names types)], h2)))"

text \<open>
  The condition of \<open>activate_channel\<close> and \<open>deactivate_channel\<close>: the type named by the member
  \<open>data_type\<close>, whose conversion to a string throws on any other kind.
\<close>

definition named_type :: "json_lib \<Rightarrow> json \<Rightarrow> data_type option result" where
  "named_type L body =
     (if \<not> jcontains body ''data_type'' then Inr None
      else rbind (jl_string L (jat body ''data_type'')) (\<lambda>s.
             Inr (data_type_from_string (to_lower s))))"

definition cmd_activate_channel :: "json_lib \<Rightarrow> json \<Rightarrow> handler \<Rightarrow> cmd_result" where
  "cmd_activate_channel L body h =
     rbind (named_type L body) (\<lambda>nt.
       case nt of
         None \<Rightarrow> Inr (from_error InvalidParam ''invalid data_type'', h)
       | Some t \<Rightarrow>
           (let r = activate_channel t (ch_channels h)
            in Inr (reply Success (if fst r then ''Channel activated'' else ''Channel already active'')
                      [(''data_type'', JStr (data_type_to_string t)), (''restart_required'', JBool False)],
                    h\<lparr>ch_channels := snd r\<rparr>)))"

definition cmd_deactivate_channel :: "json_lib \<Rightarrow> json \<Rightarrow> handler \<Rightarrow> cmd_result" where
  "cmd_deactivate_channel L body h =
     rbind (named_type L body) (\<lambda>nt.
       case nt of
         None \<Rightarrow> Inr (from_error InvalidParam ''invalid data_type'', h)
       | Some t \<Rightarrow>
           (let h1 = h\<lparr>ch_channels := snd (deactivate_channel t (ch_channels h))\<rparr>;
                h2 = (if \<not> group_active (ch_channels h1) (data_type_to_group t) \<and> ch_pipeline_ptr h1
                      then h1\<lparr>ch_dp := drain_group (data_type_to_group t) (ch_dp h1)\<rparr> else h1)
            in Inr (reply Success ''Channel deactivated''
                      [(''data_type'', JStr (data_type_to_string t)), (''restart_required'', JBool True)],
                    h2)))"

definition publisher_status :: "publisher_stats \<Rightarrow> json" where
  "publisher_status s =
     jobj [(''sent_2d'', JInt (uint (st_sent_2d s))), (''sent_3d'', JInt (uint (st_sent_3d s))),
           (''sent_sensor'', JInt (uint (st_sent_sensor s))),
           (''dropped_hwm'', JInt (uint (st_dropped_hwm s))),
           (''shutdown_sent'', JInt (uint (st_shutdown_sent s)))]"

definition pipeline_status :: "pipeline_stats \<Rightarrow> json" where
  "pipeline_status s =
     jobj [(''pushed_2d'', JInt (uint (pushed_2d s))), (''pushed_3d'', JInt (uint (pushed_3d s))),
           (''pushed_sensor'', JInt (uint (pushed_sensor s))),
           (''dropped_2d'', JInt (uint (dropped_2d s))), (''dropped_3d'', JInt (uint (dropped_3d s))),
           (''dropped_sensor'', JInt (uint (dropped_sensor s))),
           (''queue_2d'', JInt (uint (queue_2d s))), (''queue_3d'', JInt (uint (queue_3d s))),
           (''queue_sensor'', JInt (uint (queue_sensor s)))]"

definition cmd_check_status :: "handler \<Rightarrow> response" where
  "cmd_check_status h =
     reply Success ''Status''
       ([(''initialized'', JBool True),
         (''sessions'', JInt (session_count (ch_sessions h))),
         (''simulator'', JStr version_tag)] @
        (case ch_source_pairs h of None \<Rightarrow> [] | Some n \<Rightarrow> [(''stereo_pairs_loaded'', JInt (int n))]) @
        (case ch_frames_produced h of None \<Rightarrow> [] | Some n \<Rightarrow> [(''frames_produced'', JInt (uint n))]) @
        [(''channels'', cm_status_json (ch_channels h)),
         (''publisher'', case ch_publisher h of None \<Rightarrow> JObj [] | Some s \<Rightarrow> publisher_status s)] @
        (if ch_pipeline_ptr h then [(''pipeline'', pipeline_status (dp_stats (ch_dp h)))] else []))"

definition cmd_list_channels :: "handler \<Rightarrow> response" where
  "cmd_list_channels h =
     reply Success ''Channels''
       [(''channels'', JArr (map (\<lambda>t.
           jobj [(''data_type'', JStr (data_type_to_string t)),
                 (''group'', JStr (group_to_string (data_type_to_group t))),
                 (''supported'', JBool True),
                 (''activated'', JBool (is_active (ch_channels h) t)),
                 (''subscribers'', JInt (subscriber_count (ch_channels h) t))]) all_data_types))]"

definition cmd_list_parameters :: "string list \<Rightarrow> handler \<Rightarrow> response" where
  "cmd_list_parameters ks h =
     reply Success ''Parameters''
       [(''parameters'', JArr (map param_to_json (param_all ks (ch_params h))))]"

definition quoted :: "string \<Rightarrow> string" where
  "quoted s = [CHR 0x27] @ s @ [CHR 0x27]"

definition cmd_get_parameter :: "json_lib \<Rightarrow> json \<Rightarrow> handler \<Rightarrow> response result" where
  "cmd_get_parameter L body h =
     (if \<not> jcontains body ''name'' then Inr (from_error InvalidParam (''missing '' @ quoted ''name''))
      else
        rbind (jl_string L (jat body ''name'')) (\<lambda>name.
          case param_get name (ch_params h) of
            None \<Rightarrow> Inr (from_error InvalidParam ''unknown parameter'')
          | Some p \<Rightarrow>
              Inr (response_default\<lparr>r_code := Success, r_message := ''Success'',
                                    r_detail := param_to_json p\<rparr>)))"

text \<open>The value converted to the type the parameter has.\<close>

definition typed_value :: "json_lib \<Rightarrow> param_value \<Rightarrow> json \<Rightarrow> param_value result" where
  "typed_value L like v =
     (case like of
        Integer _ \<Rightarrow> rbind (jl_int64 L v) (\<lambda>n. Inr (Integer n))
      | Float _ \<Rightarrow> rbind (jl_double L v) (\<lambda>d. Inr (Float d))
      | Enum _ \<Rightarrow> rbind (jl_string L v) (\<lambda>s. Inr (Enum s)))"

definition cmd_set_parameter :: "json_lib \<Rightarrow> json \<Rightarrow> handler \<Rightarrow> cmd_result" where
  "cmd_set_parameter L body h =
     (if \<not> jcontains body ''name'' \<or> \<not> jcontains body ''value''
      then Inr (from_error InvalidParam (''missing '' @ quoted ''name'' @ '' or '' @ quoted ''value''), h)
      else
        rbind (jl_string L (jat body ''name'')) (\<lambda>name.
          case param_get name (ch_params h) of
            None \<Rightarrow> Inr (from_error InvalidParam ''unknown parameter'', h)
          | Some p \<Rightarrow>
              rbind (typed_value L (p_value p) (jat body ''value'')) (\<lambda>v.
                case set_value name v [] (ch_params h) of
                  (ok, err, pm) \<Rightarrow>
                    (if \<not> ok then Inr (from_error InvalidParam err, h\<lparr>ch_params := pm\<rparr>)
                     else Inr (reply Success ''Parameter set''
                                 [(''name'', JStr name), (''value'', value_to_json v),
                                  (''needs_reopen'', JBool (p_needs_reopen p))],
                               h\<lparr>ch_params := pm\<rparr>)))))"

section \<open>Dispatch\<close>

definition handle ::
    "json_lib \<Rightarrow> string list \<Rightarrow> string \<Rightarrow> json \<Rightarrow> string \<Rightarrow> handler \<Rightarrow> cmd_result" where
  "handle L ks command body client_id h =
     (if command = ''connect'' then cmd_connect client_id h
      else if command = ''disconnect'' then cmd_disconnect client_id h
      else if command = ''start_capture'' then cmd_start_capture body client_id h
      else if command = ''stop_capture'' then cmd_stop_capture body client_id h
      else if command = ''activate_channel'' then cmd_activate_channel L body h
      else if command = ''deactivate_channel'' then cmd_deactivate_channel L body h
      else if command = ''check_status'' then Inr (cmd_check_status h, h)
      else if command = ''list_channels'' then Inr (cmd_list_channels h, h)
      else if command = ''list_parameters'' then Inr (cmd_list_parameters ks h, h)
      else if command = ''get_parameter'' then
        rbind (cmd_get_parameter L body h) (\<lambda>r. Inr (r, h))
      else if command = ''set_parameter'' then cmd_set_parameter L body h
      else if command = ''init'' then Inr (from_error AlreadyInit ''Already initialized'', h)
      else if command = ''dispose'' then Inr (from_error Error ''Not permitted via API'', h)
      else Inr (from_error InvalidParam (''unknown command: '' @ command), h))"

section \<open>Sessions and subscriptions stay consistent\<close>

text \<open>Every client that holds a type is connected.\<close>

definition covered :: "channel_manager \<Rightarrow> session_manager \<Rightarrow> bool" where
  "covered cm sm \<longleftrightarrow> (\<forall>c t. t \<in> cm_subs cm c \<longrightarrow> is_connected sm c)"

definition tables_ok :: "channel_manager \<Rightarrow> session_manager \<Rightarrow> bool" where
  "tables_ok cm sm \<longleftrightarrow> cm_inv cm \<and> os_ok sm \<and> covered cm sm"

definition handler_inv :: "handler \<Rightarrow> bool" where
  "handler_inv h \<longleftrightarrow> tables_ok (ch_channels h) (ch_sessions h)"

text \<open>What the other threads may change between two commands: everything but these two tables.\<close>

definition env_change :: "handler \<Rightarrow> handler \<Rightarrow> bool" where
  "env_change h h' \<longleftrightarrow>
     ch_sessions h' = ch_sessions h \<and> ch_channels h' = ch_channels h"

inductive handler_reach :: "json_lib \<Rightarrow> handler \<Rightarrow> bool" for L where
  handler_init: "ch_sessions h = [] \<Longrightarrow> ch_channels h = cm_new \<Longrightarrow> handler_reach L h"
| handler_command: "handler_reach L h \<Longrightarrow> handle L ks cmd body c h = Inr (r, h') \<Longrightarrow> handler_reach L h'"
| handler_env: "handler_reach L h \<Longrightarrow> env_change h h' \<Longrightarrow> handler_reach L h'"

inductive_cases handler_reachE: "handler_reach L h"

lemma flush_all_fields [simp]:
  "ch_sessions (flush_all h) = ch_sessions h" "ch_channels (flush_all h) = ch_channels h"
  "ch_params (flush_all h) = ch_params h"
  by (simp_all add: flush_all_def Let_def)

lemma tables_connect: "tables_ok cm sm \<Longrightarrow> tables_ok cm (snd (connect c sm))"
  by (auto simp: tables_ok_def covered_def os_ok_connect)

lemma tables_disconnect:
  "tables_ok cm sm \<Longrightarrow> tables_ok (snd (disconnect_client c cm)) (snd (disconnect c sm))"
  by (auto simp: tables_ok_def covered_def os_ok_disconnect cm_subs_leave)

lemma tables_start:
  "tables_ok cm sm \<Longrightarrow> is_connected sm c \<Longrightarrow> tables_ok (cm_start_capture c ts cm) sm"
  by (auto simp: tables_ok_def covered_def cm_subs_start)

lemma tables_stop: "tables_ok cm sm \<Longrightarrow> tables_ok (cm_stop_capture c ts cm) sm"
  by (auto simp: tables_ok_def covered_def cm_subs_stop split: if_splits)

lemma tables_force:
  "tables_ok cm sm \<Longrightarrow> tables_ok (snd (activate_channel t cm)) sm"
  "tables_ok cm sm \<Longrightarrow> tables_ok (snd (deactivate_channel t cm)) sm"
  by (auto simp: tables_ok_def covered_def force_one)

text \<open>The effect of each command on the tables.\<close>

lemma cmd_connect_inv: "cmd_connect c h = Inr (r, h') \<Longrightarrow> handler_inv h \<Longrightarrow> handler_inv h'"
  by (auto simp: cmd_connect_def handler_inv_def tables_connect split: if_splits)

lemma cmd_disconnect_inv: "cmd_disconnect c h = Inr (r, h') \<Longrightarrow> handler_inv h \<Longrightarrow> handler_inv h'"
  by (auto simp: cmd_disconnect_def handler_inv_def tables_disconnect Let_def split: if_splits)

lemma cmd_start_inv: "cmd_start_capture body c h = Inr (r, h') \<Longrightarrow> handler_inv h \<Longrightarrow> handler_inv h'"
  by (auto simp: cmd_start_capture_def handler_inv_def tables_start Let_def split: if_splits)

lemma cmd_stop_inv: "cmd_stop_capture body c h = Inr (r, h') \<Longrightarrow> handler_inv h \<Longrightarrow> handler_inv h'"
  by (auto simp: cmd_stop_capture_def handler_inv_def tables_stop Let_def split: if_splits)

lemma cmd_activate_inv:
  "cmd_activate_channel L body h = Inr (r, h') \<Longrightarrow> handler_inv h \<Longrightarrow> handler_inv h'"
  by (auto simp: cmd_activate_channel_def handler_inv_def rbind_eq_Inr Let_def tables_force
      split: option.splits)

lemma cmd_deactivate_inv:
  assumes "cmd_deactivate_channel L body h = Inr (r, h')" "handler_inv h"
  shows "handler_inv h'"
proof -
  obtain nt where nt: "named_type L body = Inr nt"
    using assms(1) by (auto simp: cmd_deactivate_channel_def rbind_eq_Inr)
  show ?thesis
    using assms
    by (cases nt) (auto simp: cmd_deactivate_channel_def nt handler_inv_def Let_def tables_force)
qed

lemma cmd_set_cases:
  assumes "cmd_set_parameter L body h = Inr (r, h')"
  shows "h' = h \<or> (\<exists>name v. h' = h\<lparr>ch_params := snd (snd (set_value name v [] (ch_params h)))\<rparr>)"
proof (cases "\<not> jcontains body ''name'' \<or> \<not> jcontains body ''value''")
  case True
  with assms show ?thesis by (simp add: cmd_set_parameter_def)
next
  case False
  then obtain name where n: "jl_string L (jat body ''name'') = Inr name"
    using assms by (auto simp: cmd_set_parameter_def rbind_eq_Inr)
  show ?thesis
  proof (cases "param_get name (ch_params h)")
    case None
    with assms False n show ?thesis by (simp add: cmd_set_parameter_def)
  next
    case (Some p)
    then obtain v where v: "typed_value L (p_value p) (jat body ''value'') = Inr v"
      using assms False n by (auto simp: cmd_set_parameter_def rbind_eq_Inr)
    obtain ok err pm where sv: "set_value name v [] (ch_params h) = (ok, err, pm)"
      by (cases "set_value name v [] (ch_params h)")
    have "h' = h\<lparr>ch_params := pm\<rparr>"
      using assms False by (cases ok) (simp_all add: cmd_set_parameter_def n Some v sv)
    with sv show ?thesis by (metis snd_conv)
  qed
qed

lemma cmd_set_inv: "cmd_set_parameter L body h = Inr (r, h') \<Longrightarrow> handler_inv h \<Longrightarrow> handler_inv h'"
  using cmd_set_cases [of L body h r h'] by (auto simp: handler_inv_def)

lemmas command_invs = cmd_connect_inv cmd_disconnect_inv cmd_start_inv cmd_stop_inv
  cmd_activate_inv cmd_deactivate_inv cmd_set_inv

lemma handle_inv:
  assumes "handle L ks cmd body c h = Inr (r, h')" "handler_inv h"
  shows "handler_inv h'"
  using assms
  by (auto simp: handle_def rbind_eq_Inr split: if_splits intro: command_invs)

lemma handler_reach_inv: "handler_reach L h \<Longrightarrow> handler_inv h"
proof (induction rule: handler_reach.induct)
  case (handler_init h)
  moreover have "covered cm_new []" by (simp add: covered_def cm_subs_def cm_new_def)
  ultimately show ?case by (simp add: handler_inv_def tables_ok_def)
next
  case (handler_env h h')
  then show ?case by (simp add: handler_inv_def env_change_def)
qed (rule handle_inv)

text \<open>
  C12. Sessions and subscriptions agree in every state the handler can reach: only connected
  clients hold data types, so a type is active exactly if it is forced or a connected client
  holds it; after a disconnect command the client is not connected and holds nothing.
\<close>

theorem subscribers_are_connected:
  assumes "handler_reach L h"
  shows "(t \<in> cm_subs (ch_channels h) c \<longrightarrow> is_connected (ch_sessions h) c) \<and>
    (is_active (ch_channels h) t \<longleftrightarrow>
       frc (cm_states (ch_channels h)) t \<or>
       (\<exists>d. is_connected (ch_sessions h) d \<and> t \<in> cm_subs (ch_channels h) d)) \<and>
    (handle L ks ''disconnect'' body c h = Inr (r, h') \<longrightarrow>
       cm_subs (ch_channels h') c = {} \<and> \<not> is_connected (ch_sessions h') c)"
proof -
  have inv: "cm_inv (ch_channels h)" and cov: "covered (ch_channels h) (ch_sessions h)"
    using handler_reach_inv [OF assms] by (simp_all add: handler_inv_def tables_ok_def)
  have "cm_subs (ch_channels h') c = {} \<and> \<not> is_connected (ch_sessions h') c"
    if "handle L ks ''disconnect'' body c h = Inr (r, h')"
    using that cov
    by (auto simp: handle_def cmd_disconnect_def cm_subs_leave covered_def Let_def split: if_splits)
  then show ?thesis
    using cov is_active_iff [OF inv] by (auto simp: covered_def)
qed

text \<open>A concrete handler for the witnesses: two clients connect, one subscribes.\<close>

definition demo_lib :: json_lib where
  "demo_lib = conv_lib (\<lambda>s. Inr JNull) (\<lambda>j. Inr [])"

definition demo_handler :: handler where
  "demo_handler = \<lparr>ch_sessions = [], ch_channels = cm_new,
     ch_params = register_parameter exposure Map.empty, ch_dp = pipe2, ch_pipeline_ptr = True,
     ch_publisher = None, ch_source_pairs = Some 0, ch_frames_produced = Some 0\<rparr>"

definition demo_connected :: handler where
  "demo_connected = demo_handler\<lparr>ch_sessions := [''a'']\<rparr>"

definition capture_imu :: json where
  "capture_imu = JObj [(''data_types'', JArr [JStr ''IMU'', JNull, JStr ''Visual_2D''])]"

lemma demo_reach: "handler_reach demo_lib demo_connected"
proof (rule handler_command [where L = demo_lib and h = demo_handler and ks = "[]"
      and cmd = "''connect''" and body = JNull and c = "''a''"])
  show "handler_reach demo_lib demo_handler"
    by (rule handler_init) (simp_all add: demo_handler_def)
  show "handle demo_lib [] ''connect'' JNull ''a'' demo_handler =
      Inr (response_default\<lparr>r_code := Success, r_message := ''Connected''\<rparr>, demo_connected)"
    by (simp add: handle_def cmd_connect_def demo_handler_def demo_connected_def is_connected_def
        connect_def os_insert_def)
qed

lemma expand_capture_imu: "expand_types capture_imu = [IMU, StereoImage, DepthMap]"
  by code_simp

theorem subscribers_are_connected_witness:
  "IMU \<notin> cm_subs (ch_channels demo_connected) ''b'' \<and> \<not> is_connected (ch_sessions demo_connected) ''b''"
proof -
  have "\<not> is_connected (ch_sessions demo_connected) ''b''"
    by (simp add: demo_connected_def is_connected_def)
  with subscribers_are_connected [OF demo_reach, of IMU "''b''"] show ?thesis by blast
qed



section \<open>Exceptions\<close>

lemma jl_string_throws:
  assumes "json_conv_ok L"
  shows "(\<exists>e. jl_string L v = Inl e) \<longleftrightarrow> \<not> is_jstr v"
proof (cases v)
  case (JStr s)
  with assms have "jl_string L v = Inr s" by (simp add: json_conv_ok_def)
  then show ?thesis by (simp add: JStr)
qed (use assms in \<open>simp_all add: json_conv_ok_def\<close>)

definition throws :: "'a result \<Rightarrow> bool" where
  "throws r \<longleftrightarrow> (\<exists>e. r = Inl e)"

lemma throws_simps [simp]: "\<not> throws (Inr x)" "throws (Inl e)"
  by (simp_all add: throws_def)

lemma throws_rbind: "throws (rbind m f) \<longleftrightarrow> throws m \<or> (\<exists>x. m = Inr x \<and> throws (f x))"
  by (cases m) (auto simp: throws_def)

lemma jl_string_Inr: "json_conv_ok L \<Longrightarrow> jl_string L v = Inr s \<longleftrightarrow> v = JStr s"
proof -
  assume ok: "json_conv_ok L"
  show ?thesis
  proof (cases v)
    case (JStr x)
    with ok show ?thesis by (auto simp: json_conv_ok_def)
  qed (use ok jl_string_throws [OF ok, of v] in auto)
qed

lemma throws_named_type:
  "json_conv_ok L \<Longrightarrow>
   throws (named_type L body) \<longleftrightarrow> jcontains body ''data_type'' \<and> \<not> is_jstr (jat body ''data_type'')"
  using jl_string_throws [of L "jat body ''data_type''"]
  by (auto simp: named_type_def throws_rbind throws_def [of "jl_string _ _"])

text \<open>The value of a request cannot be converted to the type of the parameter it names.\<close>

definition unconvertible :: "json_lib \<Rightarrow> json \<Rightarrow> params \<Rightarrow> bool" where
  "unconvertible L body pm \<longleftrightarrow>
     (\<exists>s p. jat body ''name'' = JStr s \<and> pm s = Some p \<and>
        throws (typed_value L (p_value p) (jat body ''value'')))"

lemma throws_set_parameter:
  assumes "json_conv_ok L"
  shows "throws (cmd_set_parameter L body h) \<longleftrightarrow>
    jcontains body ''name'' \<and> jcontains body ''value'' \<and>
    (\<not> is_jstr (jat body ''name'') \<or> unconvertible L body (ch_params h))"
proof (cases "jcontains body ''name'' \<and> jcontains body ''value''")
  case False
  then show ?thesis by (auto simp: cmd_set_parameter_def)
next
  case c: True
  show ?thesis
  proof (cases "jat body ''name''")
    case (JStr s)
    then have n: "jl_string L (jat body ''name'') = Inr s" by (simp add: jl_string_Inr [OF assms])
    have "throws (cmd_set_parameter L body h) \<longleftrightarrow>
        (\<exists>p. ch_params h s = Some p \<and> throws (typed_value L (p_value p) (jat body ''value'')))"
    proof (cases "ch_params h s")
      case None
      with c show ?thesis by (simp add: cmd_set_parameter_def n param_get_def)
    next
      case (Some p)
      have "\<not> throws (case set_value s v [] (ch_params h) of (ok, err, pm) \<Rightarrow> f ok err pm)"
        if "\<And>ok err pm. \<not> throws (f ok err pm)" for v and f :: "bool \<Rightarrow> string \<Rightarrow> params \<Rightarrow> (response \<times> handler) result"
        using that by (cases "set_value s v [] (ch_params h)") simp
      with c Some show ?thesis
        by (simp add: cmd_set_parameter_def n throws_rbind param_get_def)
    qed
    with c JStr show ?thesis by (simp add: unconvertible_def)
  qed (use c jl_string_throws [OF assms, of "jat body ''name''"] in
      \<open>auto simp: cmd_set_parameter_def throws_rbind throws_def [of "jl_string _ _"]\<close>)
qed

text \<open>
  C30. Exactly which requests make the dispatcher throw (given the documented conversions):
  a channel command whose \<open>data_type\<close> is not a string, a parameter command whose \<open>name\<close> is not
  a string, and a \<open>set_parameter\<close> whose value does not convert to the type of an existing
  parameter. Every other request, known or unknown, gets a reply.
\<close>

theorem handle_throws_iff:
  assumes "json_conv_ok L"
  shows "throws (handle L ks cmd body c h) \<longleftrightarrow>
    (cmd \<in> {''activate_channel'', ''deactivate_channel''} \<and>
       jcontains body ''data_type'' \<and> \<not> is_jstr (jat body ''data_type'')) \<or>
    (cmd = ''get_parameter'' \<and> jcontains body ''name'' \<and> \<not> is_jstr (jat body ''name'')) \<or>
    (cmd = ''set_parameter'' \<and> jcontains body ''name'' \<and> jcontains body ''value'' \<and>
       (\<not> is_jstr (jat body ''name'') \<or> unconvertible L body (ch_params h)))"
proof -
  have never: "\<not> throws (cmd_connect c h)" "\<not> throws (cmd_disconnect c h)"
    "\<not> throws (cmd_start_capture body c h)" "\<not> throws (cmd_stop_capture body c h)"
    by (simp_all add: cmd_connect_def cmd_disconnect_def cmd_start_capture_def cmd_stop_capture_def
        Let_def)
  have act: "throws (cmd_activate_channel L body h) \<longleftrightarrow> throws (named_type L body)"
    "throws (cmd_deactivate_channel L body h) \<longleftrightarrow> throws (named_type L body)"
    by (auto simp: cmd_activate_channel_def cmd_deactivate_channel_def throws_rbind Let_def
        split: option.splits)
  have get: "throws (rbind (cmd_get_parameter L body h) (\<lambda>r. Inr (r, h))) \<longleftrightarrow>
      jcontains body ''name'' \<and> \<not> is_jstr (jat body ''name'')"
    using jl_string_throws [OF assms, of "jat body ''name''"]
    by (auto simp: cmd_get_parameter_def throws_rbind throws_def [of "jl_string _ _"]
        split: option.splits)
  note simps = handle_def never act get throws_named_type [OF assms] throws_set_parameter [OF assms]
  show ?thesis
    by (cases "cmd = ''activate_channel''"; cases "cmd = ''deactivate_channel''";
        cases "cmd = ''get_parameter''"; cases "cmd = ''set_parameter''") (simp_all add: simps)
qed

theorem handle_throws_iff_witness:
  "throws (handle demo_lib [] ''get_parameter'' (JObj [(''name'', JInt 3)]) ''a'' demo_handler)"
  using handle_throws_iff [OF json_conv_ok_conv_lib, of "\<lambda>s. Inr JNull" "\<lambda>j. Inr []" "[]"
      "''get_parameter''" "JObj [(''name'', JInt 3)]" "''a''" demo_handler]
  by (simp add: demo_lib_def)

section \<open>Types named by a request\<close>

text \<open>A name stands for a type: its own name, its group's name or its group's channel.\<close>

definition denotes :: "string \<Rightarrow> data_type \<Rightarrow> bool" where
  "denotes s t \<longleftrightarrow>
     to_lower s \<in> {data_type_to_string t, group_to_string (data_type_to_group t),
                   group_to_channel (data_type_to_group t)}"

lemma mem_single: "t \<in> set (case x of Some u \<Rightarrow> [u] | None \<Rightarrow> []) \<longleftrightarrow> x = Some t"
  by (cases x) auto

lemma data_type_from_string_iff:
  "data_type_from_string s = Some t \<longleftrightarrow> s = data_type_to_string t"
  "Some t = data_type_from_string s \<longleftrightarrow> s = data_type_to_string t"
  using data_type_from_to_string [of t] data_type_to_from_string [of s t] by auto

lemma types_of_name_iff: "t \<in> set (types_of_name (to_lower s)) \<longleftrightarrow> denotes s t"
  by (cases t) (simp_all add: types_of_name_def denotes_def mem_single data_type_from_string_iff)

lemma expand_items_iff:
  "t \<in> set (expand_items items) \<longleftrightarrow> (\<exists>s. JStr s \<in> set items \<and> denotes s t)"
  by (induction items rule: expand_items.induct) (auto simp: types_of_name_iff)

text \<open>
  What a capture request names. With an array \<open>data_types\<close>: a type is selected exactly if
  some string item is, in any letter case, the type's name, its group's name or its group's
  channel name; other items are ignored. Without one: the type whose exact name is the string
  \<open>data_type\<close>, in this letter case only, and nothing else.
\<close>

theorem expand_types_spec:
  "t \<in> set (expand_types body) \<longleftrightarrow>
     (if jcontains body ''data_types'' \<and> is_jarr (jat body ''data_types'')
      then \<exists>s. JStr s \<in> set (jelems (jat body ''data_types'')) \<and> denotes s t
      else jat body ''data_type'' = JStr (data_type_to_string t))"
proof (cases "jcontains body ''data_types'' \<and> is_jarr (jat body ''data_types'')")
  case True
  then show ?thesis by (simp add: expand_types_def expand_items_iff)
next
  case False
  then have "expand_types body = (case jat body ''data_type'' of
      JStr s \<Rightarrow> (case data_type_from_string s of Some t \<Rightarrow> [t] | None \<Rightarrow> []) | _ \<Rightarrow> [])"
    by (auto simp: expand_types_def)
  with False show ?thesis
    by (cases "jat body ''data_type''") (auto simp: mem_single data_type_from_string_iff)
qed

theorem expand_types_spec_witness:
  "set (expand_types capture_imu) = {IMU, StereoImage, DepthMap}"
  using expand_types_spec [of _ capture_imu] by (simp add: expand_capture_imu)

section \<open>Routing of a path\<close>

text \<open>What a name given in the path or in the body is taken for.\<close>

definition named_command :: "string \<Rightarrow> string" where
  "named_command s = apply_alias (to_lower s)"

definition body_command :: "json \<Rightarrow> string" where
  "body_command body =
     (case jat body ''command'' of
        JStr s \<Rightarrow> named_command s
      | _ \<Rightarrow> [])"

lemma jat_absent: "\<not> jcontains body k \<Longrightarrow> jat body k = JNull"
  by (cases body) auto

lemma apply_alias_nonempty: "apply_alias s = [] \<longleftrightarrow> s = []" "[] = apply_alias s \<longleftrightarrow> s = []"
  by (auto simp: apply_alias_def alias_map_def split: if_splits)

lemma to_lower_empty [simp]: "to_lower s = [] \<longleftrightarrow> s = []"
  by (simp add: to_lower_def)

text \<open>The command after the prefixes are gone: the text after the first slash, or all of it.\<close>

definition last_part :: "string \<Rightarrow> string" where
  "last_part p = (case find_sub ''/'' p of Some slash \<Rightarrow> drop (slash + 1) p | None \<Rightarrow> p)"

definition bare_path :: "string \<Rightarrow> string" where
  "bare_path path =
     (let p = (if path \<noteq> [] \<and> hd path = CHR ''/'' then tl path else path)
      in if starts_with ''api/'' p then drop 4 p else p)"

lemma normalize_command_eq:
  "normalize_command path body =
     (let q = last_part (bare_path path)
      in if q = [] then body_command body else named_command q)"
proof -
  let ?p = "bare_path path"
  define cmd where "cmd = (if ?p \<noteq> [] then named_command (last_part ?p) else [])"
  have "normalize_command path body =
      (if cmd = [] \<and> jcontains body ''command''
       then (case jat body ''command'' of JStr s \<Rightarrow> apply_alias (to_lower s) | _ \<Rightarrow> cmd) else cmd)"
    by (simp only: normalize_command_def Let_def cmd_def bare_path_def last_part_def
        named_command_def)
  also have "\<dots> = (if cmd = [] then body_command body else cmd)"
    by (cases "cmd = []"; cases "jcontains body ''command''"; cases "jat body ''command''")
      (simp_all add: body_command_def named_command_def jat_absent)
  also have "cmd = named_command (last_part ?p)"
    by (cases "?p = []") (simp_all add: cmd_def last_part_def named_command_def apply_alias_nonempty)
  finally show ?thesis
    by (simp add: Let_def named_command_def apply_alias_nonempty)
qed

lemma bare_path_simps:
  "CHR ''/'' \<notin> set x \<Longrightarrow> pre \<in> {[], ''/'', ''api/'', ''/api/''} \<Longrightarrow> bare_path (pre @ x) = x"
  "CHR ''/'' \<notin> set seg \<Longrightarrow> seg \<noteq> ''api'' \<Longrightarrow>
     bare_path (''/'' @ seg @ ''/'' @ y) = seg @ ''/'' @ y"
proof -
  assume a: "CHR ''/'' \<notin> set x" and "pre \<in> {[], ''/'', ''api/'', ''/api/''}"
  moreover have "x = [] \<or> hd x \<noteq> CHR ''/''" using a by (cases x) auto
  moreover have "\<not> starts_with ''api/'' x"
    using starts_with_absent [of "CHR ''/''" "''api/''" x] a by simp
  ultimately show "bare_path (pre @ x) = x"
    by (auto simp: bare_path_def Let_def)
next
  assume "CHR ''/'' \<notin> set seg" "seg \<noteq> ''api''"
  then have "\<not> starts_with ''api/'' (seg @ CHR ''/'' # y)"
    using starts_with_segment [of "CHR ''/''" "''api''" seg y] by simp
  then show "bare_path (''/'' @ seg @ ''/'' @ y) = seg @ ''/'' @ y"
    by (simp add: bare_path_def Let_def)
qed

lemma last_part_simps:
  "CHR ''/'' \<notin> set x \<Longrightarrow> last_part x = x"
  "CHR ''/'' \<notin> set seg \<Longrightarrow> last_part (seg @ ''/'' @ y) = y"
  using find_sub_absent [of "CHR ''/''" "''/''" x] find_char_after [of "CHR ''/''" seg y]
  by (simp_all add: last_part_def)

text \<open>
  Routing: a name without a slash means the same command under the prefixes none, \<open>/\<close>,
  \<open>api/\<close> and \<open>/api/\<close>, in any letter case, and each camel-case alias and its target mean the
  target; a path that is only such a prefix takes the command from the body; under any other
  first segment the command is everything after that segment's slash, further slashes
  included.
\<close>

theorem normalize_command_routes:
  assumes "CHR ''/'' \<notin> set x" "CHR ''/'' \<notin> set seg" "seg \<noteq> ''api''"
    and "pre \<in> {[], ''/'', ''api/'', ''/api/''}"
  shows "normalize_command (pre @ x) body = (if x = [] then body_command body else named_command x) \<and>
    normalize_command (''/'' @ seg @ ''/'' @ y) body =
      (if y = [] then body_command body else named_command y) \<and>
    (\<forall>(camel, snake) \<in> set alias_map. \<forall>s. to_lower s \<in> {camel, snake} \<longrightarrow> named_command s = snake)"
proof -
  have "\<forall>(camel, snake) \<in> set alias_map. apply_alias camel = snake \<and> apply_alias snake = snake"
    by code_simp
  then have "\<forall>(camel, snake) \<in> set alias_map. \<forall>s. to_lower s \<in> {camel, snake} \<longrightarrow> named_command s = snake"
    by (fastforce simp: named_command_def)
  then show ?thesis
    unfolding normalize_command_eq bare_path_simps(1) [OF assms(1,4)] bare_path_simps(2) [OF assms(2,3)]
      last_part_simps(1) [OF assms(1)] last_part_simps(2) [OF assms(2)] Let_def
    by blast
qed

theorem normalize_command_routes_witness:
  "normalize_command ''/api/SetParameter'' JNull = ''set_parameter'' \<and>
   normalize_command ''/v1/x/connect'' JNull = ''x/connect''"
proof -
  have "normalize_command (''/api/'' @ ''SetParameter'') JNull = named_command ''SetParameter''"
    "normalize_command (''/'' @ ''v1'' @ ''/'' @ ''x/connect'') JNull = named_command ''x/connect''"
    using normalize_command_routes [of "''SetParameter''" "''v1''" "''/api/''" JNull "''x/connect''"]
    by simp_all
  moreover have "named_command ''SetParameter'' = ''set_parameter''" by code_simp
  moreover have "named_command ''x/connect'' = ''x/connect''" by code_simp
  ultimately show ?thesis by simp
qed

section \<open>Setting and reading a parameter\<close>

lemma set_parameter_reply:
  assumes "json_conv_ok L" "cmd_set_parameter L body h = Inr (r, h')"
  shows "(r_code r = InvalidParam \<and> h' = h) \<or>
    (\<exists>s p v. r_code r = Success \<and> jat body ''name'' = JStr s \<and> ch_params h s = Some p \<and>
      typed_value L (p_value p) (jat body ''value'') = Inr v \<and> admits p v \<and>
      jat (r_detail r) ''value'' = value_to_json v \<and>
      h' = h\<lparr>ch_params := (ch_params h)(s \<mapsto> p\<lparr>p_value := v\<rparr>)\<rparr>)"
proof (cases "\<not> jcontains body ''name'' \<or> \<not> jcontains body ''value''")
  case True
  with assms(2) show ?thesis by (auto simp: cmd_set_parameter_def)
next
  case c: False
  then obtain s where n: "jl_string L (jat body ''name'') = Inr s"
    using assms(2) by (auto simp: cmd_set_parameter_def rbind_eq_Inr)
  show ?thesis
  proof (cases "ch_params h s")
    case None
    with assms(2) c n show ?thesis by (auto simp: cmd_set_parameter_def param_get_def)
  next
    case (Some p)
    then obtain v where v: "typed_value L (p_value p) (jat body ''value'') = Inr v"
      using assms(2) c n by (auto simp: cmd_set_parameter_def rbind_eq_Inr param_get_def)
    have js: "jat body ''name'' = JStr s" using n by (simp add: jl_string_Inr [OF assms(1)])
    have eq: "cmd_set_parameter L body h =
        (case set_value s v [] (ch_params h) of (ok, err, pm) \<Rightarrow>
           if \<not> ok then Inr (from_error InvalidParam err, h\<lparr>ch_params := pm\<rparr>)
           else Inr (reply Success ''Parameter set''
             [(''name'', JStr s), (''value'', value_to_json v),
              (''needs_reopen'', JBool (p_needs_reopen p))], h\<lparr>ch_params := pm\<rparr>))"
      using c by (simp add: cmd_set_parameter_def n Some v param_get_def)
    show ?thesis
      using assms(2) Some js v unfolding eq
      by (cases "admits p v") (auto simp: set_value_cases reply_def jat_jobj)
  qed
qed

lemma get_parameter_reply:
  assumes "json_conv_ok L" "jat body ''name'' = JStr s" "ch_params h s = Some p"
  shows "\<exists>r. handle L ks ''get_parameter'' body c h = Inr (r, h) \<and> r_code r = Success \<and>
    r_detail r = param_to_json p"
proof -
  have "jcontains body ''name''" using assms(2) jat_absent by fastforce
  then show ?thesis
    using assms(3)
    by (simp add: handle_def cmd_get_parameter_def param_get_def assms(2)
        jl_string_Inr [OF assms(1), THEN iffD2, OF refl])
qed

lemma param_to_json_value: "jat (param_to_json p) ''value'' = value_to_json (p_value p)"
  by (simp add: param_to_json_def jat_jobj map_add_def split: option.splits)

text \<open>
  C31. \<open>set_parameter\<close> either refuses with \<open>InvalidParam\<close> and changes nothing, or the named
  parameter exists, admits the converted value and now has it, nothing else changed, the reply
  echoes the value, and a \<open>get_parameter\<close> of the same name then reports exactly this value.
\<close>

theorem set_then_get_parameter:
  assumes "json_conv_ok L" "handle L ks ''set_parameter'' body c h = Inr (r, h')"
  shows "(r_code r = InvalidParam \<and> h' = h) \<or>
    (\<exists>s p v. r_code r = Success \<and> jat body ''name'' = JStr s \<and> ch_params h s = Some p \<and>
      typed_value L (p_value p) (jat body ''value'') = Inr v \<and>
      \<not> p_is_readonly p \<and> value_ok p v \<and>
      h' = h\<lparr>ch_params := (ch_params h)(s \<mapsto> p\<lparr>p_value := v\<rparr>)\<rparr> \<and>
      jat (r_detail r) ''value'' = value_to_json v \<and>
      (\<forall>body' d. jat body' ''name'' = JStr s \<longrightarrow>
         (\<exists>r'. handle L ks ''get_parameter'' body' d h' = Inr (r', h') \<and> r_code r' = Success \<and>
            jat (r_detail r') ''value'' = value_to_json v)))"
proof -
  have "cmd_set_parameter L body h = Inr (r, h')" using assms(2) by (simp add: handle_def)
  from set_parameter_reply [OF assms(1) this] show ?thesis
  proof
    assume "\<exists>s p v. r_code r = Success \<and> jat body ''name'' = JStr s \<and> ch_params h s = Some p \<and>
      typed_value L (p_value p) (jat body ''value'') = Inr v \<and> admits p v \<and>
      jat (r_detail r) ''value'' = value_to_json v \<and>
      h' = h\<lparr>ch_params := (ch_params h)(s \<mapsto> p\<lparr>p_value := v\<rparr>)\<rparr>"
    then obtain s p v where *: "r_code r = Success" "jat body ''name'' = JStr s" "ch_params h s = Some p"
      "typed_value L (p_value p) (jat body ''value'') = Inr v" "admits p v"
      "jat (r_detail r) ''value'' = value_to_json v"
      "h' = h\<lparr>ch_params := (ch_params h)(s \<mapsto> p\<lparr>p_value := v\<rparr>)\<rparr>"
      by blast
    then have "ch_params h' s = Some (p\<lparr>p_value := v\<rparr>)" by simp
    then have "\<exists>r'. handle L ks ''get_parameter'' body' d h' = Inr (r', h') \<and> r_code r' = Success \<and>
        jat (r_detail r') ''value'' = value_to_json v" if "jat body' ''name'' = JStr s" for body' d
      using get_parameter_reply [OF assms(1) that, where h = h' and ks = ks and c = d]
      by (auto simp: param_to_json_value)
    with * show ?thesis by (auto simp: admits_def)
  qed simp
qed

text \<open>A request for the witness: a new exposure time, in range.\<close>

definition set_exposure :: json where
  "set_exposure = JObj [(''name'', JStr ''exposure_us''), (''value'', JInt 700)]"

theorem set_then_get_parameter_witness:
  "\<exists>r h'. handle demo_lib [] ''set_parameter'' set_exposure ''a'' demo_handler = Inr (r, h') \<and>
     (\<exists>r'. handle demo_lib [] ''get_parameter'' set_exposure ''b'' h' = Inr (r', h') \<and>
        jat (r_detail r') ''value'' = JInt 700)"
proof -
  have ok: "json_conv_ok demo_lib" by (simp add: demo_lib_def json_conv_ok_conv_lib)
  have n: "jl_string demo_lib (JStr s) = Inr s" for s by (simp add: demo_lib_def conv_lib_def)
  have v: "typed_value demo_lib (Integer 5000) (JInt 700) = Inr (Integer 700)"
    by (simp add: typed_value_def demo_lib_def conv_lib_def)
  have g: "ch_params demo_handler ''exposure_us'' = Some exposure"
    by (simp add: demo_handler_def register_parameter_def exposure_def)
  have pv: "p_value exposure = Integer 5000" by (simp add: exposure_def)
  have a: "admits exposure (Integer 700)"
    by (simp add: admits_def value_ok_def same_type_def exposure_def)
  have nm: "jat set_exposure ''name'' = JStr ''exposure_us''" "jat set_exposure ''value'' = JInt 700"
    and c: "jcontains set_exposure ''name''" "jcontains set_exposure ''value''"
    by (simp_all add: set_exposure_def)
  have sv: "set_value ''exposure_us'' (Integer 700) [] (ch_params demo_handler) =
      (True, [], (ch_params demo_handler)(''exposure_us'' \<mapsto> exposure\<lparr>p_value := Integer 700\<rparr>))"
    by (simp add: set_value_cases g a)
  obtain r h' where h: "handle demo_lib [] ''set_parameter'' set_exposure ''a'' demo_handler = Inr (r, h')"
    and s: "r_code r = Success"
    by (simp add: handle_def cmd_set_parameter_def nm c n param_get_def g pv v sv reply_def)
  have "\<exists>r'. handle demo_lib [] ''get_parameter'' set_exposure ''b'' h' = Inr (r', h') \<and>
      jat (r_detail r') ''value'' = JInt 700"
    using set_then_get_parameter [OF ok h] s nm g pv v by fastforce
  with h show ?thesis by blast
qed

end
