(* ===== verification/CommandThreads.thy ===== *)
theory CommandThreads
  imports Commands
begin

text \<open>
  The commands of \<open>src/api/CommandHandler.cpp\<close> run by several worker threads at once. The handler
  has no lock of its own: a command is a sequence of calls to the session and channel managers,
  each atomic under the callee's mutex, and other commands may run between two of them. A
  worker's program counter names the call it makes next. The parameter
  commands and the listing of the channels are in \<open>ParameterThreads\<close>; flushing the queues is one step.
\<close>

section \<open>Commands as sequences of calls\<close>

datatype request =
    RConnect string
  | RDisconnect string
  | RStart string json
  | RStop string json
  | RActivate data_type
  | RDeactivate data_type

datatype worker_pc =
    WIdle
  | WConnect string
  | WRelease string
  | WLeave string
  | WCheck "string option" code
  | WFlush "string option" code
  | WStart string "data_type list"
  | WGroup data_type
  | WDrain data_type
  | WReply "string option" code

fun client_of :: "request \<Rightarrow> string option" where
  "client_of (RConnect c) = Some c"
| "client_of (RDisconnect c) = Some c"
| "client_of (RStart c body) = Some c"
| "client_of (RStop c body) = Some c"
| "client_of _ = None"

text \<open>The client a worker is serving.\<close>

fun serving :: "worker_pc \<Rightarrow> string option" where
  "serving (WConnect c) = Some c"
| "serving (WRelease c) = Some c"
| "serving (WLeave c) = Some c"
| "serving (WCheck c k) = c"
| "serving (WFlush c k) = c"
| "serving (WStart c ts) = Some c"
| "serving (WReply c k) = c"
| "serving _ = None"

text \<open>The first call of a command.\<close>

fun begin_request :: "request \<Rightarrow> handler \<Rightarrow> worker_pc \<times> handler" where
  "begin_request (RConnect c) h =
     (if is_connected (ch_sessions h) c then (WReply (Some c) AlreadyInit, h) else (WConnect c, h))"
| "begin_request (RDisconnect c) h =
     (if \<not> is_connected (ch_sessions h) c then (WReply (Some c) NotReady, h) else (WRelease c, h))"
| "begin_request (RStart c body) h =
     (if \<not> is_connected (ch_sessions h) c then (WReply (Some c) NotReady, h)
      else if expand_types body = [] then (WReply (Some c) InvalidParam, h)
      else (WStart c (expand_types body), h))"
| "begin_request (RStop c body) h =
     (if expand_types body = [] then (WReply (Some c) InvalidParam, h)
      else (WCheck (Some c) Success,
            h\<lparr>ch_channels := cm_stop_capture c (expand_types body) (ch_channels h)\<rparr>))"
| "begin_request (RActivate t) h =
     (WReply None Success, h\<lparr>ch_channels := snd (activate_channel t (ch_channels h))\<rparr>)"
| "begin_request (RDeactivate t) h =
     (WGroup t, h\<lparr>ch_channels := snd (deactivate_channel t (ch_channels h))\<rparr>)"

text \<open>The next call of a command that has begun.\<close>

fun advance :: "worker_pc \<times> handler \<Rightarrow> worker_pc \<times> handler" where
  "advance (WConnect c, h) =
     (WReply (Some c) Success, h\<lparr>ch_sessions := snd (connect c (ch_sessions h))\<rparr>)"
| "advance (WRelease c, h) =
     (WLeave c, h\<lparr>ch_channels := snd (disconnect_client c (ch_channels h))\<rparr>)"
| "advance (WLeave c, h) =
     (WCheck (Some c) Success, h\<lparr>ch_sessions := snd (disconnect c (ch_sessions h))\<rparr>)"
| "advance (WCheck c k, h) =
     ((if any_subscriber (ch_channels h) then WReply c k else WFlush c k), h)"
| "advance (WFlush c k, h) = (WReply c k, flush_all h)"
| "advance (WStart c ts, h) =
     (WReply (Some c) Success, h\<lparr>ch_channels := cm_start_capture c ts (ch_channels h)\<rparr>)"
| "advance (WGroup t, h) =
     ((if group_active (ch_channels h) (data_type_to_group t) \<or> \<not> ch_pipeline_ptr h
       then WReply None Success else WDrain t), h)"
| "advance (WDrain t, h) =
     (WReply None Success, h\<lparr>ch_dp := drain_group (data_type_to_group t) (ch_dp h)\<rparr>)"
| "advance (WReply c k, h) = (WReply c k, h)"
| "advance (WIdle, h) = (WIdle, h)"

text \<open>The command that a request runs when nothing intervenes.\<close>

fun run_command :: "request \<Rightarrow> handler \<Rightarrow> cmd_result" where
  "run_command (RConnect c) h = cmd_connect c h"
| "run_command (RDisconnect c) h = cmd_disconnect c h"
| "run_command (RStart c body) h = cmd_start_capture body c h"
| "run_command (RStop c body) h = cmd_stop_capture body c h"
| "run_command (RActivate t) h =
     Inr (response_default, h\<lparr>ch_channels := snd (activate_channel t (ch_channels h))\<rparr>)"
| "run_command (RDeactivate t) h =
     (let h1 = h\<lparr>ch_channels := snd (deactivate_channel t (ch_channels h))\<rparr>
      in Inr (response_default,
           if \<not> group_active (ch_channels h1) (data_type_to_group t) \<and> ch_pipeline_ptr h1
           then h1\<lparr>ch_dp := drain_group (data_type_to_group t) (ch_dp h1)\<rparr> else h1))"

lemma advance_sequential:
  "\<exists>r h'. run_command q h = Inr (r, h') \<and>
     (advance ^^ 4) (begin_request q h) = (WReply (client_of q) (r_code r), h')"
  by (cases q) (auto simp: eval_nat_numeral cmd_connect_def cmd_disconnect_def
      cmd_start_capture_def cmd_stop_capture_def response_default_def from_error_def reply_def Let_def)

text \<open>The two channel commands are these runs, with their own message texts.\<close>

lemma run_command_channels:
  assumes "named_type L body = Inr (Some t)"
  shows "\<exists>r. cmd_activate_channel L body h = Inr (r, snd (projr (run_command (RActivate t) h)))"
    and "\<exists>r. cmd_deactivate_channel L body h = Inr (r, snd (projr (run_command (RDeactivate t) h)))"
  by (simp_all add: cmd_activate_channel_def cmd_deactivate_channel_def assms Let_def)

section \<open>Several workers\<close>

record workers =
  ws_pc :: "nat \<Rightarrow> worker_pc"
  ws_h :: handler

text \<open>
  \<open>serial\<close>: a client sends its next request after the reply to the last one, so no two workers
  serve the same client at a time. The server does not enforce this.
\<close>

inductive ws_reach :: "bool \<Rightarrow> workers \<Rightarrow> bool" for serial where
  ws_init: "ch_sessions h = [] \<Longrightarrow> ch_channels h = cm_new \<Longrightarrow>
     ws_reach serial \<lparr>ws_pc = (\<lambda>_. WIdle), ws_h = h\<rparr>"
| ws_begin: "ws_reach serial s \<Longrightarrow> ws_pc s i = WIdle \<Longrightarrow>
     (serial \<longrightarrow> (\<forall>j c. serving (ws_pc s j) = Some c \<longrightarrow> client_of q \<noteq> Some c)) \<Longrightarrow>
     begin_request q (ws_h s) = (pc, h) \<Longrightarrow>
     ws_reach serial \<lparr>ws_pc = (ws_pc s)(i := pc), ws_h = h\<rparr>"
| ws_advance: "ws_reach serial s \<Longrightarrow> advance (ws_pc s i, ws_h s) = (pc, h) \<Longrightarrow>
     ws_reach serial \<lparr>ws_pc = (ws_pc s)(i := pc), ws_h = h\<rparr>"
| ws_replied: "ws_reach serial s \<Longrightarrow> ws_pc s i = WReply c k \<Longrightarrow>
     ws_reach serial (s\<lparr>ws_pc := (ws_pc s)(i := WIdle)\<rparr>)"
| ws_env: "ws_reach serial s \<Longrightarrow> env_change (ws_h s) h \<Longrightarrow> ws_reach serial (s\<lparr>ws_h := h\<rparr>)"

inductive_cases ws_reachE: "ws_reach serial s"

section \<open>One client at a time\<close>

fun pc_ok :: "worker_pc \<Rightarrow> channel_manager \<Rightarrow> session_manager \<Rightarrow> bool" where
  "pc_ok (WStart c ts) cm sm \<longleftrightarrow> is_connected sm c"
| "pc_ok (WLeave c) cm sm \<longleftrightarrow> cm_subs cm c = {}"
| "pc_ok _ cm sm \<longleftrightarrow> True"

lemma pc_ok_other:
  assumes "pc_ok pc cm sm"
    and "\<And>d. serving pc = Some d \<Longrightarrow>
      cm_subs cm' d = cm_subs cm d \<and> (is_connected sm' d \<longleftrightarrow> is_connected sm d)"
  shows "pc_ok pc cm' sm'"
  using assms by (cases pc) auto

lemma tables_release: "tables_ok cm sm \<Longrightarrow> tables_ok (snd (disconnect_client c cm)) sm"
  by (auto simp: tables_ok_def covered_def cm_subs_leave)

lemma tables_leave:
  "tables_ok cm sm \<Longrightarrow> cm_subs cm c = {} \<Longrightarrow> tables_ok cm (snd (disconnect c sm))"
  by (auto simp: tables_ok_def covered_def os_ok_disconnect)

lemmas tables_steps = tables_release tables_leave tables_connect tables_start tables_stop tables_force

lemma begin_serving: "serving (fst (begin_request q h)) = client_of q"
  by (cases q) auto

lemma advance_serving: "serving (fst (advance (pc, h))) = serving pc"
  by (cases pc) auto

lemma begin_ok:
  "begin_request q h = (pc, h') \<Longrightarrow> tables_ok (ch_channels h) (ch_sessions h) \<Longrightarrow>
   tables_ok (ch_channels h') (ch_sessions h') \<and> pc_ok pc (ch_channels h') (ch_sessions h')"
  by (cases q) (auto simp: tables_steps split: if_splits)

lemma begin_other:
  "begin_request q h = (pc, h') \<Longrightarrow> cm_inv (ch_channels h) \<Longrightarrow> client_of q \<noteq> Some d \<Longrightarrow>
   cm_subs (ch_channels h') d = cm_subs (ch_channels h) d \<and>
   (is_connected (ch_sessions h') d \<longleftrightarrow> is_connected (ch_sessions h) d)"
  by (cases q) (auto simp: cm_subs_stop force_one split: if_splits)

lemma advance_ok:
  "advance (pc, h) = (pc', h') \<Longrightarrow> tables_ok (ch_channels h) (ch_sessions h) \<Longrightarrow>
   pc_ok pc (ch_channels h) (ch_sessions h) \<Longrightarrow>
   tables_ok (ch_channels h') (ch_sessions h') \<and> pc_ok pc' (ch_channels h') (ch_sessions h')"
  by (cases pc) (auto simp: tables_steps cm_subs_leave split: if_splits)

lemma advance_other:
  "advance (pc, h) = (pc', h') \<Longrightarrow> serving pc \<noteq> Some d \<Longrightarrow>
   cm_subs (ch_channels h') d = cm_subs (ch_channels h) d \<and>
   (is_connected (ch_sessions h') d \<longleftrightarrow> is_connected (ch_sessions h) d)"
  by (cases pc) (auto simp: cm_subs_leave cm_subs_start split: if_splits)

definition ws_inv :: "workers \<Rightarrow> bool" where
  "ws_inv s \<longleftrightarrow>
     tables_ok (ch_channels (ws_h s)) (ch_sessions (ws_h s)) \<and>
     (\<forall>i. pc_ok (ws_pc s i) (ch_channels (ws_h s)) (ch_sessions (ws_h s))) \<and>
     (\<forall>i j c. i \<noteq> j \<longrightarrow> serving (ws_pc s i) = Some c \<longrightarrow> serving (ws_pc s j) \<noteq> Some c)"

text \<open>A step of worker \<open>i\<close> that leaves the other clients alone keeps the invariant.\<close>

lemma ws_inv_update:
  assumes inv: "ws_inv s"
    and ok: "tables_ok (ch_channels h) (ch_sessions h)" "pc_ok pc (ch_channels h) (ch_sessions h)"
    and other: "\<And>d. serving pc \<noteq> Some d \<Longrightarrow>
      cm_subs (ch_channels h) d = cm_subs (ch_channels (ws_h s)) d \<and>
      (is_connected (ch_sessions h) d \<longleftrightarrow> is_connected (ch_sessions (ws_h s)) d)"
    and excl: "\<And>j c. j \<noteq> i \<Longrightarrow> serving (ws_pc s j) = Some c \<Longrightarrow> serving pc \<noteq> Some c"
  shows "ws_inv \<lparr>ws_pc = (ws_pc s)(i := pc), ws_h = h\<rparr>"
proof -
  have "pc_ok (ws_pc s j) (ch_channels h) (ch_sessions h)" if "j \<noteq> i" for j
  proof (rule pc_ok_other)
    show "pc_ok (ws_pc s j) (ch_channels (ws_h s)) (ch_sessions (ws_h s))"
      using inv by (simp add: ws_inv_def)
    fix d assume "serving (ws_pc s j) = Some d"
    then show "cm_subs (ch_channels h) d = cm_subs (ch_channels (ws_h s)) d \<and>
        (is_connected (ch_sessions h) d \<longleftrightarrow> is_connected (ch_sessions (ws_h s)) d)"
      by (intro other excl [OF that])
  qed
  with ok(2) have "pc_ok (((ws_pc s)(i := pc)) j) (ch_channels h) (ch_sessions h)" for j
    by simp
  moreover have "serving (((ws_pc s)(i := pc)) b) \<noteq> Some c"
    if "a \<noteq> b" "serving (((ws_pc s)(i := pc)) a) = Some c" for a b c
  proof (cases "a = i \<or> b = i")
    case True
    with that excl show ?thesis by (metis fun_upd_apply)
  next
    case False
    with that inv show ?thesis by (simp add: ws_inv_def)
  qed
  ultimately show ?thesis using ok(1) by (simp add: ws_inv_def)
qed

lemma ws_reach_inv: "ws_reach True s \<Longrightarrow> ws_inv s"
proof (induction rule: ws_reach.induct)
  case (ws_init h)
  moreover have "covered cm_new []" by (simp add: covered_def cm_subs_def cm_new_def)
  ultimately show ?case by (simp add: ws_inv_def tables_ok_def)
next
  case (ws_begin s i q pc h)
  then have t: "tables_ok (ch_channels (ws_h s)) (ch_sessions (ws_h s))" by (simp add: ws_inv_def)
  have s: "serving pc = client_of q" using begin_serving [of q "ws_h s"] ws_begin by simp
  show ?case
    using ws_begin t begin_ok [OF ws_begin(4) t] begin_other [OF ws_begin(4)]
    by (intro ws_inv_update) (auto simp: s tables_ok_def)
next
  case (ws_advance s i pc h)
  have s: "serving pc = serving (ws_pc s i)"
    using advance_serving [of "ws_pc s i" "ws_h s"] ws_advance by simp
  show ?case
    using ws_advance advance_ok [OF ws_advance(2)] advance_other [OF ws_advance(2)]
    by (intro ws_inv_update) (auto simp: s ws_inv_def)
next
  case (ws_replied s i c k)
  then show ?case by (auto simp: ws_inv_def)
next
  case (ws_env s h)
  then show ?case by (auto simp: ws_inv_def env_change_def)
qed

text \<open>The tables themselves are consistent under every overlap.\<close>

lemma begin_cm_inv:
  "begin_request q h = (pc, h') \<Longrightarrow> cm_inv (ch_channels h) \<Longrightarrow> cm_inv (ch_channels h')"
  by (cases q) (auto split: if_splits)

lemma advance_cm_inv:
  "advance (pc, h) = (pc', h') \<Longrightarrow> cm_inv (ch_channels h) \<Longrightarrow> cm_inv (ch_channels h')"
  by (cases pc) (auto split: if_splits)

lemma ws_reach_cm_inv: "ws_reach serial s \<Longrightarrow> cm_inv (ch_channels (ws_h s))"
  by (induction rule: ws_reach.induct)
    (auto simp: env_change_def intro: begin_cm_inv advance_cm_inv)

text \<open>
  C13. Any number of workers, each command split into its calls. Under every overlap the counter
  of a data type is the number of clients that hold it. If no client has two requests in
  progress at once, then in every state, also between the calls of a command, only connected
  clients hold data types, and a type is active exactly if it is forced or such a client holds it.
\<close>

theorem overlapping_commands_consistent:
  assumes "ws_reach serial s"
  shows "subscriber_count (ch_channels (ws_h s)) t = int (card (holders (ch_channels (ws_h s)) t)) \<and>
    (serial \<longrightarrow> (t \<in> cm_subs (ch_channels (ws_h s)) c \<longrightarrow> is_connected (ch_sessions (ws_h s)) c) \<and>
       (is_active (ch_channels (ws_h s)) t \<longleftrightarrow>
          frc (cm_states (ch_channels (ws_h s))) t \<or>
          (\<exists>d. is_connected (ch_sessions (ws_h s)) d \<and> t \<in> cm_subs (ch_channels (ws_h s)) d)))"
proof (intro conjI impI)
  note inv = ws_reach_cm_inv [OF assms]
  show "subscriber_count (ch_channels (ws_h s)) t = int (card (holders (ch_channels (ws_h s)) t))"
    by (rule subscriber_count_eq [OF inv])
  assume serial
  then have cov: "covered (ch_channels (ws_h s)) (ch_sessions (ws_h s))"
    using ws_reach_inv [of s] assms by (simp add: ws_inv_def tables_ok_def)
  then show "is_connected (ch_sessions (ws_h s)) c" if "t \<in> cm_subs (ch_channels (ws_h s)) c"
    using that by (auto simp: covered_def)
  show "is_active (ch_channels (ws_h s)) t \<longleftrightarrow>
      frc (cm_states (ch_channels (ws_h s))) t \<or>
      (\<exists>d. is_connected (ch_sessions (ws_h s)) d \<and> t \<in> cm_subs (ch_channels (ws_h s)) d)"
    using cov is_active_iff [OF inv] by (auto simp: covered_def)
qed

text \<open>Runs for the witness and the counterexample: what worker \<open>i\<close> does next.\<close>

datatype ws_event = EBegin nat request | EAdvance nat | EReplied nat

fun ws_exec :: "ws_event list \<Rightarrow> workers \<Rightarrow> workers" where
  "ws_exec [] s = s"
| "ws_exec (EBegin i q # es) s =
     (let r = begin_request q (ws_h s)
      in ws_exec es \<lparr>ws_pc = (ws_pc s)(i := fst r), ws_h = snd r\<rparr>)"
| "ws_exec (EAdvance i # es) s =
     (let r = advance (ws_pc s i, ws_h s)
      in ws_exec es \<lparr>ws_pc = (ws_pc s)(i := fst r), ws_h = snd r\<rparr>)"
| "ws_exec (EReplied i # es) s = ws_exec es (s\<lparr>ws_pc := (ws_pc s)(i := WIdle)\<rparr>)"

fun replying :: "worker_pc \<Rightarrow> bool" where
  "replying (WReply c k) = True"
| "replying _ = False"

fun ws_enabled :: "ws_event list \<Rightarrow> workers \<Rightarrow> bool" where
  "ws_enabled [] s = True"
| "ws_enabled (EBegin i q # es) s =
     (ws_pc s i = WIdle \<and> ws_enabled es (ws_exec [EBegin i q] s))"
| "ws_enabled (EAdvance i # es) s = ws_enabled es (ws_exec [EAdvance i] s)"
| "ws_enabled (EReplied i # es) s = (replying (ws_pc s i) \<and> ws_enabled es (ws_exec [EReplied i] s))"

lemma replying_iff: "replying pc \<longleftrightarrow> (\<exists>c k. pc = WReply c k)"
  by (cases pc) auto

lemma ws_exec_reach: "ws_reach False s \<Longrightarrow> ws_enabled es s \<Longrightarrow> ws_reach False (ws_exec es s)"
proof (induction es s rule: ws_exec.induct)
  case (2 i q es s)
  then show ?case using ws_begin [of False s i q] by (auto simp: Let_def prod_eq_iff)
next
  case (3 i es s)
  then show ?case using ws_advance [of False s i] by (auto simp: Let_def)
next
  case (4 i es s)
  then show ?case using ws_replied [of False s i] by (auto simp: replying_iff)
qed simp

definition workers_start :: workers where
  "workers_start = \<lparr>ws_pc = (\<lambda>_. WIdle), ws_h = demo_handler\<rparr>"

lemma workers_start_reach: "ws_reach serial workers_start"
  unfolding workers_start_def by (rule ws_init) (simp_all add: demo_handler_def)

text \<open>
  One client connects; then worker 0 serves its \<open>start_capture\<close> and is delayed after the check of
  the session, while worker 1 serves its \<open>disconnect\<close>.
\<close>

definition leak_run :: "ws_event list" where
  "leak_run =
     [EBegin 0 (RConnect ''default''), EAdvance 0, EReplied 0,
      EBegin 0 (RStart ''default'' capture_imu),
      EBegin 1 (RDisconnect ''default''), EAdvance 1, EAdvance 1, EAdvance 1, EAdvance 1,
      EReplied 1, EAdvance 0]"


text \<open>Two clients connect at the same time.\<close>

definition two_connecting :: workers where
  "two_connecting = ws_exec [EBegin 0 (RConnect ''a''), EBegin 1 (RConnect ''b'')] workers_start"

lemma two_connecting_reach: "ws_reach True two_connecting"
proof -
  have b: "begin_request (RConnect c) demo_handler = (WConnect c, demo_handler)" for c
    by (simp add: demo_handler_def is_connected_def)
  let ?s = "\<lparr>ws_pc = (\<lambda>_. WIdle)(0 := WConnect ''a''), ws_h = demo_handler\<rparr>"
  have "ws_reach True ?s"
    using ws_begin [OF workers_start_reach, of 0 True "RConnect ''a''" "WConnect ''a''" demo_handler] b
    by (simp add: workers_start_def)
  from ws_begin [OF this, of 1 "RConnect ''b''" "WConnect ''b''" demo_handler] show ?thesis
    using b by (simp add: two_connecting_def workers_start_def Let_def del: begin_request.simps)
qed

theorem overlapping_commands_consistent_witness:
  "ws_pc two_connecting 0 = WConnect ''a'' \<and> ws_pc two_connecting 1 = WConnect ''b'' \<and>
   IMU \<notin> cm_subs (ch_channels (ws_h two_connecting)) ''a''"
proof -
  have pcs: "ws_pc two_connecting 0 = WConnect ''a''" "ws_pc two_connecting 1 = WConnect ''b''"
    and nc: "\<not> is_connected (ch_sessions (ws_h two_connecting)) ''a''"
    by (simp_all add: two_connecting_def workers_start_def demo_handler_def is_connected_def Let_def)
  with overlapping_commands_consistent [OF two_connecting_reach, of IMU "''a''"] show ?thesis
    by blast
qed

end
