(* ===== verification/ParameterThreads.thy ===== *)
theory ParameterThreads
  imports CommandThreads
begin

text \<open>
  The parameter commands of \<open>src/api/CommandHandler.cpp\<close> run by several workers at once.
  \<open>set_parameter\<close> makes two calls of the \<open>ParameterManager\<close>, \<open>get\<close> and \<open>set_value\<close>, each under its
  mutex, and converts the value in between from what it read; \<open>get_parameter\<close> and \<open>list_parameters\<close>
  make one. The second half lists the channels, one call for each entry.
\<close>

section \<open>Parameter commands as sequences of calls\<close>

datatype param_request = QSet json | QGet json | QList

text \<open>Between the calls of \<open>set_parameter\<close>: its body, the name, the converted value, \<open>needs_reopen\<close>.\<close>

datatype param_pc = PaIdle | PaWrite json string param_value bool

datatype set_begun = Replied "response result" | ToWrite string param_value bool

definition begin_set :: "json_lib \<Rightarrow> json \<Rightarrow> params \<Rightarrow> set_begun" where
  "begin_set L body m =
     (if \<not> jcontains body ''name'' \<or> \<not> jcontains body ''value''
      then Replied (Inr (from_error InvalidParam (''missing '' @ quoted ''name'' @ '' or '' @ quoted ''value'')))
      else
        (case jl_string L (jat body ''name'') of
           Inl e \<Rightarrow> Replied (Inl e)
         | Inr name \<Rightarrow>
             (case param_get name m of
                None \<Rightarrow> Replied (Inr (from_error InvalidParam ''unknown parameter''))
              | Some p \<Rightarrow>
                  (case typed_value L (p_value p) (jat body ''value'') of
                     Inl e \<Rightarrow> Replied (Inl e)
                   | Inr v \<Rightarrow> ToWrite name v (p_needs_reopen p)))))"

definition finish_set :: "string \<Rightarrow> param_value \<Rightarrow> bool \<Rightarrow> params \<Rightarrow> response \<times> params" where
  "finish_set name v needs_reopen m =
     (case set_value name v [] m of
        (ok, err, pm) \<Rightarrow>
          (if \<not> ok then (from_error InvalidParam err, pm)
           else (reply Success ''Parameter set''
                   [(''name'', JStr name), (''value'', value_to_json v),
                    (''needs_reopen'', JBool needs_reopen)], pm)))"

text \<open>The whole command, when nothing intervenes.\<close>

fun run_param :: "json_lib \<Rightarrow> string list \<Rightarrow> param_request \<Rightarrow> handler \<Rightarrow> cmd_result" where
  "run_param L ks (QSet body) h = cmd_set_parameter L body h"
| "run_param L ks (QGet body) h = rbind (cmd_get_parameter L body h) (\<lambda>r. Inr (r, h))"
| "run_param L ks QList h = Inr (cmd_list_parameters ks h, h)"

lemma set_sequential:
  "cmd_set_parameter L body h =
     (case begin_set L body (ch_params h) of
        Replied r \<Rightarrow> rbind r (\<lambda>r. Inr (r, h))
      | ToWrite name v nr \<Rightarrow>
          (let r = finish_set name v nr (ch_params h) in Inr (fst r, h\<lparr>ch_params := snd r\<rparr>)))"
  by (auto simp: cmd_set_parameter_def begin_set_def finish_set_def Let_def
      split: option.split sum.split prod.split)

section \<open>Several workers\<close>

text \<open>\<open>py_log\<close> lists the finished requests with their outcomes, in the order of their last calls.\<close>

record param_sys =
  py_h :: handler
  py_pc :: "nat \<Rightarrow> param_pc"
  py_log :: "(param_request \<times> response result) list"

inductive py_step :: "json_lib \<Rightarrow> string list \<Rightarrow> param_sys \<Rightarrow> param_sys \<Rightarrow> bool" for L ks where
  SetReplied: "py_pc s i = PaIdle \<Longrightarrow> begin_set L body (ch_params (py_h s)) = Replied r \<Longrightarrow>
    py_step L ks s (s\<lparr>py_log := py_log s @ [(QSet body, r)]\<rparr>)"
| SetBegun: "py_pc s i = PaIdle \<Longrightarrow> begin_set L body (ch_params (py_h s)) = ToWrite name v nr \<Longrightarrow>
    py_step L ks s (s\<lparr>py_pc := (py_pc s)(i := PaWrite body name v nr)\<rparr>)"
| SetFinished: "py_pc s i = PaWrite body name v nr \<Longrightarrow> finish_set name v nr (ch_params (py_h s)) = (r, m) \<Longrightarrow>
    py_step L ks s (s\<lparr>py_h := (py_h s)\<lparr>ch_params := m\<rparr>, py_pc := (py_pc s)(i := PaIdle),
      py_log := py_log s @ [(QSet body, Inr r)]\<rparr>)"
| Get: "py_pc s i = PaIdle \<Longrightarrow>
    py_step L ks s (s\<lparr>py_log := py_log s @ [(QGet body, cmd_get_parameter L body (py_h s))]\<rparr>)"
| List: "py_pc s i = PaIdle \<Longrightarrow>
    py_step L ks s (s\<lparr>py_log := py_log s @ [(QList, Inr (cmd_list_parameters ks (py_h s)))]\<rparr>)"
| Others: "ch_params h = ch_params (py_h s) \<Longrightarrow> py_step L ks s (s\<lparr>py_h := h\<rparr>)"

definition param_sys_start :: "handler \<Rightarrow> param_sys" where
  "param_sys_start h = \<lparr>py_h = h, py_pc = (\<lambda>_. PaIdle), py_log = []\<rparr>"

text \<open>The requests one after the other; an exception leaves the handler as it is.\<close>

fun serially :: "json_lib \<Rightarrow> string list \<Rightarrow> param_request list \<Rightarrow> handler \<Rightarrow> response result list \<times> handler" where
  "serially L ks [] h = ([], h)"
| "serially L ks (q # qs) h =
     (case run_param L ks q h of
        Inl e \<Rightarrow> (let r = serially L ks qs h in (Inl e # fst r, snd r))
      | Inr (x, h') \<Rightarrow> (let r = serially L ks qs h' in (Inr x # fst r, snd r)))"

lemma serially_append:
  "serially L ks (qs @ qs') h =
     (let r = serially L ks qs h; r' = serially L ks qs' (snd r) in (fst r @ fst r', snd r'))"
  by (induction qs arbitrary: h) (auto simp: Let_def split: sum.split)

text \<open>The outcome of a request and the parameters after it depend on the parameters alone.\<close>

lemma run_param_params:
  assumes "ch_params h = ch_params h'"
  shows "case run_param L ks q h of
      Inl e \<Rightarrow> run_param L ks q h' = Inl e
    | Inr (x, k) \<Rightarrow> \<exists>k'. run_param L ks q h' = Inr (x, k') \<and> ch_params k' = ch_params k"
proof (cases q)
  case (QSet body)
  then show ?thesis
    by (cases "begin_set L body (ch_params h')")
      (auto simp: set_sequential assms Let_def rbind_eq_Inl rbind_eq_Inr split: sum.split)
next
  case (QGet body)
  have "cmd_get_parameter L body h = cmd_get_parameter L body h'"
    by (simp add: cmd_get_parameter_def assms)
  then show ?thesis using assms QGet by (auto simp: rbind_eq_Inl rbind_eq_Inr split: sum.split)
next
  case QList
  then show ?thesis using assms by (simp add: cmd_list_parameters_def)
qed

section \<open>Writes keep what \<open>get\<close> has read\<close>

definition fixed_of :: "params \<Rightarrow> string \<Rightarrow> (nat \<times> bool) option" where
  "fixed_of m k = map_option (\<lambda>p. (variant_index (p_value p), p_needs_reopen p)) (m k)"

lemma fixed_of_write: "fixed_of (snd (snd (set_value k v err m))) = fixed_of m"
  by (auto simp: fixed_of_def set_value_cases admits_def value_ok_def same_type_def fun_eq_iff
      split: option.split)

lemma typed_value_same:
  "variant_index p = variant_index q \<Longrightarrow> typed_value L p v = typed_value L q v"
  by (cases p; cases q) (auto simp: typed_value_def)

lemma begin_set_fixed:
  assumes "fixed_of m' = fixed_of m"
  shows "begin_set L body m' = begin_set L body m"
proof -
  have k: "fixed_of m' k = fixed_of m k" for k using assms by simp
  show ?thesis
  proof (cases "jl_string L (jat body ''name'')")
    case (Inr k)
    show ?thesis
    proof (cases "m k")
      case None
      then have "m' k = None" using k [of k] by (simp add: fixed_of_def)
      with None Inr show ?thesis by (simp add: begin_set_def param_get_def)
    next
      case (Some p)
      then obtain q where q: "m' k = Some q" "variant_index (p_value q) = variant_index (p_value p)"
        "p_needs_reopen q = p_needs_reopen p"
        using k [of k] by (auto simp: fixed_of_def)
      then have "typed_value L (p_value q) v = typed_value L (p_value p) v" for v
        by (intro typed_value_same)
      with Some q Inr show ?thesis by (simp add: begin_set_def param_get_def split: sum.split)
    qed
  qed (simp add: begin_set_def)
qed

section \<open>One after the other\<close>

definition py_inv :: "json_lib \<Rightarrow> string list \<Rightarrow> handler \<Rightarrow> param_sys \<Rightarrow> bool" where
  "py_inv L ks h0 s \<longleftrightarrow>
     fst (serially L ks (map fst (py_log s)) h0) = map snd (py_log s) \<and>
     ch_params (snd (serially L ks (map fst (py_log s)) h0)) = ch_params (py_h s) \<and>
     (\<forall>i body name v nr. py_pc s i = PaWrite body name v nr \<longrightarrow>
        begin_set L body (ch_params (py_h s)) = ToWrite name v nr)"

text \<open>A request whose outcome is that of the whole command now can be put at the end.\<close>

lemma serially_snoc:
  assumes "ch_params (snd (serially L ks qs h0)) = ch_params h"
    and "case r of Inl e \<Rightarrow> run_param L ks q h = Inl e \<and> m = ch_params h
      | Inr x \<Rightarrow> \<exists>h'. run_param L ks q h = Inr (x, h') \<and> ch_params h' = m"
  shows "fst (serially L ks (qs @ [q]) h0) = fst (serially L ks qs h0) @ [r]"
    and "ch_params (snd (serially L ks (qs @ [q]) h0)) = m"
  using assms(2) run_param_params [OF assms(1) [symmetric], of L ks q] assms(1)
  by (cases r; auto simp: serially_append Let_def split: sum.splits)+

lemma py_inv_step:
  assumes "py_step L ks s s'" "py_inv L ks h0 s"
  shows "py_inv L ks h0 s'"
  using assms(1)
proof cases
  case (SetReplied i body r)
  have "run_param L ks (QSet body) (py_h s) = rbind r (\<lambda>r. Inr (r, py_h s))"
    using SetReplied(3) by (simp add: set_sequential)
  then have "case r of Inl e \<Rightarrow> run_param L ks (QSet body) (py_h s) = Inl e \<and> ch_params (py_h s) = ch_params (py_h s)
      | Inr x \<Rightarrow> \<exists>h'. run_param L ks (QSet body) (py_h s) = Inr (x, h') \<and> ch_params h' = ch_params (py_h s)"
    by (cases r) auto
  from serially_snoc [OF _ this, of "map fst (py_log s)" h0] assms(2) SetReplied(1)
  show ?thesis by (simp add: py_inv_def)
next
  case (SetBegun i body name v nr)
  with assms(2) show ?thesis by (auto simp: py_inv_def)
next
  case (SetFinished i body name v nr r m)
  have b: "begin_set L body (ch_params (py_h s)) = ToWrite name v nr"
    using assms(2) SetFinished(2) by (auto simp: py_inv_def)
  have m: "m = snd (snd (set_value name v [] (ch_params (py_h s))))"
    using SetFinished(3) by (auto simp: finish_set_def split: prod.splits if_splits)
  have "run_param L ks (QSet body) (py_h s) = Inr (r, (py_h s)\<lparr>ch_params := m\<rparr>)"
    using SetFinished(3) b by (simp add: set_sequential Let_def)
  then have "case Inr r of Inl e \<Rightarrow> run_param L ks (QSet body) (py_h s) = Inl e \<and> m = ch_params (py_h s)
      | Inr x \<Rightarrow> \<exists>h'. run_param L ks (QSet body) (py_h s) = Inr (x, h') \<and> ch_params h' = m"
    by simp
  note e = serially_snoc [OF _ this, of "map fst (py_log s)" h0]
  have "begin_set L d m = begin_set L d (ch_params (py_h s))" for d
    by (rule begin_set_fixed) (simp add: m fixed_of_write)
  with e assms(2) SetFinished(1) show ?thesis by (auto simp: py_inv_def)
next
  case (Get i body)
  have "case cmd_get_parameter L body (py_h s) of
      Inl e \<Rightarrow> run_param L ks (QGet body) (py_h s) = Inl e \<and> ch_params (py_h s) = ch_params (py_h s)
    | Inr x \<Rightarrow> \<exists>h'. run_param L ks (QGet body) (py_h s) = Inr (x, h') \<and> ch_params h' = ch_params (py_h s)"
    by (cases "cmd_get_parameter L body (py_h s)") auto
  from serially_snoc [OF _ this, of "map fst (py_log s)" h0] assms(2) Get(1)
  show ?thesis by (simp add: py_inv_def)
next
  case (List i)
  have "case Inr (cmd_list_parameters ks (py_h s)) of
      Inl e \<Rightarrow> run_param L ks QList (py_h s) = Inl e \<and> ch_params (py_h s) = ch_params (py_h s)
    | Inr x \<Rightarrow> \<exists>h'. run_param L ks QList (py_h s) = Inr (x, h') \<and> ch_params h' = ch_params (py_h s)"
    by simp
  from serially_snoc [OF _ this, of "map fst (py_log s)" h0] assms(2) List(1)
  show ?thesis by (simp add: py_inv_def)
next
  case (Others h)
  with assms(2) show ?thesis by (simp add: py_inv_def)
qed

text \<open>
  C32. Parameter commands of any number of workers, with everything else the service does in
  between, are as if run one after the other: in the order of their last calls, the whole commands
  give exactly the outcomes of the overlapping ones, exceptions included, and the same parameters.
  \<open>set_parameter\<close> may convert with what it read before other writes, because no write changes it.
\<close>

theorem parameter_commands_serialise:
  assumes "(py_step L ks)\<^sup>*\<^sup>* (param_sys_start h) s"
  shows "fst (serially L ks (map fst (py_log s)) h) = map snd (py_log s) \<and>
    ch_params (snd (serially L ks (map fst (py_log s)) h)) = ch_params (py_h s)"
proof -
  have "py_inv L ks h s"
    using assms
  proof (induction rule: rtranclp_induct)
    case base
    show ?case by (simp add: py_inv_def param_sys_start_def)
  next
    case (step s s')
    then show ?case by (blast intro: py_inv_step)
  qed
  then show ?thesis by (simp add: py_inv_def)
qed

text \<open>
  Worker 0 has begun to set 700 when worker 1 begins and finishes setting 900; the exposure time is
  then 700, as if 900 had been set first.
\<close>

definition set_exposure_900 :: json where
  "set_exposure_900 = JObj [(''name'', JStr ''exposure_us''), (''value'', JInt 900)]"

definition exposure_at :: "int \<Rightarrow> params" where
  "exposure_at n = [''exposure_us'' \<mapsto> exposure\<lparr>p_value := Integer n\<rparr>]"

lemma exposure_set:
  assumes "100 \<le> n" "n \<le> 100000"
  shows "finish_set ''exposure_us'' (Integer n) False (exposure_at k) =
    (reply Success ''Parameter set'' [(''name'', JStr ''exposure_us''), (''value'', JInt n),
       (''needs_reopen'', JBool False)], exposure_at n)"
  using assms
  by (auto simp: finish_set_def exposure_at_def set_value_cases admits_def value_ok_def same_type_def
      exposure_def fun_eq_iff)

lemma exposure_begun:
  "begin_set demo_lib set_exposure (exposure_at k) = ToWrite ''exposure_us'' (Integer 700) False"
  "begin_set demo_lib set_exposure_900 (exposure_at k) = ToWrite ''exposure_us'' (Integer 900) False"
  by (simp_all add: begin_set_def set_exposure_def set_exposure_900_def demo_lib_def conv_lib_def
      param_get_def exposure_at_def typed_value_def exposure_def)

definition exposure_handler :: handler where
  "exposure_handler = demo_handler\<lparr>ch_params := exposure_at 5000\<rparr>"

definition crossed :: param_sys where
  "crossed =
     (let r = (\<lambda>n. Inr (reply Success ''Parameter set'' [(''name'', JStr ''exposure_us''), (''value'', JInt n),
            (''needs_reopen'', JBool False)]))
      in \<lparr>py_h = exposure_handler\<lparr>ch_params := exposure_at 700\<rparr>, py_pc = (\<lambda>_. PaIdle),
          py_log = [(QSet set_exposure_900, r 900), (QSet set_exposure, r 700)]\<rparr>)"

lemma crossed_reached: "(py_step demo_lib [])\<^sup>*\<^sup>* (param_sys_start exposure_handler) crossed"
proof -
  let ?pc0 = "(\<lambda>_. PaIdle)((0 :: nat) := PaWrite set_exposure ''exposure_us'' (Integer 700) False)"
  let ?pc1 = "?pc0(1 := PaWrite set_exposure_900 ''exposure_us'' (Integer 900) False)"
  let ?r = "\<lambda>n. Inr (reply Success ''Parameter set'' [(''name'', JStr ''exposure_us''), (''value'', JInt n),
    (''needs_reopen'', JBool False)])"
  let ?s0 = "param_sys_start exposure_handler"
  let ?s1 = "?s0\<lparr>py_pc := ?pc0\<rparr>"
  let ?s2 = "?s1\<lparr>py_pc := ?pc1\<rparr>"
  let ?s3 = "?s2\<lparr>py_h := exposure_handler\<lparr>ch_params := exposure_at 900\<rparr>, py_pc := ?pc0,
    py_log := [(QSet set_exposure_900, ?r 900)]\<rparr>"
  have h: "ch_params exposure_handler = exposure_at 5000" by (simp add: exposure_handler_def)
  have "py_step demo_lib [] ?s0 ?s1"
    using py_step.SetBegun [where s = ?s0 and i = 0 and L = demo_lib and body = set_exposure and nr = False] exposure_begun(1) [of 5000]
    by (simp add: param_sys_start_def h)
  moreover have "py_step demo_lib [] ?s1 ?s2"
    using py_step.SetBegun [where s = ?s1 and i = 1 and L = demo_lib and body = set_exposure_900 and nr = False] exposure_begun(2) [of 5000]
    by (simp add: param_sys_start_def h)
  moreover have "py_step demo_lib [] ?s2 ?s3"
  proof -
    have "py_step demo_lib [] ?s2 (?s2\<lparr>py_h := (py_h ?s2)\<lparr>ch_params := exposure_at 900\<rparr>,
        py_pc := (py_pc ?s2)(1 := PaIdle), py_log := py_log ?s2 @ [(QSet set_exposure_900, ?r 900)]\<rparr>)"
      by (rule py_step.SetFinished [where name = "''exposure_us''" and v = "Integer 900" and nr = False])
        (simp_all add: exposure_set h param_sys_start_def)
    moreover have "?pc1(1 := PaIdle) = ?pc0" by (simp add: fun_eq_iff)
    ultimately show ?thesis by (simp add: param_sys_start_def del: fun_upd_apply)
  qed
  moreover have "py_step demo_lib [] ?s3 crossed"
  proof -
    have "py_step demo_lib [] ?s3 (?s3\<lparr>py_h := (py_h ?s3)\<lparr>ch_params := exposure_at 700\<rparr>,
        py_pc := (py_pc ?s3)(0 := PaIdle), py_log := py_log ?s3 @ [(QSet set_exposure, ?r 700)]\<rparr>)"
      by (rule py_step.SetFinished [where name = "''exposure_us''" and v = "Integer 700" and nr = False])
        (simp_all add: exposure_set param_sys_start_def)
    moreover have "?pc0(0 := PaIdle) = (\<lambda>_. PaIdle)" by (simp add: fun_eq_iff)
    ultimately show ?thesis by (simp add: param_sys_start_def crossed_def)
  qed
  ultimately show ?thesis by (meson converse_rtranclp_into_rtranclp rtranclp.rtrancl_refl)
qed

theorem parameter_commands_serialise_witness:
  "map fst (py_log crossed) = [QSet set_exposure_900, QSet set_exposure] \<and>
   fst (serially demo_lib [] [QSet set_exposure_900, QSet set_exposure] exposure_handler) =
     map snd (py_log crossed) \<and>
   ch_params (snd (serially demo_lib [] [QSet set_exposure_900, QSet set_exposure] exposure_handler)) =
     exposure_at 700"
  using parameter_commands_serialise [OF crossed_reached]
  by (simp add: crossed_def Let_def del: serially.simps)

section \<open>Listing the channels\<close>

text \<open>
  \<open>list_channels\<close> makes two calls for each data type; \<open>cms i\<close> is the state of the channel manager at
  the \<open>i\<close>-th call.
\<close>

fun list_entries :: "(nat \<Rightarrow> channel_manager) \<Rightarrow> nat \<Rightarrow> data_type list \<Rightarrow> json list" where
  "list_entries cms i [] = []"
| "list_entries cms i (t # ts) =
     jobj [(''data_type'', JStr (data_type_to_string t)),
           (''group'', JStr (group_to_string (data_type_to_group t))),
           (''supported'', JBool True),
           (''activated'', JBool (is_active (cms i) t)),
           (''subscribers'', JInt (subscriber_count (cms (i + 1)) t))] # list_entries cms (i + 2) ts"

definition list_channels_over :: "(nat \<Rightarrow> channel_manager) \<Rightarrow> response" where
  "list_channels_over cms = reply Success ''Channels'' [(''channels'', JArr (list_entries cms 0 all_data_types))]"

lemma list_entries_still:
  "(\<And>i. cms i = cm) \<Longrightarrow> list_entries cms i ts =
     map (\<lambda>t. jobj [(''data_type'', JStr (data_type_to_string t)),
           (''group'', JStr (group_to_string (data_type_to_group t))),
           (''supported'', JBool True),
           (''activated'', JBool (is_active cm t)),
           (''subscribers'', JInt (subscriber_count cm t))]) ts"
  by (induction ts arbitrary: i) simp_all

lemma list_channels_still: "list_channels_over (\<lambda>_. ch_channels h) = cmd_list_channels h"
  by (simp add: list_channels_over_def cmd_list_channels_def list_entries_still)

text \<open>
  A \<open>start_capture\<close> between the two calls for a type: the reply says that the type is not active and
  has a subscriber, which no state of the manager says (\<open>check_status\<close> reads under one lock).
\<close>

lemma is_active_counted: "0 < subscriber_count cm t \<Longrightarrow> is_active cm t"
  by (auto simp: is_active_def subscriber_count_def split: option.splits)

lemma list_channels_torn:
  fixes c :: string
  defines "cms \<equiv> (\<lambda>i. if i = (0 :: nat) then cm_new else cm_start_capture c [StereoImage] cm_new)"
  shows "\<exists>e \<in> set (list_entries cms 0 all_data_types).
    jat e ''activated'' = JBool False \<and> jat e ''subscribers'' = JInt 1"
proof -
  have "subscriber_count (cm_start_capture c [StereoImage] cm_new) StereoImage = 1"
    by (simp add: subscriber_count_def cm_start_capture_def cm_new_def start_one_def state_at_def chan_default_def)
  moreover have "\<not> is_active cm_new StereoImage"
    by (simp add: is_active_def cm_new_def chan_default_def split: option.split)
  moreover obtain ts where ts: "all_data_types = StereoImage # ts" by (simp add: all_data_types_def kTable_def)
  ultimately show ?thesis unfolding ts cms_def by (simp add: jat_jobj)
qed

end
