(* ===== verification/PayloadMemory.thy ===== *)
theory PayloadMemory
  imports Publisher
begin

text \<open>
  The memory of the zero-copy sends of \<open>src/data/DataPublisher.cpp\<close>: every payload message owns a
  heap-allocated copy of the bundle's \<open>shared_ptr\<close> (the hint), which \<open>payload_free\<close> deletes when
  ZeroMQ has no more use for the bytes. Bundles are numbered in the order they are made.
\<close>

section \<open>Reference counts and hints\<close>

text \<open>A hint is in a message still on the stack of \<open>send_frame\<close>, in one ZeroMQ owns, or deleted.\<close>

datatype hint_state = InMessage | WithZmq | Freed

text \<open>
  \<open>pm_refs\<close> are the use counts; a bundle is alive until its count returns to 0. \<open>pm_frames\<close> are the
  frames some \<open>ChannelFramePtr\<close> still refers to, each with its bundles. \<open>pm_fault\<close> records a double
  delete, a count below 0, or the sending of bytes that are gone.
\<close>

record payload_mem =
  pm_refs :: "nat \<Rightarrow> nat"
  pm_alive :: "nat \<Rightarrow> bool"
  pm_frames :: "nat list list"
  pm_hints :: "(nat \<times> hint_state) list"
  pm_made :: nat
  pm_fault :: bool

definition payload_start :: payload_mem where
  "payload_start = \<lparr>pm_refs = (\<lambda>_. 0), pm_alive = (\<lambda>_. False), pm_frames = [], pm_hints = [],
     pm_made = 0, pm_fault = False\<rparr>"

definition add_ref :: "nat \<Rightarrow> payload_mem \<Rightarrow> payload_mem" where
  "add_ref b m = m\<lparr>pm_refs := (pm_refs m)(b := pm_refs m b + 1),
     pm_fault := (pm_fault m \<or> \<not> pm_alive m b)\<rparr>"

definition drop_ref :: "nat \<Rightarrow> payload_mem \<Rightarrow> payload_mem" where
  "drop_ref b m =
     (if pm_refs m b = 0 then m\<lparr>pm_fault := True\<rparr>
      else m\<lparr>pm_refs := (pm_refs m)(b := pm_refs m b - 1),
             pm_alive := (pm_alive m)(b := pm_refs m b \<noteq> 1)\<rparr>)"

definition set_hint :: "nat \<Rightarrow> hint_state \<Rightarrow> payload_mem \<Rightarrow> payload_mem" where
  "set_hint i s m = m\<lparr>pm_hints := (pm_hints m)[i := (fst (pm_hints m ! i), s)]\<rparr>"

text \<open>\<open>delete hint\<close>; deleting it again is a fault.\<close>

definition payload_free :: "nat \<Rightarrow> payload_mem \<Rightarrow> payload_mem" where
  "payload_free i m =
     (if snd (pm_hints m ! i) = Freed then m\<lparr>pm_fault := True\<rparr>
      else drop_ref (fst (pm_hints m ! i)) (set_hint i Freed m))"

section \<open>Sending\<close>

text \<open>
  \<open>send_frame\<close> with \<open>keep\<close>: the results of the allocation, of \<open>zmq_msg_init_data\<close> and of
  \<open>zmq_msg_send\<close> are arguments. \<open>zmq_msg_close\<close> on a message that was not sent calls
  \<open>payload_free\<close> with its hint (documented by \<open>zmq_msg_init_data\<close>).
\<close>

record send_env =
  sn_alloc :: bool
  sn_init :: int
  sn_send :: int

definition send_kept :: "send_env \<Rightarrow> nat \<Rightarrow> payload_mem \<Rightarrow> int \<times> payload_mem" where
  "send_kept E b m =
     (if \<not> sn_alloc E then (- 1, m)
      else
        (let i = length (pm_hints m);
             m1 = (add_ref b m)\<lparr>pm_hints := pm_hints m @ [(b, InMessage)]\<rparr> in
         if sn_init E \<noteq> 0 then (- 1, payload_free i m1)
         else if sn_send E < 0 then (sn_send E, payload_free i m1)
         else (sn_send E, set_hint i WithZmq m1)))"

text \<open>The payload loop of \<open>send_multipart\<close>: it stops at the first failure.\<close>

fun send_payloads :: "(nat \<Rightarrow> send_env) \<Rightarrow> nat list \<Rightarrow> payload_mem \<Rightarrow> bool \<times> payload_mem" where
  "send_payloads Es [] m = (True, m)"
| "send_payloads Es (b # bs) m =
     (let r = send_kept (Es 0) b m
      in if fst r < 0 then (False, snd r) else send_payloads (\<lambda>i. Es (Suc i)) bs (snd r))"

text \<open>A capture round makes a frame of \<open>k\<close> new bundles.\<close>

definition new_frame :: "nat \<Rightarrow> payload_mem \<Rightarrow> payload_mem" where
  "new_frame k m =
     m\<lparr>pm_refs := (\<lambda>b. if b \<in> {pm_made m..<pm_made m + k} then 1 else pm_refs m b),
       pm_alive := (\<lambda>b. b \<in> {pm_made m..<pm_made m + k} \<or> pm_alive m b),
       pm_frames := pm_frames m @ [[pm_made m..<pm_made m + k]],
       pm_made := pm_made m + k\<rparr>"

text \<open>The last reference to a frame goes: by the publisher, a drop of the queue or a flush.\<close>

definition drop_frame :: "nat \<Rightarrow> payload_mem \<Rightarrow> payload_mem" where
  "drop_frame i m =
     fold drop_ref (pm_frames m ! i) (m\<lparr>pm_frames := take i (pm_frames m) @ drop (Suc i) (pm_frames m)\<rparr>)"

text \<open>The steps of the capture thread, the publisher thread and ZeroMQ's I/O threads.\<close>

inductive pay_step :: "payload_mem \<Rightarrow> payload_mem \<Rightarrow> bool" where
  Make: "pay_step m (new_frame k m)"
| Send: "i < length (pm_frames m) \<Longrightarrow> pay_step m (snd (send_payloads Es (pm_frames m ! i) m))"
| Drop: "i < length (pm_frames m) \<Longrightarrow> pay_step m (drop_frame i m)"
| Release: "i < length (pm_hints m) \<Longrightarrow> snd (pm_hints m ! i) = WithZmq \<Longrightarrow> pay_step m (payload_free i m)"

section \<open>Who holds a bundle\<close>

definition live_hints :: "payload_mem \<Rightarrow> nat multiset" where
  "live_hints m = image_mset fst (filter_mset (\<lambda>h. snd h \<noteq> Freed) (mset (pm_hints m)))"

text \<open>\<open>H\<close> are the references held outside of hints.\<close>

definition mem_ok :: "nat multiset \<Rightarrow> payload_mem \<Rightarrow> bool" where
  "mem_ok H m \<longleftrightarrow> \<not> pm_fault m \<and> pm_refs m = count (H + live_hints m) \<and>
     (\<forall>b. pm_alive m b \<longleftrightarrow> 0 < pm_refs m b) \<and> (\<forall>b \<in># H + live_hints m. b < pm_made m)"

definition settled :: "payload_mem \<Rightarrow> bool" where
  "settled m \<longleftrightarrow> (\<forall>h \<in> set (pm_hints m). snd h \<noteq> InMessage)"

lemma mem_okD:
  assumes "mem_ok H m"
  shows "\<not> pm_fault m" "pm_refs m = count (H + live_hints m)" "pm_alive m b \<longleftrightarrow> 0 < pm_refs m b"
    "b \<in># H + live_hints m \<Longrightarrow> b < pm_made m"
  using assms unfolding mem_ok_def by blast+

lemma mem_ok_drop_ref: "mem_ok (add_mset b H) m \<Longrightarrow> mem_ok H (drop_ref b m)"
  by (auto simp: mem_ok_def drop_ref_def live_hints_def fun_eq_iff)

lemma mem_ok_drop_refs: "mem_ok (H + mset bs) m \<Longrightarrow> mem_ok H (fold drop_ref bs m)"
proof (induction bs arbitrary: m)
  case (Cons b bs)
  then show ?case using mem_ok_drop_ref [of b "H + mset bs" m] by simp
qed simp

lemma live_hints_set:
  assumes "i < length (pm_hints m)" "snd (pm_hints m ! i) \<noteq> Freed"
  shows "live_hints m = add_mset (fst (pm_hints m ! i)) (live_hints (set_hint i Freed m))"
    and "s \<noteq> Freed \<Longrightarrow> live_hints (set_hint i s m) = live_hints m"
proof -
  define M where "M = mset (pm_hints m) - {#pm_hints m ! i#}"
  have "mset (pm_hints m) = add_mset (pm_hints m ! i) M" using assms(1) by (simp add: M_def)
  moreover have "mset (pm_hints (set_hint i s m)) = add_mset (fst (pm_hints m ! i), s) M" for s
    using assms(1) by (simp add: set_hint_def mset_update M_def)
  ultimately show "live_hints m = add_mset (fst (pm_hints m ! i)) (live_hints (set_hint i Freed m))"
    and "s \<noteq> Freed \<Longrightarrow> live_hints (set_hint i s m) = live_hints m"
    using assms(2) by (simp_all add: live_hints_def)
qed

lemma set_hint_same [simp]:
  "pm_refs (set_hint i s m) = pm_refs m" "pm_alive (set_hint i s m) = pm_alive m"
  "pm_frames (set_hint i s m) = pm_frames m" "pm_made (set_hint i s m) = pm_made m"
  "pm_fault (set_hint i s m) = pm_fault m" "length (pm_hints (set_hint i s m)) = length (pm_hints m)"
  by (simp_all add: set_hint_def)

lemma drop_ref_same [simp]:
  "pm_hints (drop_ref b m) = pm_hints m" "pm_frames (drop_ref b m) = pm_frames m"
  by (simp_all add: drop_ref_def)

lemma drop_refs_same [simp]:
  "pm_hints (fold drop_ref bs m) = pm_hints m" "pm_frames (fold drop_ref bs m) = pm_frames m"
  by (induction bs arbitrary: m) simp_all

lemma payload_free_ok:
  assumes "mem_ok H m" "i < length (pm_hints m)" "snd (pm_hints m ! i) \<noteq> Freed"
  shows "mem_ok H (payload_free i m)" "pm_frames (payload_free i m) = pm_frames m"
    "pm_hints (payload_free i m) = (pm_hints m)[i := (fst (pm_hints m ! i), Freed)]"
proof -
  have "mem_ok (add_mset (fst (pm_hints m ! i)) H) (set_hint i Freed m)"
    using assms(1) live_hints_set(1) [OF assms(2,3)] by (simp add: mem_ok_def)
  then show "mem_ok H (payload_free i m)"
    using assms(3) by (simp add: payload_free_def mem_ok_drop_ref)
qed (use assms(3) in \<open>simp_all add: payload_free_def set_hint_def\<close>)

lemma settled_update: "settled m \<Longrightarrow> pm_hints m' = (pm_hints m)[i := (b, Freed)] \<Longrightarrow> settled m'"
  by (auto simp: settled_def dest!: set_update_subset_insert [THEN subsetD])

text \<open>A new hint for a bundle someone else holds.\<close>

lemma new_hint_ok:
  assumes "mem_ok H m" "b \<in># H"
  shows "mem_ok H ((add_ref b m)\<lparr>pm_hints := pm_hints m @ [(b, InMessage)]\<rparr>)"
proof -
  have "pm_alive m b" "b < pm_made m"
    using mem_okD [OF assms(1)] assms(2) by (simp_all add: count_greater_zero_iff)
  then show ?thesis
    using assms by (auto simp: mem_ok_def add_ref_def live_hints_def fun_eq_iff)
qed

lemma send_kept_ok:
  assumes "mem_ok H m" "b \<in># H" "settled m" "send_kept E b m = (rc, m')"
  shows "mem_ok H m'" "settled m'" "pm_frames m' = pm_frames m"
proof -
  define m1 where "m1 = (add_ref b m)\<lparr>pm_hints := pm_hints m @ [(b, InMessage)]\<rparr>"
  have m1: "mem_ok H m1" "length (pm_hints m) < length (pm_hints m1)"
    "pm_hints m1 ! length (pm_hints m) = (b, InMessage)" "pm_frames m1 = pm_frames m"
    using new_hint_ok [OF assms(1,2)] by (simp_all add: m1_def add_ref_def)
  let ?i = "length (pm_hints m)"
  have live: "snd (pm_hints m1 ! ?i) \<noteq> Freed" using m1(3) by simp
  have h1: "pm_hints m1 = pm_hints m @ [(b, InMessage)]" by (simp add: m1_def)
  note f = payload_free_ok [OF m1(1,2) live]
  have sf: "settled (payload_free ?i m1)"
    using assms(3) f(3) by (simp add: settled_def h1)
  have w: "mem_ok H (set_hint ?i WithZmq m1)" "settled (set_hint ?i WithZmq m1)"
    using m1(1) live_hints_set(2) [OF m1(2) live, of WithZmq] assms(3)
    by (simp_all add: mem_ok_def settled_def set_hint_def h1)
  have m': "m' = m \<or> m' = payload_free ?i m1 \<or> m' = set_hint ?i WithZmq m1"
    using assms(4) by (auto simp: send_kept_def Let_def m1_def split: if_splits)
  then show "mem_ok H m'" "settled m'" "pm_frames m' = pm_frames m"
    using assms(1,3) f(1,2) sf w m1(4) by auto
qed

lemma send_payloads_ok:
  assumes "mem_ok H m" "settled m" "set bs \<subseteq> set_mset H"
  shows "mem_ok H (snd (send_payloads Es bs m)) \<and> settled (snd (send_payloads Es bs m)) \<and>
    pm_frames (snd (send_payloads Es bs m)) = pm_frames m"
  using assms
proof (induction bs arbitrary: Es m)
  case (Cons b bs)
  obtain rc m' where r: "send_kept (Es 0) b m = (rc, m')" by (cases "send_kept (Es 0) b m")
  have "b \<in># H" using Cons.prems(3) by simp
  note ok = send_kept_ok [OF Cons.prems(1) this Cons.prems(2) r]
  show ?case
    using Cons.IH [OF ok(1,2), of "\<lambda>i. Es (Suc i)"] Cons.prems(3) ok by (simp add: r Let_def)
qed simp

section \<open>Reachable states\<close>

definition pay_ok :: "payload_mem \<Rightarrow> bool" where
  "pay_ok m \<longleftrightarrow> mem_ok (mset (concat (pm_frames m))) m \<and> settled m"

lemma count_upt: "count (mset [a..<b]) x = (if a \<le> x \<and> x < b then 1 else 0)"
  using distinct_count_atmost_1 [of "[a..<b]"] by simp

lemma new_frame_ok:
  assumes "pay_ok m"
  shows "pay_ok (new_frame k m)"
proof -
  define R where "R = mset (concat (pm_frames m)) + live_hints m"
  have ok: "mem_ok (mset (concat (pm_frames m))) m" and s: "settled m"
    using assms by (simp_all add: pay_ok_def)
  note d = mem_okD [OF ok, folded R_def]
  have new: "mset (concat (pm_frames (new_frame k m))) + live_hints (new_frame k m) =
      R + mset [pm_made m..<pm_made m + k]"
    by (simp add: new_frame_def live_hints_def R_def del: mset_upt)
  have same: "pm_made (new_frame k m) = pm_made m + k" "pm_fault (new_frame k m) = pm_fault m"
    by (simp_all add: new_frame_def)
  have old: "count R b = 0" if "pm_made m \<le> b" for b
    using d(4) [of b] that by (meson count_eq_zero_iff not_less)
  have "pm_refs (new_frame k m) = count (R + mset [pm_made m..<pm_made m + k])"
    using old by (auto simp: new_frame_def d(2) count_upt fun_eq_iff)
  moreover have "pm_alive (new_frame k m) b \<longleftrightarrow> 0 < pm_refs (new_frame k m) b" for b
    by (auto simp: new_frame_def d(3))
  moreover have "b < pm_made m + k" if "b \<in># R + mset [pm_made m..<pm_made m + k]" for b
    using that d(4) [of b] by auto
  ultimately have "mem_ok (mset (concat (pm_frames (new_frame k m)))) (new_frame k m)"
    using d(1) unfolding mem_ok_def new same by blast
  moreover have "settled (new_frame k m)" using s by (simp add: settled_def new_frame_def)
  ultimately show ?thesis by (simp add: pay_ok_def)
qed

lemma drop_frame_ok:
  assumes "pay_ok m" "i < length (pm_frames m)"
  shows "pay_ok (drop_frame i m)"
proof -
  let ?fs = "take i (pm_frames m) @ drop (Suc i) (pm_frames m)"
  let ?m = "m\<lparr>pm_frames := ?fs\<rparr>"
  have "mset (concat (pm_frames m)) = mset (concat ?fs) + mset (pm_frames m ! i)"
    by (subst id_take_nth_drop [OF assms(2)]) (simp add: ac_simps)
  moreover have "live_hints ?m = live_hints m" by (simp add: live_hints_def)
  ultimately have "mem_ok (mset (concat ?fs) + mset (pm_frames m ! i)) ?m"
    using assms(1) by (simp add: pay_ok_def mem_ok_def)
  from mem_ok_drop_refs [OF this] show ?thesis
    using assms(1) by (simp add: pay_ok_def drop_frame_def settled_def)
qed

lemma pay_start_ok: "pay_ok payload_start"
  by (simp add: pay_ok_def mem_ok_def settled_def payload_start_def live_hints_def fun_eq_iff)

lemma pay_step_ok: "pay_step m m' \<Longrightarrow> pay_ok m \<Longrightarrow> pay_ok m'"
proof (induction rule: pay_step.induct)
  case (Make m k)
  then show ?case by (rule new_frame_ok)
next
  case (Send i m Es)
  have "set (pm_frames m ! i) \<subseteq> set_mset (mset (concat (pm_frames m)))"
    using Send.hyps nth_mem by fastforce
  from send_payloads_ok [OF _ _ this, of m Es] Send.prems show ?case by (simp add: pay_ok_def)
next
  case (Drop i m)
  from Drop.prems Drop.hyps show ?case by (rule drop_frame_ok)
next
  case (Release i m)
  have "snd (pm_hints m ! i) \<noteq> Freed" using Release.hyps(2) by simp
  then show ?case
    using payload_free_ok [OF _ Release.hyps(1)] Release.prems settled_update
    unfolding pay_ok_def by metis
qed

lemma pay_reachable_ok: "pay_step\<^sup>*\<^sup>* payload_start m \<Longrightarrow> pay_ok m"
  by (induction rule: rtranclp_induct) (auto intro: pay_start_ok pay_step_ok)

lemma live_hints_settled: "settled m \<Longrightarrow> b \<in># live_hints m \<longleftrightarrow> (b, WithZmq) \<in> set (pm_hints m)"
proof -
  assume s: "settled m"
  have "snd h = WithZmq" if "h \<in> set (pm_hints m)" "snd h \<noteq> Freed" for h
    using s that by (cases "snd h") (auto simp: settled_def)
  then show ?thesis by (force simp: live_hints_def image_iff)
qed

text \<open>
  C8. The zero-copy payloads, for every interleaving of capture, sends that fail at any of their
  calls, dropped frames and messages ZeroMQ is done with: no hint is deleted twice, no message is
  made from bytes that are gone, no message is left behind by \<open>send_frame\<close>, and a bundle is alive
  exactly as long as a frame contains it or ZeroMQ owns a message made from it.
\<close>

theorem payloads_released_once:
  assumes "pay_step\<^sup>*\<^sup>* payload_start m"
  shows "\<not> pm_fault m \<and> (\<forall>h \<in> set (pm_hints m). snd h \<noteq> InMessage) \<and>
    (\<forall>b. pm_alive m b \<longleftrightarrow> b \<in> set (concat (pm_frames m)) \<or> (b, WithZmq) \<in> set (pm_hints m))"
proof -
  have ok: "mem_ok (mset (concat (pm_frames m))) m" and s: "settled m"
    using pay_reachable_ok [OF assms] by (simp_all add: pay_ok_def)
  have "pm_alive m b \<longleftrightarrow> b \<in># mset (concat (pm_frames m)) + live_hints m" for b
    using mem_okD(2,3) [OF ok] by (simp only: count_greater_zero_iff)
  then show ?thesis
    using mem_okD(1) [OF ok] s live_hints_settled [OF s] unfolding settled_def by simp
qed

text \<open>A frame of two bundles, of which the first is sent and the second finds its socket full.\<close>

definition second_full :: "nat \<Rightarrow> send_env" where
  "second_full i = \<lparr>sn_alloc = True, sn_init = 0, sn_send = (if i = 0 then 9 else - 1)\<rparr>"

definition after_failed_send :: payload_mem where
  "after_failed_send =
     drop_frame 0 (snd (send_payloads second_full (pm_frames (new_frame 2 payload_start) ! 0)
       (new_frame 2 payload_start)))"

theorem payloads_released_once_witness:
  "pay_step\<^sup>*\<^sup>* payload_start after_failed_send \<and> \<not> pm_fault after_failed_send \<and>
     pm_alive after_failed_send 0 \<and> \<not> pm_alive after_failed_send 1"
proof -
  let ?m = "new_frame 2 payload_start"
  let ?s = "snd (send_payloads second_full (pm_frames ?m ! 0) ?m)"
  have f: "pm_frames ?m = [[0, 1]]" by (simp add: new_frame_def payload_start_def upt_rec)
  have s: "pm_frames ?s = [[0, 1]]" "pm_hints ?s = [(0, WithZmq), (1, Freed)]"
    by (simp_all add: f second_full_def send_kept_def add_ref_def set_hint_def payload_free_def
        drop_ref_def Let_def new_frame_def payload_start_def upt_rec)
  have "pay_step payload_start ?m" by (rule pay_step.Make)
  moreover have "pay_step ?m ?s" by (rule pay_step.Send) (simp add: f)
  moreover have "pay_step ?s after_failed_send"
    unfolding after_failed_send_def by (rule pay_step.Drop) (simp add: s)
  ultimately have r: "pay_step\<^sup>*\<^sup>* payload_start after_failed_send" by simp
  have "pm_frames after_failed_send = []" "pm_hints after_failed_send = [(0, WithZmq), (1, Freed)]"
    by (simp_all add: after_failed_send_def drop_frame_def s)
  with payloads_released_once [OF r] r show ?thesis by simp
qed

end
