(* ===== verification/StopProtocol.thy ===== *)
theory StopProtocol
  imports Prelude
begin

text \<open>
  The contract the worker threads share: an owner clears a flag and joins, and the thread tests the
  flag in a loop whose rounds wait for a bounded time. What follows from it is proved once here.
\<close>

section \<open>Labelled runs\<close>

inductive labelled_run :: "('s \<Rightarrow> 'l \<Rightarrow> 's \<Rightarrow> bool) \<Rightarrow> 's \<Rightarrow> 'l list \<Rightarrow> 's \<Rightarrow> bool" for step where
  Here: "labelled_run step s [] s"
| Step: "step s l t \<Longrightarrow> labelled_run step t ls u \<Longrightarrow> labelled_run step s (l # ls) u"

text \<open>The caller of \<open>stop\<close>: not yet there, in \<open>thread_.join()\<close>, returned.\<close>

datatype stop_pc = StopNotCalled | StopJoining | StopReturned

definition own_steps :: "('l \<Rightarrow> bool) \<Rightarrow> 'l list \<Rightarrow> nat" where
  "own_steps own ls = length (filter own ls)"

definition waited :: "('l \<Rightarrow> int) \<Rightarrow> 'l list \<Rightarrow> int" where
  "waited wait ls = sum_list (map wait ls)"

lemma steps_simps [simp]:
  "own_steps own [] = 0" "own_steps own (l # ls) = (if own l then 1 else 0) + own_steps own ls"
  "waited wait [] = 0" "waited wait (l # ls) = wait l + waited wait ls"
  by (simp_all add: own_steps_def waited_def)

section \<open>The contract\<close>

text \<open>
  \<open>good\<close> is the invariant; \<open>stopping\<close> holds from the clearing of the flag on, \<open>stopped\<close> when the
  owner has returned; \<open>own\<close> are the steps of the thread and its owner, each of which uses up some of
  \<open>left\<close> once the flag is cleared, while the waits use up \<open>wleft\<close>.
\<close>

locale stoppable =
  fixes step :: "'s \<Rightarrow> 'l \<Rightarrow> 's \<Rightarrow> bool" and own :: "'l \<Rightarrow> bool" and wait :: "'l \<Rightarrow> int"
    and good :: "'s \<Rightarrow> bool" and stopping :: "'s \<Rightarrow> bool" and stopped :: "'s \<Rightarrow> bool"
    and left :: "'s \<Rightarrow> nat" and wleft :: "'s \<Rightarrow> int"
  assumes keeps: "good s \<Longrightarrow> step s l t \<Longrightarrow> good t"
    and winds_down: "good s \<Longrightarrow> stopping s \<Longrightarrow> step s l t \<Longrightarrow>
      stopping t \<and> (if own l then 1 else 0) + left t \<le> left s \<and> wait l + wleft t \<le> wleft s"
    and moves: "good s \<Longrightarrow> stopping s \<Longrightarrow> \<not> stopped s \<Longrightarrow> \<exists>l t. own l \<and> step s l t"
begin

lemma run_good: "labelled_run step s ls t \<Longrightarrow> good s \<Longrightarrow> good t"
  by (induction rule: labelled_run.induct) (auto intro: keeps)

lemma run_winds_down:
  "labelled_run step s ls t \<Longrightarrow> good s \<Longrightarrow> stopping s \<Longrightarrow>
     stopping t \<and> own_steps own ls + left t \<le> left s \<and> waited wait ls + wleft t \<le> wleft s"
proof (induction rule: labelled_run.induct)
  case (Step s l t ls u)
  from winds_down [OF Step.prems Step.hyps(1)] Step.IH [OF keeps [OF Step.prems(1) Step.hyps(1)]]
  show ?case by fastforce
qed simp

lemma run_ends:
  "good s \<Longrightarrow> stopping s \<Longrightarrow> \<exists>ls t. labelled_run step s ls t \<and> stopped t"
proof (induction "left s" arbitrary: s rule: less_induct)
  case less
  show ?case
  proof (cases "stopped s")
    case True
    then have "labelled_run step s [] s \<and> stopped s" by (simp add: labelled_run.Here)
    then show ?thesis by blast
  next
    case False
    obtain l t where s: "own l" "step s l t" using moves [OF less.prems False] by blast
    then have "left t < left s" "stopping t" using winds_down [OF less.prems s(2)] by auto
    from less.hyps [OF this(1) keeps [OF less.prems(1) s(2)] this(2)]
    obtain ls u where "labelled_run step t ls u" "stopped u" by blast
    with s(2) have "labelled_run step s (l # ls) u" "stopped u" by (auto intro: labelled_run.Step)
    then show ?thesis by blast
  qed
qed

text \<open>Everything a caller of \<open>stop\<close> can rely on.\<close>

lemma stop_bounded:
  assumes "good s" "labelled_run step s before u" "stopping u" "labelled_run step u ls t"
  shows "good t \<and> stopping t \<and> own_steps own ls + left t \<le> left u \<and>
    waited wait ls + wleft t \<le> wleft u \<and>
    (stopped t \<or> (\<exists>l v. own l \<and> step t l v)) \<and> (\<exists>ls' v. labelled_run step t ls' v \<and> stopped v)"
proof -
  have u: "good u" by (rule run_good [OF assms(2,1)])
  have t: "good t" by (rule run_good [OF assms(4) u])
  note w = run_winds_down [OF assms(4) u assms(3)]
  then show ?thesis using t moves [OF t] run_ends [OF t] by blast
qed

end

end
