(* ===== verification/CaptureThread.thy ===== *)
theory CaptureThread
  imports Capture StopProtocol
begin

text \<open>
  The capture thread of \<open>src/capture/CaptureEngine.cpp\<close> against the thread that stops it: the loop
  \<open>run\<close> as a step relation, the pacer it waits on, and which parameters its rounds depend on.
\<close>

section \<open>The pacer\<close>

text \<open>\<open>CapturePacer\<close> is its flag.\<close>

definition pacer_wake :: "bool \<Rightarrow> bool" where
  "pacer_wake stop = True"

definition pacer_reset :: "bool \<Rightarrow> bool" where
  "pacer_reset stop = False"

text \<open>
  How long \<open>sleep_for d\<close> waits, in milliseconds: not at all with the flag set, else until the first
  call of \<open>wake\<close> (\<open>None\<close> if nobody calls it in time) or the timeout. Being woken with the flag
  clear does not end the wait, which is what the predicate is for.
\<close>

definition pacer_sleep_for :: "int \<Rightarrow> int option \<Rightarrow> bool \<Rightarrow> int" where
  "pacer_sleep_for d first_wake stop =
     (if stop then 0 else (case first_wake of None \<Rightarrow> d | Some t \<Rightarrow> min t d))"

text \<open>
  The pacer is a local variable of \<open>run\<close>: no other function can call its \<open>wake\<close>, and \<open>run\<close> does
  not.
\<close>

definition paced :: "int \<Rightarrow> int" where
  "paced remaining = pacer_sleep_for remaining None (pacer_reset False)"

lemma paced_all [simp]: "paced d = d"
  by (simp add: paced_def pacer_sleep_for_def pacer_reset_def)

section \<open>The loop as steps\<close>

datatype cap_pc = CapCheck | CapTick | CapSleep int | CapDone | CapThrown

record cap_sys =
  cs_engine :: engine
  cs_pc :: cap_pc
  cs_stop :: stop_pc

definition cap_started :: "engine \<Rightarrow> cap_sys" where
  "cap_started ce = \<lparr>cs_engine = snd (engine_start ce), cs_pc = CapCheck, cs_stop = StopNotCalled\<rparr>"

datatype cap_label = LLoad | LRound | LSlept int | LStop | LJoin | LOthers

text \<open>
  \<open>Others\<close> is what the publisher does to the queues and the commands to the source between two
  steps of the thread; it leaves the flag alone and the source in good shape.
\<close>

inductive cap_step :: "gen_env \<Rightarrow> cap_sys \<Rightarrow> cap_label \<Rightarrow> cap_sys \<Rightarrow> bool" for G where
  Enter: "cs_pc c = CapCheck \<Longrightarrow> ce_running (cs_engine c) \<Longrightarrow>
    cap_step G c LLoad (c\<lparr>cs_pc := CapTick\<rparr>)"
| Leave: "cs_pc c = CapCheck \<Longrightarrow> \<not> ce_running (cs_engine c) \<Longrightarrow>
    cap_step G c LLoad (c\<lparr>cs_pc := CapDone\<rparr>)"
| Round: "cs_pc c = CapTick \<Longrightarrow> 0 \<le> te_elapsed_ms E \<Longrightarrow> tick G E (cs_engine c) = Inr (ce', ms) \<Longrightarrow>
    cap_step G c LRound (c\<lparr>cs_engine := ce', cs_pc := (if 0 < ms then CapSleep ms else CapCheck)\<rparr>)"
| Throw: "cs_pc c = CapTick \<Longrightarrow> tick G E (cs_engine c) = Inl e \<Longrightarrow>
    cap_step G c LRound (c\<lparr>cs_pc := CapThrown\<rparr>)"
| Slept: "cs_pc c = CapSleep ms \<Longrightarrow> cap_step G c (LSlept (paced ms)) (c\<lparr>cs_pc := CapCheck\<rparr>)"
| Stop: "cs_stop c = StopNotCalled \<Longrightarrow>
    cap_step G c LStop (c\<lparr>cs_engine := engine_stop (cs_engine c),
      cs_stop := (if ce_running (cs_engine c) then StopJoining else StopReturned)\<rparr>)"
| Join: "cs_stop c = StopJoining \<Longrightarrow> cs_pc c = CapDone \<Longrightarrow>
    cap_step G c LJoin (c\<lparr>cs_stop := StopReturned\<rparr>)"
| Others: "ce_running ce' = ce_running (cs_engine c) \<Longrightarrow> good_source (ce_source ce') \<Longrightarrow>
    cap_step G c LOthers (c\<lparr>cs_engine := ce'\<rparr>)"

definition thread_or_stop :: "cap_label \<Rightarrow> bool" where
  "thread_or_stop l \<longleftrightarrow> l \<noteq> LOthers"

fun slept :: "cap_label \<Rightarrow> int" where
  "slept (LSlept d) = d"
| "slept _ = 0"

section \<open>Stopping\<close>

lemma pace_bound: "0 \<le> t \<Longrightarrow> pace_ms pm t \<le> 1000"
  using period_bounds [of pm] by (simp add: pace_ms_def Let_def)

lemma tick_pace: "tick G E ce = Inr (ce', ms) \<Longrightarrow> ms = pace_ms (te_fps_params E) (te_elapsed_ms E)"
  by (auto simp: tick_def rbind_eq_Inr)

text \<open>
  The invariant of the thread: the source stays good, nothing is thrown, a wait is at most a second,
  and the flag is set exactly until \<open>stop\<close> clears it.
\<close>

fun sleep_left :: "cap_pc \<Rightarrow> int" where
  "sleep_left (CapSleep ms) = ms"
| "sleep_left _ = 0"

definition cap_ok :: "cap_sys \<Rightarrow> bool" where
  "cap_ok c \<longleftrightarrow> good_source (ce_source (cs_engine c)) \<and> cs_pc c \<noteq> CapThrown \<and>
     0 \<le> sleep_left (cs_pc c) \<and> sleep_left (cs_pc c) \<le> 1000 \<and>
     (ce_running (cs_engine c) \<longleftrightarrow> cs_stop c = StopNotCalled) \<and>
     (cs_stop c = StopReturned \<longrightarrow> cs_pc c = CapDone)"

lemma tick_group_running: "tick_group G E g ce = Inr ce' \<Longrightarrow> ce_running ce' = ce_running ce"
  by (auto simp: tick_group_def rbind_eq_Inr split: if_splits prod.splits)

lemma tick_running: "tick G E ce = Inr (ce', ms) \<Longrightarrow> ce_running ce' = ce_running ce"
  by (auto simp: tick_def rbind_eq_Inr dest!: tick_group_running)

lemma tick_keeps:
  assumes "tick G E ce = Inr (ce', ms)" "good_source (ce_source ce)"
  shows "good_source (ce_source ce')" "ce_running ce' = ce_running ce"
  using tick_spec [OF assms(1)] good_source_same [OF assms(2)] tick_running [OF assms(1)] by blast+

lemma cap_step_ok:
  assumes "json_dump_ok (ge_json G)" "cap_step G c l c'" "cap_ok c"
  shows "cap_ok c'"
  using assms(2,3)
proof cases
  case (Round E ce' ms)
  have "good_source (ce_source (cs_engine c))" using assms(3) by (simp add: cap_ok_def)
  note k = tick_keeps [OF Round(5) this]
  show ?thesis
    using assms(3) k Round pace_bound [of "te_elapsed_ms E" "te_fps_params E"] tick_pace [OF Round(5)]
    by (auto simp: cap_ok_def)
next
  case (Throw E e)
  have "good_source (ce_source (cs_engine c))" using assms(3) by (simp add: cap_ok_def)
  then show ?thesis using tick_total [OF _ assms(1), of "cs_engine c" E] Throw by auto
qed (auto simp: cap_ok_def engine_stop_def)

text \<open>Once the flag is cleared: how many steps and how much waiting are left.\<close>

fun steps_left :: "cap_pc \<Rightarrow> nat" where
  "steps_left CapTick = 4"
| "steps_left (CapSleep _) = 3"
| "steps_left CapCheck = 2"
| "steps_left CapDone = 1"
| "steps_left CapThrown = 0"

definition stop_left :: "cap_sys \<Rightarrow> nat" where
  "stop_left c = (if cs_stop c = StopReturned then 0 else steps_left (cs_pc c))"

definition wait_left :: "cap_sys \<Rightarrow> int" where
  "wait_left c = (if cs_pc c = CapTick then 1000 else sleep_left (cs_pc c))"

lemma stopping_step:
  assumes "json_dump_ok (ge_json G)" "cap_step G c l c'" "cap_ok c" "cs_stop c \<noteq> StopNotCalled"
  shows "cs_stop c' \<noteq> StopNotCalled \<and> (if thread_or_stop l then 1 else 0) + stop_left c' \<le> stop_left c \<and>
    slept l + wait_left c' \<le> wait_left c"
  using assms(2)
proof cases
  case (Round E ce' ms)
  then show ?thesis
    using assms(3,4) pace_bound [of "te_elapsed_ms E" "te_fps_params E"] tick_pace [OF Round(5)]
    by (auto simp: thread_or_stop_def stop_left_def wait_left_def cap_ok_def)
next
  case (Throw E e)
  have "good_source (ce_source (cs_engine c))" using assms(3) by (simp add: cap_ok_def)
  then show ?thesis using tick_total [OF _ assms(1), of "cs_engine c" E] Throw by auto
qed (use assms(3,4) in \<open>auto simp: thread_or_stop_def stop_left_def wait_left_def cap_ok_def\<close>)

lemma stopping_moves:
  assumes "json_dump_ok (ge_json G)" "cap_ok c" "cs_stop c = StopJoining"
  shows "\<exists>l c'. thread_or_stop l \<and> cap_step G c l c'"
proof -
  have src: "good_source (ce_source (cs_engine c))" using assms(2) by (simp add: cap_ok_def)
  obtain ce' ms where t: "tick G demo_tick (cs_engine c) = Inr (ce', ms)"
    using tick_total [OF src assms(1)] by blast
  have e: "0 \<le> te_elapsed_ms demo_tick" by (simp add: demo_tick_def)
  have "\<exists>l c'. l \<noteq> LOthers \<and> cap_step G c l c'"
  proof (cases "cs_pc c")
    case CapTick
    then show ?thesis using cap_step.Round [OF CapTick e t] by blast
  qed (use assms in \<open>auto simp: cap_ok_def dest: cap_step.intros\<close>)
  then show ?thesis by (simp add: thread_or_stop_def)
qed

definition cap_good :: "gen_env \<Rightarrow> cap_sys \<Rightarrow> bool" where
  "cap_good G c \<longleftrightarrow> json_dump_ok (ge_json G) \<and> cap_ok c"

interpretation capture: stoppable "cap_step G" thread_or_stop slept "cap_good G"
  "\<lambda>c. cs_stop c \<noteq> StopNotCalled" "\<lambda>c. cs_stop c = StopReturned" stop_left wait_left for G
proof (unfold_locales, goal_cases)
  case (1 c l c')
  then show ?case by (auto simp: cap_good_def intro: cap_step_ok)
next
  case (2 c l c')
  then show ?case using stopping_step [of G c l c'] by (simp add: cap_good_def)
next
  case (3 c)
  then have "cs_stop c = StopJoining" by (cases "cs_stop c") simp_all
  with 3 show ?case using stopping_moves [of G c] by (simp add: cap_good_def)
qed

lemma cap_started_ok: "good_source (ce_source ce) \<Longrightarrow> \<not> ce_running ce \<Longrightarrow> cap_ok (cap_started ce)"
  by (simp add: cap_ok_def cap_started_def engine_start_def good_source_def)



section \<open>The parameters a round depends on\<close>

text \<open>A sequence of writes, as \<open>set_parameter\<close> and the settings file make them.\<close>

definition after_writes :: "(string \<times> param_value) list \<Rightarrow> params \<Rightarrow> params" where
  "after_writes kvs pm = fold (\<lambda>kv m. snd (snd (set_value (fst kv) (snd kv) [] m))) kvs pm"

lemma set_value_other: "k \<noteq> name \<Longrightarrow> snd (snd (set_value name v err m)) k = m k"
  by (auto simp: set_value_cases split: option.splits)

lemma after_writes_other: "\<forall>kv \<in> set kvs. fst kv \<noteq> k \<Longrightarrow> after_writes kvs pm k = pm k"
proof (induction kvs arbitrary: pm)
  case (Cons kv kvs)
  have "after_writes (kv # kvs) pm = after_writes kvs (snd (snd (set_value (fst kv) (snd kv) [] pm)))"
    by (simp add: after_writes_def)
  then show ?case using Cons set_value_other [of k "fst kv"] by auto
qed (simp add: after_writes_def)

definition written_env :: "(string \<times> param_value) list \<Rightarrow> tick_env \<Rightarrow> tick_env" where
  "written_env kvs E = E\<lparr>te_build_params := (\<lambda>g. after_writes kvs (te_build_params E g)),
     te_fps_params := after_writes kvs (te_fps_params E)\<rparr>"

text \<open>
  C35. The capture thread reads two parameters only. Whatever values are written to any others,
  among them the publish rates \<open>target_fps_2d\<close>, \<open>target_fps_3d\<close> and \<open>target_fps_sensor\<close> and the
  image parameters, every round captures, pushes and waits exactly as if they had not been written.
\<close>

theorem capture_ignores_parameters:
  assumes "\<forall>kv \<in> set kvs. fst kv \<noteq> ''fps'' \<and> fst kv \<noteq> ''depth_mode''"
  shows "tick G (written_env kvs E) ce = tick G E ce"
proof -
  have o: "after_writes kvs pm ''fps'' = pm ''fps''"
    "after_writes kvs pm ''depth_mode'' = pm ''depth_mode''" for pm
    using assms by (simp_all add: after_writes_other)
  have d: "depth_mode_of (after_writes kvs pm) = depth_mode_of pm" for pm
    by (simp add: depth_mode_of_def param_get_def o)
  have f: "frame_rate (after_writes kvs pm) = frame_rate pm" for pm
    by (simp add: frame_rate_def param_get_def o)
  have "tick_group G (written_env kvs E) g c = tick_group G E g c" for g c
    by (simp add: tick_group_def build_frame_def written_env_def d)
  moreover have "pace_ms (te_fps_params (written_env kvs E)) t = pace_ms (te_fps_params E) t" for t
    by (simp add: pace_ms_def written_env_def f)
  ultimately show ?thesis by (simp add: tick_def) (simp add: written_env_def)
qed

definition sensor_rate :: parameter where
  "sensor_rate = \<lparr>p_name = ''target_fps_sensor'', p_value = Integer 200, p_min = Integer 0,
     p_max = Integer 1000, p_default_value = Integer 200, p_is_readonly = False, p_is_available = True,
     p_needs_reopen = False, p_enum_options = []\<rparr>"

definition rated_tick :: tick_env where
  "rated_tick = demo_tick\<lparr>te_fps_params := [''target_fps_sensor'' \<mapsto> sensor_rate]\<rparr>"

theorem capture_ignores_parameters_witness:
  "te_fps_params (written_env [(''target_fps_sensor'', Integer 1)] rated_tick) ''target_fps_sensor'' =
     Some (sensor_rate\<lparr>p_value := Integer 1\<rparr>) \<and>
   tick demo_gen (written_env [(''target_fps_sensor'', Integer 1)] rated_tick) demo_engine =
     tick demo_gen rated_tick demo_engine"
proof
  show "te_fps_params (written_env [(''target_fps_sensor'', Integer 1)] rated_tick)
      ''target_fps_sensor'' = Some (sensor_rate\<lparr>p_value := Integer 1\<rparr>)"
    by (simp add: written_env_def after_writes_def rated_tick_def set_value_def sensor_rate_def same_type_def)
  show "tick demo_gen (written_env [(''target_fps_sensor'', Integer 1)] rated_tick) demo_engine =
      tick demo_gen rated_tick demo_engine"
    by (rule capture_ignores_parameters) simp
qed

end
