(* ===== verification/PublisherThread.thy ===== *)
theory PublisherThread
  imports Publisher StopProtocol
begin

text \<open>
  The publishing thread of \<open>src/data/DataPublisher.cpp\<close> against the thread that stops it: the loop
  \<open>run\<close> as a step relation, with the other threads pushing, flushing and broadcasting in between.
\<close>

section \<open>The loop as steps\<close>

datatype pub_pc = PubCheck | PubPop | PubSend "frame_ptr list" | PubDone | PubThrown exn

text \<open>\<open>ps_pushed\<close> bounds the number of pushes so far, which must not reach the wrap of the counters.\<close>

record 'z pub_sys =
  ps_dp :: data_pipeline
  ps_pub :: "'z publisher"
  ps_pc :: pub_pc
  ps_stop :: stop_pc
  ps_pushed :: nat

definition pub_started :: "nat \<Rightarrow> data_pipeline \<Rightarrow> 'z publisher \<Rightarrow> 'z pub_sys" where
  "pub_started n dp pb =
     \<lparr>ps_dp = dp, ps_pub = pb, ps_pc = PubCheck, ps_stop = StopNotCalled, ps_pushed = n\<rparr>"

datatype pub_label = PLoad | PPopped int | PSent | PStop | PJoin | POthers

text \<open>
  \<open>Pop\<close>: \<open>pop_all(frames, 10)\<close> waits for \<open>w\<close> milliseconds, at most the time-out, during which the
  engine makes the pushes \<open>arrivals\<close>. \<open>Others\<close> is what the engine and the commands do to the queues
  and the main thread to the sockets; none of them touches the flag or a capacity.
\<close>

inductive pub_step :: "'z zmq_lib \<Rightarrow> json_lib \<Rightarrow> 'z pub_sys \<Rightarrow> pub_label \<Rightarrow> 'z pub_sys \<Rightarrow> bool" for Z L where
  Enter: "ps_pc s = PubCheck \<Longrightarrow> pb_running (ps_pub s) \<Longrightarrow> pub_step Z L s PLoad (s\<lparr>ps_pc := PubPop\<rparr>)"
| Leave: "ps_pc s = PubCheck \<Longrightarrow> \<not> pb_running (ps_pub s) \<Longrightarrow>
    pub_step Z L s PLoad (s\<lparr>ps_pc := PubDone\<rparr>)"
| Pop: "ps_pc s = PubPop \<Longrightarrow> 0 \<le> w \<Longrightarrow> w \<le> 10 \<Longrightarrow> ps_pushed s + length arrivals \<le> 2 ^ 64 \<Longrightarrow>
    pop_all arrivals (ps_dp s) = (frames, got, dp') \<Longrightarrow>
    pub_step Z L s (PPopped w) (s\<lparr>ps_dp := dp', ps_pushed := ps_pushed s + length arrivals,
      ps_pc := (if got then PubSend frames else PubCheck)\<rparr>)"
| SendNull: "ps_pc s = PubSend (None # fs) \<Longrightarrow> pub_step Z L s PSent (s\<lparr>ps_pc := PubSend fs\<rparr>)"
| SendFrame: "ps_pc s = PubSend (Some f # fs) \<Longrightarrow> send_group Z L c1 c2 f (ps_pub s) = Inr pb \<Longrightarrow>
    pub_step Z L s PSent (s\<lparr>ps_pub := pb, ps_pc := PubSend fs\<rparr>)"
| SendThrows: "ps_pc s = PubSend (Some f # fs) \<Longrightarrow> send_group Z L c1 c2 f (ps_pub s) = Inl e \<Longrightarrow>
    pub_step Z L s PSent (s\<lparr>ps_pc := PubThrown e\<rparr>)"
| SentAll: "ps_pc s = PubSend [] \<Longrightarrow> pub_step Z L s PSent (s\<lparr>ps_pc := PubCheck\<rparr>)"
| Stop: "ps_stop s = StopNotCalled \<Longrightarrow>
    pub_step Z L s PStop (s\<lparr>ps_pub := publisher_stop (ps_pub s),
      ps_stop := (if pb_running (ps_pub s) then StopJoining else StopReturned)\<rparr>)"
| Join: "ps_stop s = StopJoining \<Longrightarrow> ps_pc s = PubDone \<Longrightarrow>
    pub_step Z L s PJoin (s\<lparr>ps_stop := StopReturned\<rparr>)"
| Others: "pb_running pb = pb_running (ps_pub s) \<Longrightarrow> dp_at n dp \<Longrightarrow> ps_pushed s \<le> n \<Longrightarrow> n \<le> 2 ^ 64 \<Longrightarrow>
    dp_caps dp = dp_caps (ps_dp s) \<Longrightarrow>
    pub_step Z L s POthers (s\<lparr>ps_dp := dp, ps_pub := pb, ps_pushed := n\<rparr>)"

definition of_publisher :: "pub_label \<Rightarrow> bool" where
  "of_publisher l \<longleftrightarrow> l \<noteq> POthers"

fun popped_ms :: "pub_label \<Rightarrow> int" where
  "popped_ms (PPopped w) = w"
| "popped_ms _ = 0"

section \<open>How many frames a round can pop\<close>

definition total_cap :: "data_pipeline \<Rightarrow> nat" where
  "total_cap dp = dp_caps dp Visual2D + dp_caps dp Visual3D + dp_caps dp SensorData"

lemma items_in_cap: "dp_at n dp \<Longrightarrow> length (dp_items dp g) \<le> dp_caps dp g"
  using dp_at_invar [of n dp g] by (simp add: dp_items_def dp_caps_def q_invar_def)

lemma pushes_at:
  "dp_at n dp \<Longrightarrow> n + length ps \<le> 2 ^ 64 \<Longrightarrow>
     dp_at (n + length ps) (fold (\<lambda>gf d. snd (dp_push (fst gf) (snd gf) d)) ps dp)"
proof (induction ps arbitrary: n dp)
  case (Cons p ps)
  have "dp_at (Suc n) (snd (dp_push (fst p) (snd p) dp))"
    using dp_push_spec(3) [OF Cons.prems(1), where g = "fst p" and f = "snd p"] Cons.prems(2) by simp
  from Cons.IH [OF this] Cons.prems(2) show ?case by simp
qed simp

lemma pop_queues_length:
  assumes "dp_at n dp"
  shows "length (fst (pop_queues dp)) \<le> total_cap dp"
  using items_in_cap [OF assms, of Visual2D] items_in_cap [OF assms, of Visual3D]
    items_in_cap [OF assms, of SensorData]
  by (simp add: pop_queues_spec(1) [OF assms] total_cap_def)

lemma dp_at_later: "dp_at n dp \<Longrightarrow> n \<le> m \<Longrightarrow> dp_at m dp"
  by (auto simp: dp_at_def q_at_def)

lemma pop_all_bounded:
  assumes "dp_at n dp" "n + length arrivals \<le> 2 ^ 64" "pop_all arrivals dp = (frames, got, dp')"
  shows "dp_at (n + length arrivals) dp'" "dp_caps dp' = dp_caps dp" "length frames \<le> total_cap dp"
proof -
  let ?d = "snd (pop_queues dp)"
  let ?e = "fold (\<lambda>gf d. snd (dp_push (fst gf) (snd gf) d)) arrivals ?d"
  have at: "dp_at n ?d" by (rule pop_queues_spec(3) [OF assms(1)])
  have e: "dp_at (n + length arrivals) (?e\<lparr>dp_notified := False\<rparr>)" using pushes_at [OF at assms(2)] by simp
  have c: "total_cap (?e\<lparr>dp_notified := False\<rparr>) = total_cap dp" by (simp add: total_cap_def)
  show "dp_at (n + length arrivals) dp'"
    using assms(3) dp_at_later [OF at] pop_queues_spec(3) [OF e]
    by (auto simp: pop_all_def Let_def split: if_splits)
  show "dp_caps dp' = dp_caps dp"
    using assms(3) by (auto simp: pop_all_def Let_def split: if_splits)
  show "length frames \<le> total_cap dp"
    using assms(3) pop_queues_length [OF assms(1)] pop_queues_length [OF e] c
    by (auto simp: pop_all_def Let_def split: if_splits)
qed

section \<open>Stopping\<close>

lemma send_group_running:
  assumes "send_group Z L c1 c2 f pb = Inr pb'"
  shows "pb_running pb' = pb_running pb"
proof (cases "pb_sock pb (cf_group f)")
  case None
  then show ?thesis using assms by (simp add: send_group_def)
next
  case (Some sock)
  then obtain ok where "send_multipart Z L c1 c2 sock f pb = Inr (ok, pb')"
    using assms by (auto simp: send_group_def rbind_eq_Inr)
  from send_multipart_spec [OF this] show ?thesis
    by (cases ok) (auto simp: same_counts_def count_sent_def count_drop_def)
qed

lemma send_group_throws:
  assumes "send_group Z L c1 c2 f pb = Inl e"
  shows "\<exists>j. jl_dump L j = Inl e"
proof -
  obtain sock where "send_multipart Z L c1 c2 sock f pb = Inl e"
    using assms by (cases "pb_sock pb (cf_group f)") (auto simp: send_group_def rbind_eq_Inl)
  then show ?thesis
    by (cases "jl_dump L (header_json (pb_pub_id pb) c1 c2 f)")
      (auto simp: send_multipart_parts Let_def)
qed

text \<open>The invariant; \<open>C\<close> is the sum of the capacities of the three queues.\<close>

definition pub_ok :: "json_lib \<Rightarrow> nat \<Rightarrow> 'z pub_sys \<Rightarrow> bool" where
  "pub_ok L C s \<longleftrightarrow> dp_at (ps_pushed s) (ps_dp s) \<and> ps_pushed s \<le> 2 ^ 64 \<and> total_cap (ps_dp s) = C \<and>
     (pb_running (ps_pub s) \<longleftrightarrow> ps_stop s = StopNotCalled) \<and>
     (ps_stop s = StopReturned \<longrightarrow> ps_pc s = PubDone) \<and>
     (\<forall>fs. ps_pc s = PubSend fs \<longrightarrow> length fs \<le> C) \<and>
     (\<forall>e. ps_pc s = PubThrown e \<longrightarrow> (\<exists>j. jl_dump L j = Inl e))"

lemma pub_step_ok:
  assumes "pub_step Z L s l s'" "pub_ok L C s"
  shows "pub_ok L C s'"
  using assms(1)
proof cases
  case (Pop w arrivals frames got dp')
  have "dp_at (ps_pushed s) (ps_dp s)" using assms(2) by (simp add: pub_ok_def)
  note b = pop_all_bounded [OF this Pop(6,7)]
  then have "total_cap dp' = total_cap (ps_dp s)" by (simp add: total_cap_def)
  with b assms(2) Pop show ?thesis by (auto simp: pub_ok_def)
next
  case (SendFrame f fs c1 c2 pb)
  then show ?thesis using assms(2) send_group_running [OF SendFrame(4)] by (auto simp: pub_ok_def)
next
  case (SendThrows f fs c1 c2 e)
  then show ?thesis using assms(2) send_group_throws [OF SendThrows(4)] by (auto simp: pub_ok_def)
next
  case (Others pb n dp)
  then have "total_cap dp = total_cap (ps_dp s)" by (simp add: total_cap_def)
  with Others assms(2) show ?thesis by (auto simp: pub_ok_def)
qed (use assms(2) in \<open>auto simp: pub_ok_def publisher_stop_def\<close>)

fun pub_steps_left :: "nat \<Rightarrow> pub_pc \<Rightarrow> nat" where
  "pub_steps_left C PubPop = C + 4"
| "pub_steps_left C (PubSend fs) = length fs + 3"
| "pub_steps_left C PubCheck = 2"
| "pub_steps_left C PubDone = 1"
| "pub_steps_left C (PubThrown e) = 0"

definition pub_stop_left :: "nat \<Rightarrow> 'z pub_sys \<Rightarrow> nat" where
  "pub_stop_left C s = (if ps_stop s = StopReturned then 0 else pub_steps_left C (ps_pc s))"

definition pub_wait_left :: "'z pub_sys \<Rightarrow> int" where
  "pub_wait_left s = (if ps_pc s = PubPop then 10 else 0)"

definition pub_over :: "'z pub_sys \<Rightarrow> bool" where
  "pub_over s \<longleftrightarrow> ps_stop s = StopReturned \<or> (\<exists>e. ps_pc s = PubThrown e)"

lemma pub_winds_down:
  assumes "pub_step Z L s l s'" "pub_ok L C s" "ps_stop s \<noteq> StopNotCalled"
  shows "ps_stop s' \<noteq> StopNotCalled \<and> (if of_publisher l then 1 else 0) + pub_stop_left C s' \<le> pub_stop_left C s \<and>
    popped_ms l + pub_wait_left s' \<le> pub_wait_left s"
  using assms(1)
proof cases
  case (Pop w arrivals frames got dp')
  have "dp_at (ps_pushed s) (ps_dp s)" "total_cap (ps_dp s) = C" using assms(2) by (simp_all add: pub_ok_def)
  with pop_all_bounded(3) [OF this(1) Pop(6,7)] Pop assms(2,3) show ?thesis
    by (auto simp: of_publisher_def pub_stop_left_def pub_wait_left_def pub_ok_def)
qed (use assms(2,3) in \<open>auto simp: of_publisher_def pub_stop_left_def pub_wait_left_def pub_ok_def\<close>)

lemma pub_moves:
  assumes "pub_ok L C s" "ps_stop s \<noteq> StopNotCalled" "\<not> pub_over s"
  shows "\<exists>l s'. of_publisher l \<and> pub_step Z L s l s'"
proof -
  have j: "ps_stop s = StopJoining" using assms(2,3) by (cases "ps_stop s") (auto simp: pub_over_def)
  have off: "\<not> pb_running (ps_pub s)" using assms(1) j by (simp add: pub_ok_def)
  have "\<exists>l s'. l \<noteq> POthers \<and> pub_step Z L s l s'"
  proof (cases "ps_pc s")
    case PubCheck
    then show ?thesis using pub_step.Leave [OF PubCheck off] by blast
  next
    case PubPop
    obtain frames got dp' where p: "pop_all [] (ps_dp s) = (frames, got, dp')"
      by (cases "pop_all [] (ps_dp s)")
    have "ps_pushed s + length [] \<le> 2 ^ 64" using assms(1) by (simp add: pub_ok_def)
    from pub_step.Pop [OF PubPop, of 0 "[]", OF _ _ this p] show ?thesis by auto
  next
    case (PubSend fs)
    show ?thesis
    proof (cases fs)
      case Nil
      then show ?thesis using pub_step.SentAll PubSend by blast
    next
      case (Cons p fs')
      show ?thesis
      proof (cases p)
        case None
        then show ?thesis using pub_step.SendNull PubSend Cons by blast
      next
        case (Some f)
        then show ?thesis
          using pub_step.SendFrame pub_step.SendThrows PubSend Cons
          by (cases "send_group Z L 0 0 f (ps_pub s)") blast+
      qed
    qed
  next
    case PubDone
    then show ?thesis using pub_step.Join [OF j PubDone] by blast
  qed (use assms(3) in \<open>simp add: pub_over_def\<close>)
  then show ?thesis by (simp add: of_publisher_def)
qed

interpretation publishing: stoppable "pub_step Z L" of_publisher popped_ms "pub_ok L C"
  "\<lambda>s. ps_stop s \<noteq> StopNotCalled" pub_over "pub_stop_left C" pub_wait_left for Z L C
proof (unfold_locales, goal_cases)
  case (1 s l s')
  then show ?case by (blast intro: pub_step_ok)
next
  case (2 s l s')
  then show ?case using pub_winds_down by blast
next
  case (3 s)
  then show ?case by (rule pub_moves)
qed

text \<open>
  C25. \<open>DataPublisher::stop\<close> returns. Whenever it is called, from then on the publishing thread pops
  at most once more, waiting at most 10 ms, and sends what it popped: the two threads make at most
  four steps more than the queues can hold frames. As long as \<open>stop\<close> has not returned some step is
  possible, and from every state there is a run in which it returns, unless printing a header throws,
  which terminates the process.
\<close>

theorem publisher_stop_returns:
  assumes "dp_at n dp" "n \<le> 2 ^ 64" "pb_running pb"
    and "labelled_run (pub_step Z L) (pub_started n dp pb) before s" "ps_stop s = StopJoining"
    and "labelled_run (pub_step Z L) s ls s'"
  shows "own_steps of_publisher ls \<le> total_cap dp + 4 \<and> waited popped_ms ls \<le> 10 \<and>
    (ps_stop s' = StopReturned \<or> (\<exists>e. ps_pc s' = PubThrown e) \<or>
       (\<exists>l s''. of_publisher l \<and> pub_step Z L s' l s'')) \<and>
    (\<exists>ls' s''. labelled_run (pub_step Z L) s' ls' s'' \<and>
       (ps_stop s'' = StopReturned \<or> (\<exists>e. ps_pc s'' = PubThrown e \<and> (\<exists>j. jl_dump L j = Inl e))))"
proof -
  let ?C = "total_cap dp"
  have start: "pub_ok L ?C (pub_started n dp pb)"
    using assms(1-3) by (simp add: pub_ok_def pub_started_def)
  have st: "ps_stop s \<noteq> StopNotCalled" using assms(5) by simp
  note b = publishing.stop_bounded [OF start assms(4) st assms(6)]
  have ok: "pub_ok L ?C s" by (rule publishing.run_good [OF assms(4) start])
  have "pub_stop_left ?C s \<le> ?C + 4"
    using ok by (cases "ps_pc s") (auto simp: pub_stop_left_def pub_ok_def)
  moreover have "pub_wait_left s \<le> 10" "0 \<le> pub_wait_left s'" by (simp_all add: pub_wait_left_def)
  ultimately have w: "own_steps of_publisher ls \<le> ?C + 4" "waited popped_ms ls \<le> 10" using b by linarith+
  obtain ls' s'' where r: "labelled_run (pub_step Z L) s' ls' s''" "pub_over s''" using b by blast
  have "pub_ok L ?C s''" using publishing.run_good [OF r(1)] b by blast
  then have "ps_stop s'' = StopReturned \<or> (\<exists>e. ps_pc s'' = PubThrown e \<and> (\<exists>j. jl_dump L j = Inl e))"
    using r(2) by (auto simp: pub_over_def pub_ok_def)
  with w r(1) b show ?thesis unfolding pub_over_def by blast
qed

theorem publisher_stop_returns_witness:
  "\<exists>s ls' s''. labelled_run (pub_step count_zmq brace_lib)
       (pub_started 0 pipe2 ((publisher_new 5 config_default)\<lparr>pb_running := True\<rparr>)) [PLoad, PStop] s \<and>
     ps_pc s = PubPop \<and> labelled_run (pub_step count_zmq brace_lib) s ls' s'' \<and> ps_stop s'' = StopReturned"
proof -
  let ?pb = "(publisher_new 5 config_default)\<lparr>pb_running := True\<rparr> :: nat publisher"
  let ?s0 = "pub_started 0 pipe2 ?pb"
  let ?s1 = "?s0\<lparr>ps_pc := PubPop\<rparr>"
  let ?s2 = "?s1\<lparr>ps_pub := publisher_stop (ps_pub ?s1), ps_stop := StopJoining\<rparr>"
  have "pub_step count_zmq brace_lib ?s0 PLoad ?s1"
    by (rule pub_step.Enter) (simp_all add: pub_started_def)
  moreover have "pub_step count_zmq brace_lib ?s1 PStop ?s2"
    using pub_step.Stop [of ?s1 count_zmq brace_lib] by (simp add: pub_started_def)
  ultimately have r: "labelled_run (pub_step count_zmq brace_lib) ?s0 [PLoad, PStop] ?s2"
    by (intro labelled_run.Step [OF _ labelled_run.Step [OF _ labelled_run.Here]])
  have at: "dp_at 0 pipe2" by (rule pipeline_new_at(1) [OF pipeline_new_pipe2])
  have dump: "jl_dump brace_lib j \<noteq> Inl e" for j e by (simp add: brace_lib_def conv_lib_def)
  have j: "ps_stop ?s2 = StopJoining" by simp
  have run: "pb_running ?pb" by simp
  from publisher_stop_returns [OF at _ run r j labelled_run.Here] dump
  have "\<exists>ls' s''. labelled_run (pub_step count_zmq brace_lib) ?s2 ls' s'' \<and> ps_stop s'' = StopReturned"
    by auto
  moreover have "ps_pc ?s2 = PubPop" by simp
  ultimately show ?thesis using r by blast
qed

end
