(* ===== verification/CommandEffects.thy ===== *)
theory CommandEffects
  imports Commands
begin

text \<open>
  What the commands of \<open>src/api/CommandHandler.cpp\<close> that end a data flow do on every branch, the
  flushing of stale frames included: \<open>stop_capture\<close>, \<open>disconnect\<close>, \<open>activate_channel\<close> and
  \<open>deactivate_channel\<close>. The queues are those of a running pipeline (\<open>dp_at\<close>).
\<close>

section \<open>Flushing\<close>

text \<open>Some client, connected or not, holds a type.\<close>

definition someone_holds :: "handler \<Rightarrow> bool" where
  "someone_holds h \<longleftrightarrow> (\<exists>d t. t \<in> cm_subs (ch_channels h) d)"

definition queued :: "handler \<Rightarrow> data_group \<Rightarrow> frame_ptr list" where
  "queued h = dp_items (ch_dp h)"

lemma flush_all_queued:
  assumes "dp_at k (ch_dp h)" "ch_pipeline_ptr h"
  shows "queued (flush_all h) = (\<lambda>_. [])" "dp_at k (ch_dp (flush_all h))"
proof -
  note d = dp_drain_spec [OF assms(1)]
  then have at: "dp_at k (dp_drain (ch_dp h))" by blast
  show "queued (flush_all h) = (\<lambda>_. [])" "dp_at k (ch_dp (flush_all h))"
    using d dp_drain_spec [OF at] assms(2)
    by (auto simp: queued_def flush_all_def publisher_drain_def Let_def)
qed

text \<open>The queues after a command that flushes when nobody holds anything any more.\<close>

lemma flush_unless_held:
  assumes "dp_at k (ch_dp h)" "ch_pipeline_ptr h" "cm_inv (ch_channels h)"
  shows "queued (if \<not> any_subscriber (ch_channels h) then flush_all h else h) =
    (if someone_holds h then queued h else (\<lambda>_. []))"
  using flush_all_queued [OF assms(1,2)] any_subscriber_iff [OF assms(3)]
  by (simp add: someone_holds_def)

lemma reach_cm_inv: "handler_reach L h \<Longrightarrow> cm_inv (ch_channels h)"
  using handler_reach_inv [of L h] by (simp add: handler_inv_def tables_ok_def)

section \<open>Ending a capture\<close>

text \<open>
  C34. \<open>stop_capture\<close>: refused with \<open>InvalidParam\<close>, without effect, when the request names no type;
  in every other case it succeeds, for a client that is not connected too. The client then holds
  what it held without the named types, no other client, no forced type, session or parameter
  changes, and the queues are emptied exactly if no client holds any type any more: a group that
  goes inactive while another group is held keeps its frames.
\<close>

theorem stop_capture_command:
  assumes "handler_reach L h" "dp_at k (ch_dp h)" "ch_pipeline_ptr h"
    and "handle L ks ''stop_capture'' body c h = Inr (r, h')"
  shows "if expand_types body = [] then r_code r = InvalidParam \<and> h' = h
    else r_code r = Success \<and>
      cm_subs (ch_channels h') =
        (cm_subs (ch_channels h))(c := cm_subs (ch_channels h) c - set (expand_types body)) \<and>
      frc (cm_states (ch_channels h')) = frc (cm_states (ch_channels h)) \<and>
      ch_sessions h' = ch_sessions h \<and> ch_params h' = ch_params h \<and>
      queued h' = (if someone_holds h' then queued h else (\<lambda>_. []))"
proof (cases "expand_types body = []")
  case True
  then show ?thesis
    using assms(4) by (auto simp: handle_def cmd_stop_capture_def Let_def)
next
  case False
  have inv: "cm_inv (ch_channels h)" by (rule reach_cm_inv [OF assms(1)])
  define h1 where "h1 = h\<lparr>ch_channels := cm_stop_capture c (expand_types body) (ch_channels h)\<rparr>"
  have r: "r_code r = Success" "h' = (if \<not> any_subscriber (ch_channels h1) then flush_all h1 else h1)"
    using assms(4) False by (auto simp: handle_def cmd_stop_capture_def reply_def h1_def Let_def)
  have h1: "dp_at k (ch_dp h1)" "ch_pipeline_ptr h1" "cm_inv (ch_channels h1)"
    using assms(2,3) cm_inv_stop [OF inv] by (simp_all add: h1_def)
  have "ch_channels h' = ch_channels h1" "ch_sessions h' = ch_sessions h" "ch_params h' = ch_params h"
    by (simp_all add: r(2) h1_def)
  moreover have "queued h' = (if someone_holds h1 then queued h else (\<lambda>_. []))"
    using flush_unless_held [OF h1] by (simp add: r(2)) (simp add: queued_def h1_def)
  ultimately show ?thesis
    using False r(1) cm_subs_stop [OF inv] frc_stop [OF inv]
    by (simp add: someone_holds_def) (simp add: h1_def)
qed

section \<open>Disconnecting\<close>

lemma disconnect_command:
  assumes "handler_reach L h" "dp_at k (ch_dp h)" "ch_pipeline_ptr h"
    and "handle L ks ''disconnect'' body c h = Inr (r, h')"
  shows "if \<not> is_connected (ch_sessions h) c then r_code r = NotReady \<and> h' = h
    else r_code r = Success \<and> \<not> is_connected (ch_sessions h') c \<and>
      cm_subs (ch_channels h') = (cm_subs (ch_channels h))(c := {}) \<and>
      frc (cm_states (ch_channels h')) = frc (cm_states (ch_channels h)) \<and>
      ch_params h' = ch_params h \<and>
      queued h' = (if someone_holds h' then queued h else (\<lambda>_. []))"
proof (cases "is_connected (ch_sessions h) c")
  case False
  then show ?thesis using assms(4) by (auto simp: handle_def cmd_disconnect_def)
next
  case True
  have inv: "cm_inv (ch_channels h)" by (rule reach_cm_inv [OF assms(1)])
  define h1 where "h1 = h\<lparr>ch_channels := snd (disconnect_client c (ch_channels h)),
    ch_sessions := snd (disconnect c (ch_sessions h))\<rparr>"
  have r: "r_code r = Success" "h' = (if \<not> any_subscriber (ch_channels h1) then flush_all h1 else h1)"
    using assms(4) True by (auto simp: handle_def cmd_disconnect_def h1_def Let_def)
  have h1: "dp_at k (ch_dp h1)" "ch_pipeline_ptr h1" "cm_inv (ch_channels h1)"
    using assms(2,3) cm_inv_leave [OF inv] by (simp_all add: h1_def)
  have same: "ch_channels h' = ch_channels h1" "ch_sessions h' = ch_sessions h1"
    "ch_params h' = ch_params h" "cm_subs (ch_channels h1) = (cm_subs (ch_channels h))(c := {})"
    "frc (cm_states (ch_channels h1)) = frc (cm_states (ch_channels h))"
    "\<not> is_connected (ch_sessions h1) c"
    using True frc_leave [OF inv] os_ok_iff
    by (simp_all add: r(2) h1_def cm_subs_leave)
  have "queued h' = (if someone_holds h1 then queued h else (\<lambda>_. []))"
    using flush_unless_held [OF h1] by (simp add: r(2)) (simp add: queued_def h1_def)
  then show ?thesis using True r(1) same by (simp add: someone_holds_def)
qed

section \<open>Forcing and releasing a channel\<close>

text \<open>
  \<open>activate_channel\<close> and \<open>deactivate_channel\<close>, for any client, connected or not: refused with
  \<open>InvalidParam\<close>, without effect, unless \<open>data_type\<close> names a single type; otherwise the type is
  forced, respectively no longer forced, and nothing else in the tables changes. Forcing keeps the
  queues; releasing empties the queue of the type's group exactly if no type of the group is active
  any more.
\<close>

lemma channel_commands:
  assumes "dp_at k (ch_dp h)" "ch_pipeline_ptr h"
    and "cmd \<in> {''activate_channel'', ''deactivate_channel''}"
    and "handle L ks cmd body c h = Inr (r, h')"
  shows "ch_sessions h' = ch_sessions h \<and> ch_params h' = ch_params h \<and>
    cm_subs (ch_channels h') = cm_subs (ch_channels h) \<and>
    (case named_type L body of
       Inr (Some t) \<Rightarrow>
         r_code r = Success \<and>
         frc (cm_states (ch_channels h')) =
           (frc (cm_states (ch_channels h)))(t := (cmd = ''activate_channel'')) \<and>
         queued h' =
           (if cmd = ''activate_channel'' \<or> group_active (ch_channels h') (data_type_to_group t)
            then queued h else (queued h)(data_type_to_group t := []))
     | _ \<Rightarrow> r_code r = InvalidParam \<and> h' = h)"
proof -
  obtain nt where nt: "named_type L body = Inr nt"
    using assms(3,4) by (auto simp: handle_def cmd_activate_channel_def cmd_deactivate_channel_def
        rbind_eq_Inr)
  note drain = drain_group_spec [OF assms(1)]
  consider "cmd = ''activate_channel''" | "cmd = ''deactivate_channel''" using assms(3) by blast
  then show ?thesis
  proof cases
    case 1
    then show ?thesis
      using assms(4) by (cases nt) (auto simp: handle_def cmd_activate_channel_def nt reply_def
          queued_def force_one Let_def)
  next
    case 2
    then show ?thesis
      using assms(2,4) drain by (cases nt) (auto simp: handle_def cmd_deactivate_channel_def nt
          reply_def queued_def force_one Let_def)
  qed
qed

text \<open>A group name is not the name of a type: \<open>activate_channel\<close> refuses it.\<close>

lemma group_name_refused:
  "named_type demo_lib (JObj [(''data_type'', JStr ''visual_2d'')]) = Inr None"
  by (simp add: named_type_def demo_lib_def conv_lib_def) code_simp

section \<open>Concrete commands\<close>

lemma demo_connected_at: "dp_at 0 (ch_dp demo_connected)" "ch_pipeline_ptr demo_connected"
  using pipeline_new_at(1) [OF pipeline_new_pipe2]
  by (simp_all add: demo_connected_def demo_handler_def)

theorem stop_capture_command_witness:
  "\<exists>r h'. handle demo_lib [] ''stop_capture'' capture_imu ''a'' demo_connected = Inr (r, h') \<and>
     r_code r = Success \<and> cm_subs (ch_channels h') ''b'' = cm_subs (ch_channels demo_connected) ''b''"
proof -
  obtain r h' where h: "handle demo_lib [] ''stop_capture'' capture_imu ''a'' demo_connected = Inr (r, h')"
    by (simp add: handle_def cmd_stop_capture_def expand_capture_imu Let_def)
  from stop_capture_command [OF demo_reach demo_connected_at h] h show ?thesis
    by (simp add: expand_capture_imu)
qed

lemma channel_commands_witness:
  "\<exists>r h'. handle demo_lib [] ''activate_channel'' (JObj [(''data_type'', JStr ''imu'')]) ''a''
     demo_connected = Inr (r, h') \<and> r_code r = Success \<and> frc (cm_states (ch_channels h')) IMU"
proof -
  let ?b = "JObj [(''data_type'', JStr ''imu'')]"
  have nt: "named_type demo_lib ?b = Inr (Some IMU)"
    by (simp add: named_type_def demo_lib_def conv_lib_def) code_simp
  obtain r h' where h: "handle demo_lib [] ''activate_channel'' ?b ''a'' demo_connected = Inr (r, h')"
    by (simp add: handle_def cmd_activate_channel_def nt Let_def)
  from channel_commands [OF demo_connected_at _ h] h show ?thesis by (simp add: nt)
qed

end
