(* ===== verification/CaptureControl.thy ===== *)
theory CaptureControl
  imports Capture CommandEffects
begin

text \<open>
  The command handler and the capture thread together: the tables the commands change
  (\<open>src/data/ChannelManager.cpp\<close>) decide what \<open>CaptureEngine::run\<close> captures, and the queues it
  fills are those the commands flush.
\<close>

section \<open>A round that reads the tables of a handler\<close>

text \<open>All reads of the round see the channel table of \<open>h\<close>: no command intervenes.\<close>

definition reads_tables :: "tick_env \<Rightarrow> handler \<Rightarrow> bool" where
  "reads_tables E h \<longleftrightarrow> te_group E = group_active (ch_channels h) \<and> te_active E = is_active (ch_channels h)"

text \<open>A type somebody wants: forced, or held by a connected client.\<close>

definition wanted :: "handler \<Rightarrow> data_type \<Rightarrow> bool" where
  "wanted h t \<longleftrightarrow> frc (cm_states (ch_channels h)) t \<or>
     (\<exists>d. is_connected (ch_sessions h) d \<and> t \<in> cm_subs (ch_channels h) d)"

lemma wanted_active: "handler_reach L h \<Longrightarrow> is_active (ch_channels h) t \<longleftrightarrow> wanted h t"
proof -
  assume r: "handler_reach L h"
  have "covered (ch_channels h) (ch_sessions h)"
    using handler_reach_inv [OF r] by (simp add: handler_inv_def tables_ok_def)
  then show ?thesis
    using is_active_iff [OF reach_cm_inv [OF r]] by (auto simp: wanted_def covered_def)
qed

lemma sends_wanted:
  assumes "handler_reach L h" "reads_tables E h"
  shows "tick_sends E ds g \<longleftrightarrow> (\<exists>t. data_type_to_group t = g \<and> wanted h t \<and> (t = StereoImage \<longrightarrow> ds_pairs ds \<noteq> []))"
  using assms(2) wanted_active [OF assms(1)]
  by (auto simp: tick_sends_def reads_tables_def carried_def filter_empty_conv group_members_iff
      group_active_iff)


section \<open>After the last client has left\<close>

lemma idle_tick:
  assumes "handler_reach L h" "reads_tables E h" "\<And>t. \<not> wanted h t" "tick G E ce = Inr (ce', ms)"
  shows "ce_pipeline ce' = ce_pipeline ce"
proof -
  obtain fs where fs: "ce_pipeline ce' = snd (push_trace fs (ce_pipeline ce))"
    "map fst fs = filter (tick_sends E (ce_source ce)) [Visual2D, Visual3D, SensorData]"
    using tick_spec [OF assms(4)] by blast
  have "\<not> tick_sends E (ce_source ce) g" for g using sends_wanted [OF assms(1,2)] assms(3) by simp
  then have "fs = []" using fs(2) by simp
  with fs(1) show ?thesis by simp
qed

lemma idle_ticks:
  assumes "handler_reach L h" "\<And>t. \<not> wanted h t"
  shows "run_ticks G Es ce = Inr ce' \<Longrightarrow> \<forall>E \<in> set Es. reads_tables E h \<Longrightarrow> ce_pipeline ce' = ce_pipeline ce"
proof (induction Es arbitrary: ce)
  case (Cons E Es)
  obtain c1 ms where t: "tick G E ce = Inr (c1, ms)" and r: "run_ticks G Es c1 = Inr ce'"
    using Cons.prems(1) by (auto simp: rbind_eq_Inr)
  have "ce_pipeline c1 = ce_pipeline ce"
    using idle_tick [OF assms(1) _ assms(2) t] Cons.prems(2) by simp
  moreover have "ce_pipeline ce' = ce_pipeline c1" using Cons.IH [OF r] Cons.prems(2) by simp
  ultimately show ?case by simp
qed simp

text \<open>
  C27. When the only connected client disconnects and no type is forced, the data flow ends: the
  queues are empty after the command, and as long as no further command changes the tables, any
  number of rounds that start after it leave them empty.
\<close>

theorem silence_after_last_disconnect:
  assumes "handler_reach L h" "dp_at k (ch_dp h)" "ch_pipeline_ptr h"
    and "is_connected (ch_sessions h) c" "\<forall>d. is_connected (ch_sessions h) d \<longrightarrow> d = c"
    and "\<forall>t. \<not> frc (cm_states (ch_channels h)) t"
    and "handle L ks ''disconnect'' body c h = Inr (r, h')"
    and "ce_pipeline ce = ch_dp h'" "\<forall>E \<in> set Es. reads_tables E h'" "run_ticks G Es ce = Inr ce'"
  shows "r_code r = Success \<and> queued h' = (\<lambda>_. []) \<and> dp_items (ce_pipeline ce') = (\<lambda>_. [])"
proof -
  note d = disconnect_command [OF assms(1-3,7)]
  have cov: "covered (ch_channels h) (ch_sessions h)"
    using handler_reach_inv [OF assms(1)] by (simp add: handler_inv_def tables_ok_def)
  have "cm_subs (ch_channels h') = (cm_subs (ch_channels h))(c := {})" using d assms(4) by simp
  moreover have "cm_subs (ch_channels h) d = {}" if "d \<noteq> c" for d
    using that assms(5) cov by (auto simp: covered_def)
  ultimately have none: "cm_subs (ch_channels h') d = {}" for d by simp
  have reach: "handler_reach L h'" by (rule handler_command [OF assms(1,7)])
  have "\<not> wanted h' t" for t using d assms(4,6) none by (simp add: wanted_def)
  then have "ce_pipeline ce' = ch_dp h'"
    using idle_ticks [OF reach _ assms(10,9)] assms(8) by simp
  moreover have "queued h' = (\<lambda>_. [])" using d assms(4) none by (simp add: someone_holds_def)
  ultimately show ?thesis using d assms(4) by (simp add: queued_def)
qed

section \<open>A round in flight\<close>

lemma disconnect_keeps:
  assumes "handler_reach L h" "dp_at k (ch_dp h)" "ch_pipeline_ptr h"
    and "handle L ks ''disconnect'' body c h = Inr (r, h')"
  shows "dp_at k (ch_dp h') \<and> dp_caps (ch_dp h') = dp_caps (ch_dp h)"
proof -
  note d = dp_drain_spec [OF assms(2)]
  then have at: "dp_at k (dp_drain (ch_dp h))" by blast
  show ?thesis
    using assms d dp_drain_spec [OF at]
    by (auto simp: handle_def cmd_disconnect_def flush_all_def publisher_drain_def Let_def split: if_splits)
qed

lemma pushed_stays:
  assumes "dp_at n dp" "n + length ps \<le> 2 ^ 64" "0 < q_cap (dp_queue g dp)" "g \<in> fst ` set ps"
  shows "dp_items (snd (push_trace ps dp)) g \<noteq> [] \<and> dp_at (n + length ps) (snd (push_trace ps dp)) \<and>
    q_cap (dp_queue g (snd (push_trace ps dp))) = q_cap (dp_queue g dp)"
proof -
  have "dp_at (n + length ps) (snd (push_trace ps dp)) \<and>
    q_cap (dp_queue g (snd (push_trace ps dp))) = q_cap (dp_queue g dp) \<and>
    (g \<in> fst ` set ps \<longrightarrow> dp_items (snd (push_trace ps dp)) g \<noteq> [])"
    using assms(2)
  proof (induction ps rule: rev_induct)
    case Nil
    then show ?case using assms(1) by simp
  next
    case (snoc p ps)
    obtain g' f where p: "p = (g', f)" by (cases p)
    let ?d = "snd (push_trace ps dp)"
    have lt: "n + length ps < 2 ^ 64" using snoc.prems by simp
    have IH: "dp_at (n + length ps) ?d" "q_cap (dp_queue g ?d) = q_cap (dp_queue g dp)"
      "g \<in> fst ` set ps \<Longrightarrow> dp_items ?d g \<noteq> []"
      using snoc.IH lt by simp_all
    note q = dp_push_spec [OF IH(1) lt, where g = g' and f = "Some f"]
    have "dp_items (snd (dp_push g' (Some f) ?d)) g \<noteq> []" if "g = g' \<or> g \<in> fst ` set ps"
      using that q(1,2) IH(2,3) assms(3) by (cases "dp_items ?d g = []") auto
    then show ?case
      using q(3) q(4) [of g] IH(2) by (auto simp: p push_trace_snoc Let_def)
  qed
  with assms(4) show ?thesis by blast
qed


section \<open>A client that captures and leaves\<close>

definition demo_capturing :: handler where
  "demo_capturing =
     demo_connected\<lparr>ch_channels := cm_start_capture ''a'' [IMU, StereoImage, DepthMap] cm_new\<rparr>"

definition table_tick :: "handler \<Rightarrow> tick_env" where
  "table_tick h = demo_tick\<lparr>te_group := group_active (ch_channels h), te_active := is_active (ch_channels h)\<rparr>"

lemma table_tick_reads: "reads_tables (table_tick h) h"
  by (simp add: reads_tables_def table_tick_def)

lemma demo_capturing_reach: "handler_reach demo_lib demo_capturing"
proof (rule handler_command [OF demo_reach])
  show "handle demo_lib [] ''start_capture'' capture_imu ''a'' demo_connected =
      Inr (reply Success ''Capture started'' [(''data_types'', type_names [IMU, StereoImage, DepthMap])],
        demo_capturing)"
    by (simp add: handle_def cmd_start_capture_def expand_capture_imu demo_capturing_def demo_connected_def
        demo_handler_def is_connected_def Let_def)
qed

lemma demo_capturing_state:
  "dp_at 0 (ch_dp demo_capturing)" "ch_pipeline_ptr demo_capturing"
  "is_connected (ch_sessions demo_capturing) d \<longleftrightarrow> d = ''a''"
  "cm_subs (ch_channels demo_capturing) d = (if d = ''a'' then {IMU, StereoImage, DepthMap} else {})"
  "frc (cm_states (ch_channels demo_capturing)) = (\<lambda>_. False)"
  using demo_connected_at
  by (auto simp: demo_capturing_def demo_connected_def demo_handler_def is_connected_def cm_subs_start
      fun_eq_iff) (simp_all add: cm_subs_def cm_new_def frc_def state_at_def chan_default_def)

lemma demo_capturing_wants: "wanted demo_capturing IMU"
  by (simp add: wanted_def demo_capturing_state)

lemma table_tick_total:
  "good_source (ce_source ce) \<Longrightarrow> \<exists>ce' ms. tick demo_gen (table_tick h) ce = Inr (ce', ms)"
  using tick_total [OF _ demo_gen_ok] by blast

lemma grp: "data_type_to_group IMU = SensorData" "data_type_to_group DepthMap = Visual2D"
  "data_type_to_group StereoImage = Visual2D"
  by code_simp+


lemma demo_sole:
  "is_connected (ch_sessions demo_capturing) ''a''"
  "\<forall>d. is_connected (ch_sessions demo_capturing) d \<longrightarrow> d = ''a''"
  "\<forall>t. \<not> frc (cm_states (ch_channels demo_capturing)) t"
  by (simp_all add: demo_capturing_state)

lemma demo_disconnects:
  "\<exists>r h'. handle demo_lib [] ''disconnect'' JNull ''a'' demo_capturing = Inr (r, h')"
  by (simp add: handle_def cmd_disconnect_def demo_capturing_state Let_def)

lemma engine_on: "good_source (ce_source (engine_new data_source_new dp))"
  "ce_pipeline (engine_new data_source_new dp) = dp"
  using demo_engine_good by (simp_all add: demo_engine_def engine_new_def)

theorem silence_after_last_disconnect_witness:
  "\<exists>r h' ce'. handle demo_lib [] ''disconnect'' JNull ''a'' demo_capturing = Inr (r, h') \<and>
     run_ticks demo_gen [table_tick h', table_tick h'] (engine_new data_source_new (ch_dp h')) = Inr ce' \<and>
     dp_items (ce_pipeline ce') = (\<lambda>_. [])"
proof -
  obtain r h' where h: "handle demo_lib [] ''disconnect'' JNull ''a'' demo_capturing = Inr (r, h')"
    using demo_disconnects by blast
  let ?ce = "engine_new data_source_new (ch_dp h')"
  obtain c1 ms where t1: "tick demo_gen (table_tick h') ?ce = Inr (c1, ms)" "good_source (ce_source c1)"
    using tick_total [OF engine_on(1) demo_gen_ok] by blast
  obtain c2 ms2 where t2: "tick demo_gen (table_tick h') c1 = Inr (c2, ms2)"
    using table_tick_total [OF t1(2)] by blast
  have t: "run_ticks demo_gen [table_tick h', table_tick h'] ?ce = Inr c2" using t1 t2 by simp
  have rd: "\<forall>E \<in> set [table_tick h', table_tick h']. reads_tables E h'" by (simp add: table_tick_reads)
  from silence_after_last_disconnect [OF demo_capturing_reach demo_capturing_state(1,2) demo_sole h
      engine_on(2) rd t] h t
  show ?thesis by blast
qed


end
