(* ===== verification/SubscriptionPath.thy ===== *)
theory SubscriptionPath
  imports CaptureControl DataPath
begin

text \<open>
  From the command to the wire: a client's \<open>start_capture\<close> (\<open>src/api/CommandHandler.cpp\<close>), the next
  capture round (\<open>src/capture/CaptureEngine.cpp\<close>) and the next publishing round
  (\<open>src/data/DataPublisher.cpp\<close>).
\<close>

section \<open>One frame per group through empty queues\<close>

lemma filter_group:
  "distinct (map fst ps) \<Longrightarrow> filter (\<lambda>p. fst p = g) ps =
     (case map_of ps g of None \<Rightarrow> [] | Some f \<Rightarrow> [(g, f)])"
proof (induction ps)
  case (Cons p ps)
  have "filter (\<lambda>q. fst q = g) ps = []" if "fst p = g"
  proof -
    have "fst p \<notin> fst ` set ps" using Cons.prems by simp
    then show ?thesis using that by (metis (mono_tags, lifting) filter_False image_eqI)
  qed
  with Cons show ?case by (cases p) (auto split: option.splits)
qed simp

lemma pushes_into_empty:
  assumes "dp_at n dp" "dp_items dp = (\<lambda>_. [])" "\<forall>g. 0 < q_cap (dp_queue g dp)"
    and "n + length ps \<le> 2 ^ 64" "distinct (map fst ps)"
  shows "dp_at (n + length ps) (snd (push_trace ps dp)) \<and>
    (\<forall>g. q_cap (dp_queue g (snd (push_trace ps dp))) = q_cap (dp_queue g dp) \<and>
       dp_items (snd (push_trace ps dp)) g = map (\<lambda>p. Some (snd p)) (filter (\<lambda>p. fst p = g) ps))"
  using assms(4,5)
proof (induction ps rule: rev_induct)
  case Nil
  then show ?case using assms(1,2) by simp
next
  case (snoc p ps)
  obtain g f where p: "p = (g, f)" by (cases p)
  let ?d = "snd (push_trace ps dp)"
  have lt: "n + length ps < 2 ^ 64" using snoc.prems by simp
  have new: "g \<notin> fst ` set ps" "distinct (map fst ps)" using snoc.prems(2) by (simp_all add: p)
  have at: "dp_at (n + length ps) ?d"
    and IH: "q_cap (dp_queue h ?d) = q_cap (dp_queue h dp)"
    "dp_items ?d h = map (\<lambda>p. Some (snd p)) (filter (\<lambda>p. fst p = h) ps)" for h
    using snoc.IH lt new(2) by simp_all
  note q = dp_push_spec [OF at lt, where g = g and f = "Some f"]
  have "dp_items ?d g = []" using new(1) by (auto simp: IH filter_empty_conv)
  then have "fst (dp_push g (Some f) ?d)" using q(2) IH(1) assms(3) by simp
  then show ?case
    using q(1,3) q(4) IH by (auto simp: p push_trace_snoc Let_def)
qed

section \<open>From a subscription to a message\<close>

text \<open>What a frame of a group carries for a handler's tables.\<close>

definition wanted_parts :: "handler \<Rightarrow> data_source \<Rightarrow> data_group \<Rightarrow> data_type list" where
  "wanted_parts h ds g =
     filter (\<lambda>t. wanted h t \<and> (t = StereoImage \<longrightarrow> ds_pairs ds \<noteq> [])) (group_members g)"

text \<open>The frames of a round that reads the tables, as the queues then hold them.\<close>

lemma round_queues:
  assumes "handler_reach L h" "reads_tables E h" "tick G E ce = Inr (ce', ms)"
    and "dp_at k (ce_pipeline ce)" "k + 3 \<le> 2 ^ 64" "dp_items (ce_pipeline ce) = (\<lambda>_. [])"
    and "\<forall>g. 0 < q_cap (dp_queue g (ce_pipeline ce))"
  shows "(\<exists>n. dp_at n (ce_pipeline ce')) \<and> sorted_out (ce_pipeline ce') \<and>
    (if wanted_parts h (ce_source ce) g = [] then dp_items (ce_pipeline ce') g = []
     else \<exists>f. dp_items (ce_pipeline ce') g = [Some f] \<and> cf_group f = g \<and>
       map b_type (cf_bundles f) = wanted_parts h (ce_source ce) g)"
proof -
  obtain fs where fs: "ce_pipeline ce' = snd (push_trace fs (ce_pipeline ce))"
    "map fst fs = filter (tick_sends E (ce_source ce)) [Visual2D, Visual3D, SensorData]"
    "\<forall>(g, f) \<in> set fs. tick_frame_ok E (ce_frame_index ce) (ce_source ce) g f"
    using tick_spec [OF assms(3)] by blast
  have len: "length fs \<le> 3" using arg_cong [OF fs(2), of length] length_filter_le
    by (metis length_map length_Cons list.size(3) numeral_3_eq_3)
  have dist: "distinct (map fst fs)" by (simp add: fs(2))
  have lim: "k + length fs \<le> 2 ^ 64" using len assms(5) by simp
  note p = pushes_into_empty [OF assms(4,6,7) lim dist]
  have items: "dp_items (ce_pipeline ce') h = (case map_of fs h of None \<Rightarrow> [] | Some f \<Rightarrow> [Some f])" for h
    using p by (auto simp: fs(1) filter_group [OF dist] split: option.splits)
  have a: "te_active E = wanted h"
    using assms(2) wanted_active [OF assms(1)] by (simp add: reads_tables_def fun_eq_iff)
  have ok: "cf_group f = h'" "map b_type (cf_bundles f) = wanted_parts h (ce_source ce) h'"
    if "map_of fs h' = Some f" for h' f
    using fs(3) map_of_SomeD [OF that] by (auto simp: tick_frame_ok_def carried_def a wanted_parts_def)
  have "sorted_out (ce_pipeline ce')"
    using ok(1) by (auto simp: sorted_out_def items split: option.splits)
  moreover have "\<exists>n. dp_at n (ce_pipeline ce')" using p fs(1) by auto
  moreover have "map_of fs g = None \<longleftrightarrow> wanted_parts h (ce_source ce) g = []"
  proof -
    have "map_of fs g = None \<longleftrightarrow> g \<notin> set (map fst fs)" by (simp add: map_of_eq_None_iff)
    also have "\<dots> \<longleftrightarrow> \<not> tick_sends E (ce_source ce) g" unfolding fs(2) by (cases g) simp_all
    finally show ?thesis
      using sends_wanted [OF assms(1,2)] by (auto simp: wanted_parts_def filter_empty_conv group_members_iff)
  qed
  ultimately show ?thesis using items [of g] ok [of g] by (auto split: option.splits)
qed

lemma start_capture_wanted:
  assumes "handler_reach L h" "handle L ks ''start_capture'' body c h = Inr (r, h')" "r_code r = Success"
  shows "t \<in> set (expand_types body) \<Longrightarrow> wanted h' t"
  using assms(2,3)
  by (auto simp: handle_def cmd_start_capture_def Let_def wanted_def cm_subs_start split: if_splits)

lemma publish_round_delivers:
  assumes "pub_accepts Z" "pub_ready so pb" "dp_at n dp" "sorted_out dp"
    and "publish_round Z L clocks [] dp pb = Inr (dp', pb')"
  shows "dp_items dp' = (\<lambda>_. []) \<and> DataPath.delivers L so pb pb' (\<lambda>g. map the (dp_items dp g))"
proof -
  obtain fs got d where pa: "pop_all [] dp = (fs, got, d)" by (cases "pop_all [] dp")
  note p = pop_all_none [OF assms(3,4) pa]
  have r: "dp' = d" "if got then send_all_frames Z L clocks fs pb = Inr pb' else pb' = pb"
    using assms(5) pa by (auto simp: publish_round_def rbind_eq_Inr split: if_splits)
  have "DataPath.delivers L so pb pb' (\<lambda>g. map the (of_group g fs))"
  proof (cases got)
    case True
    with r(2) show ?thesis using send_all_delivers [OF assms(1,2)] by simp
  next
    case False
    with r(2) p show ?thesis using delivers_refl [OF assms(2)] by simp
  qed
  then show ?thesis using p by (simp add: r(1))
qed



end
