(* ===== verification/ServerThreads.thy ===== *)
theory ServerThreads
  imports Prelude
begin

text \<open>
  \<open>src/api/AdminServer.cpp\<close>, the threads: \<open>start\<close>, \<open>stop\<close>, the accepting thread, the workers and
  the queue of pending connections between them. A step is what one thread does between two
  points where another may intervene; the mutex is held from the test of the wait's predicate
  until the worker sleeps (\<open>WkDecided\<close>). A worker
  may wake up spuriously when \<open>sp\<close> is set.
\<close>

section \<open>Starting\<close>

definition kMaxPending :: nat where
  "kMaxPending = 100"

text \<open>The results of the calls \<open>start\<close> makes; \<open>inet_addr\<close> is \<open>None\<close> for \<open>INADDR_NONE\<close>.\<close>

record start_env =
  se_ctx :: bool
  se_cert :: bool
  se_key :: bool
  se_socket :: int
  se_inet_addr :: "string \<Rightarrow> u32 option"
  se_bind :: "u32 \<Rightarrow> u16 \<Rightarrow> int"
  se_listen :: int

definition server_port :: "int \<Rightarrow> u16" where
  "server_port port = word_of_int port"

definition server_addr :: "start_env \<Rightarrow> string \<Rightarrow> u32" where
  "server_addr E host = (case se_inet_addr E host of None \<Rightarrow> 0 | Some a \<Rightarrow> a)"

definition worker_count :: "int \<Rightarrow> nat" where
  "worker_count worker_threads = (if 0 < worker_threads then nat worker_threads else 4)"

text \<open>The number of workers started, \<open>None\<close> when \<open>start\<close> returns \<open>false\<close>.\<close>

definition server_start :: "start_env \<Rightarrow> string \<Rightarrow> int \<Rightarrow> int \<Rightarrow> nat option" where
  "server_start E host port worker_threads =
     (if \<not> se_ctx E then None
      else if \<not> se_cert E \<or> \<not> se_key E then None
      else if se_socket E < 0 then None
      else if se_bind E (server_addr E host) (server_port port) < 0 then None
      else if se_listen E < 0 then None
      else Some (worker_count worker_threads))"

section \<open>State\<close>

type_synonym connection = "int \<times> string"

datatype acc_pc = AcCheck | AcAccept | AcGot connection | AcNotify | AcDone

datatype wk_pc = WkIdle | WkDecided | WkAsleep | WkBusy connection | WkDone

datatype stop_pc = StIdle | StFlag | StClose | StNotify | StJoin | StDone

text \<open>The last three fields are ghosts: connections queued, taken by a worker, and refused.\<close>

record server =
  sv_running :: bool
  sv_stopping :: bool
  sv_closed :: bool
  sv_queue :: "connection list"
  sv_acc :: acc_pc
  sv_workers :: "nat \<Rightarrow> wk_pc"
  sv_stop :: stop_pc
  sv_pushed :: "connection list"
  sv_taken :: "connection list"
  sv_refused :: "connection list"

definition server_init :: server where
  "server_init = \<lparr>sv_running = True, sv_stopping = False, sv_closed = False, sv_queue = [],
     sv_acc = AcCheck, sv_workers = (\<lambda>_. WkIdle), sv_stop = StIdle,
     sv_pushed = [], sv_taken = [], sv_refused = []\<rparr>"

section \<open>Operations on the queue\<close>

text \<open>The locked block of \<open>accept_loop\<close>.\<close>

definition offer_connection :: "connection \<Rightarrow> server \<Rightarrow> server" where
  "offer_connection c s =
     (if kMaxPending \<le> length (sv_queue s)
      then s\<lparr>sv_refused := sv_refused s @ [c], sv_acc := AcCheck\<rparr>
      else s\<lparr>sv_queue := sv_queue s @ [c], sv_pushed := sv_pushed s @ [c], sv_acc := AcNotify\<rparr>)"

definition set_worker :: "nat \<Rightarrow> wk_pc \<Rightarrow> server \<Rightarrow> server" where
  "set_worker w p s = s\<lparr>sv_workers := (sv_workers s)(w := p)\<rparr>"

text \<open>
  \<open>dequeue_connection\<close> with the decision of \<open>worker_loop\<close> after it: take the front; without one,
  leave when stopping, else prepare to sleep.
\<close>

definition dequeue_connection :: "nat \<Rightarrow> server \<Rightarrow> server" where
  "dequeue_connection w s =
     (case sv_queue s of
        c # q \<Rightarrow> set_worker w (WkBusy c) (s\<lparr>sv_queue := q, sv_taken := sv_taken s @ [c]\<rparr>)
      | [] \<Rightarrow>
          (if sv_stopping s then set_worker w (if sv_running s then WkIdle else WkDone) s
           else set_worker w WkDecided s))"

text \<open>\<open>notify_all\<close>.\<close>

definition wake_all :: "server \<Rightarrow> server" where
  "wake_all s = s\<lparr>sv_workers := (\<lambda>w. if sv_workers s w = WkAsleep then WkIdle else sv_workers s w)\<rparr>"

text \<open>No worker holds the mutex.\<close>

definition unlocked :: "nat \<Rightarrow> server \<Rightarrow> bool" where
  "unlocked N s \<longleftrightarrow> (\<forall>w<N. sv_workers s w \<noteq> WkDecided)"

section \<open>Steps\<close>

inductive sv_step :: "bool \<Rightarrow> nat \<Rightarrow> server \<Rightarrow> server \<Rightarrow> bool" for sp N where
  acc_enter: "sv_acc s = AcCheck \<Longrightarrow> sv_running s \<Longrightarrow> sv_step sp N s (s\<lparr>sv_acc := AcAccept\<rparr>)"
| acc_leave: "sv_acc s = AcCheck \<Longrightarrow> \<not> sv_running s \<Longrightarrow> sv_step sp N s (s\<lparr>sv_acc := AcDone\<rparr>)"
| acc_conn: "sv_acc s = AcAccept \<Longrightarrow> \<not> sv_closed s \<Longrightarrow> sv_step sp N s (s\<lparr>sv_acc := AcGot c\<rparr>)"
| acc_error: "sv_acc s = AcAccept \<Longrightarrow> sv_step sp N s (s\<lparr>sv_acc := AcCheck\<rparr>)"
| acc_break: "sv_acc s = AcAccept \<Longrightarrow> \<not> sv_running s \<Longrightarrow> sv_step sp N s (s\<lparr>sv_acc := AcDone\<rparr>)"
| acc_put: "sv_acc s = AcGot c \<Longrightarrow> unlocked N s \<Longrightarrow> sv_step sp N s (offer_connection c s)"
| acc_notify: "sv_acc s = AcNotify \<Longrightarrow> w < N \<Longrightarrow> sv_workers s w = WkAsleep \<Longrightarrow>
    sv_step sp N s (set_worker w WkIdle (s\<lparr>sv_acc := AcCheck\<rparr>))"
| acc_nobody: "sv_acc s = AcNotify \<Longrightarrow> \<forall>w<N. sv_workers s w \<noteq> WkAsleep \<Longrightarrow>
    sv_step sp N s (s\<lparr>sv_acc := AcCheck\<rparr>)"
| wk_dequeue: "w < N \<Longrightarrow> sv_workers s w = WkIdle \<Longrightarrow> unlocked N s \<Longrightarrow>
    sv_step sp N s (dequeue_connection w s)"
| wk_sleep: "w < N \<Longrightarrow> sv_workers s w = WkDecided \<Longrightarrow> sv_step sp N s (set_worker w WkAsleep s)"
| wk_spurious: "sp \<Longrightarrow> w < N \<Longrightarrow> sv_workers s w = WkAsleep \<Longrightarrow> sv_step sp N s (set_worker w WkIdle s)"
| wk_finish: "w < N \<Longrightarrow> sv_workers s w = WkBusy c \<Longrightarrow> sv_step sp N s (set_worker w WkIdle s)"
| st_begin: "sv_stop s = StIdle \<Longrightarrow> sv_running s \<Longrightarrow>
    sv_step sp N s (s\<lparr>sv_running := False, sv_stop := StFlag\<rparr>)"
| st_flag: "sv_stop s = StFlag \<Longrightarrow> sv_step sp N s (s\<lparr>sv_stopping := True, sv_stop := StClose\<rparr>)"
| st_close: "sv_stop s = StClose \<Longrightarrow> sv_step sp N s (s\<lparr>sv_closed := True, sv_stop := StNotify\<rparr>)"
| st_notify: "sv_stop s = StNotify \<Longrightarrow> sv_step sp N s ((wake_all s)\<lparr>sv_stop := StJoin\<rparr>)"
| st_join: "sv_stop s = StJoin \<Longrightarrow> sv_acc s = AcDone \<Longrightarrow> \<forall>w<N. sv_workers s w = WkDone \<Longrightarrow>
    sv_step sp N s (s\<lparr>sv_stop := StDone\<rparr>)"

inductive sv_reach :: "bool \<Rightarrow> nat \<Rightarrow> server \<Rightarrow> bool" for sp N where
  sv_init: "sv_reach sp N server_init"
| sv_next: "sv_reach sp N s \<Longrightarrow> sv_step sp N s s' \<Longrightarrow> sv_reach sp N s'"

inductive_cases sv_stepE: "sv_step sp N s s'"

section \<open>Invariants\<close>

definition queue_inv :: "server \<Rightarrow> bool" where
  "queue_inv s \<longleftrightarrow> length (sv_queue s) \<le> kMaxPending \<and> sv_pushed s = sv_taken s @ sv_queue s"

definition lock_inv :: "nat \<Rightarrow> server \<Rightarrow> bool" where
  "lock_inv N s \<longleftrightarrow> (\<forall>w<N. sv_workers s w = WkDecided \<longrightarrow> sv_queue s = [])"

definition awake :: "wk_pc \<Rightarrow> bool" where
  "awake p \<longleftrightarrow> (case p of WkIdle \<Rightarrow> True | WkBusy c \<Rightarrow> True | _ \<Rightarrow> False)"

definition served_inv :: "nat \<Rightarrow> server \<Rightarrow> bool" where
  "served_inv N s \<longleftrightarrow> (sv_queue s \<noteq> [] \<and> sv_acc s \<noteq> AcNotify \<longrightarrow>
     (\<exists>w<N. awake (sv_workers s w)) \<or> (\<exists>w<N. sv_workers s w = WkDone))"

definition offering :: "acc_pc \<Rightarrow> nat" where
  "offering p = (case p of AcAccept \<Rightarrow> 1 | AcGot c \<Rightarrow> 1 | _ \<Rightarrow> 0)"

definition exit_inv :: "nat \<Rightarrow> server \<Rightarrow> bool" where
  "exit_inv N s \<longleftrightarrow> (sv_stopping s \<longrightarrow> \<not> sv_running s) \<and>
     (sv_stop s \<noteq> StIdle \<longrightarrow> \<not> sv_running s) \<and>
     ((\<exists>w<N. sv_workers s w = WkDone) \<longrightarrow>
        sv_stopping s \<and> length (sv_queue s) + offering (sv_acc s) \<le> 1)"

lemma awake_simps [simp]:
  "awake WkIdle" "awake (WkBusy c)" "\<not> awake WkDecided" "\<not> awake WkAsleep" "\<not> awake WkDone"
  by (simp_all add: awake_def)

lemma offering_simps [simp]:
  "offering AcCheck = 0" "offering AcAccept = 1" "offering (AcGot c) = 1" "offering AcNotify = 0"
  "offering AcDone = 0"
  by (simp_all add: offering_def)

lemmas sv_defs = offer_connection_def dequeue_connection_def set_worker_def wake_all_def

lemma step_queue_inv: "sv_step sp N s s' \<Longrightarrow> queue_inv s \<Longrightarrow> queue_inv s'"
  by (induction rule: sv_step.induct)
    (auto simp: queue_inv_def sv_defs split: list.splits)

lemma step_lock_inv: "sv_step sp N s s' \<Longrightarrow> lock_inv N s \<Longrightarrow> lock_inv N s'"
  by (induction rule: sv_step.induct)
    (auto simp: lock_inv_def unlocked_def sv_defs split: list.splits)

lemma step_exit_inv:
  assumes "sv_step sp N s s'" "exit_inv N s"
  shows "exit_inv N s'"
  using assms
proof (induction rule: sv_step.induct)
  case (acc_put s c)
  then show ?case by (auto simp: exit_inv_def offer_connection_def)
next
  case (acc_notify s w)
  then show ?case by (auto simp: exit_inv_def set_worker_def split: if_splits)
next
  case (wk_dequeue w s)
  then show ?case
    by (cases "sv_queue s"; cases "sv_acc s")
      (auto simp: exit_inv_def dequeue_connection_def set_worker_def split: if_splits)
next
  case (wk_sleep w s)
  then show ?case by (auto simp: exit_inv_def set_worker_def split: if_splits)
next
  case (wk_spurious w s)
  then show ?case by (auto simp: exit_inv_def set_worker_def split: if_splits)
next
  case (wk_finish w s c)
  then show ?case by (auto simp: exit_inv_def set_worker_def split: if_splits)
next
  case (st_notify s)
  then show ?case by (auto simp: exit_inv_def wake_all_def split: if_splits)
qed (auto simp: exit_inv_def)

lemma step_served_inv:
  assumes "sv_step sp N s s'" "0 < N" "served_inv N s" "lock_inv N s"
  shows "served_inv N s'"
  using assms
proof (induction rule: sv_step.induct)
  case (acc_put s c)
  then show ?case by (auto simp: served_inv_def offer_connection_def kMaxPending_def)
next
  case (acc_notify s w)
  then show ?case by (auto simp: served_inv_def set_worker_def)
next
  case (acc_nobody s)
  show ?case
  proof (cases "sv_queue s = []")
    case False
    have "sv_workers s 0 \<noteq> WkDecided" "sv_workers s 0 \<noteq> WkAsleep"
      using acc_nobody False by (auto simp: lock_inv_def)
    then have "awake (sv_workers s 0) \<or> sv_workers s 0 = WkDone" by (cases "sv_workers s 0") simp_all
    with \<open>0 < N\<close> show ?thesis by (auto simp: served_inv_def)
  qed (simp add: served_inv_def)
next
  case (wk_dequeue w s)
  then show ?case
    by (cases "sv_queue s") (auto simp: served_inv_def dequeue_connection_def set_worker_def)
next
  case (wk_sleep w s)
  then show ?case by (auto simp: served_inv_def lock_inv_def set_worker_def)
next
  case (wk_spurious w s)
  then show ?case by (auto simp: served_inv_def set_worker_def)
next
  case (wk_finish w s c)
  then show ?case by (auto simp: served_inv_def set_worker_def)
next
  case (st_notify s)
  then show ?case by (fastforce simp: served_inv_def wake_all_def)
qed (auto simp: served_inv_def)

lemma server_invs:
  assumes "sv_reach sp N s" "0 < N"
  shows "queue_inv s \<and> lock_inv N s \<and> exit_inv N s \<and> served_inv N s"
  using assms(1)
proof (induction rule: sv_reach.induct)
  case sv_init
  show ?case
    by (simp add: queue_inv_def lock_inv_def exit_inv_def served_inv_def server_init_def)
next
  case (sv_next s s')
  then show ?case
    using step_queue_inv step_lock_inv step_exit_inv step_served_inv [OF _ assms(2)] by blast
qed

text \<open>
  C17. The pending connections, in every interleaving of the accepting thread, the workers and
  \<open>stop\<close>, with or without spurious wake-ups: never more than 100 wait; the
  connections queued are exactly, in order, those the workers have taken followed by those
  waiting, so none is lost, duplicated or overtaken; while no worker has left, a waiting
  connection that has been announced finds a worker awake; and a worker leaves only when
  stopping, after which at most one connection is left behind.
\<close>

theorem pending_connections_safe:
  assumes "sv_reach sp N s" "0 < N"
  shows "length (sv_queue s) \<le> 100 \<and> sv_pushed s = sv_taken s @ sv_queue s \<and>
    (sv_queue s \<noteq> [] \<and> sv_acc s \<noteq> AcNotify \<and> (\<forall>w<N. sv_workers s w \<noteq> WkDone) \<longrightarrow>
       (\<exists>w<N. awake (sv_workers s w))) \<and>
    ((\<exists>w<N. sv_workers s w = WkDone) \<longrightarrow> sv_stopping s \<and> length (sv_queue s) \<le> 1)"
  using server_invs [OF assms]
  by (auto simp: queue_inv_def kMaxPending_def exit_inv_def served_inv_def)

section \<open>Runs\<close>

lemma reach_two: "sv_reach False N s \<Longrightarrow> sv_step False N s s' \<Longrightarrow> sv_step False N s' s'' \<Longrightarrow> sv_reach False N s''"
  by (blast intro: sv_next)

text \<open>
  A stop in the middle of a worker's decision to sleep: worker 0 has tested the predicate, the
  stopping thread sets its flags and notifies, and only then worker 0 goes to sleep; \<open>k\<close> of the
  other workers have left.
\<close>

definition missed :: "nat \<Rightarrow> server" where
  "missed k = server_init\<lparr>sv_running := False, sv_stopping := True, sv_closed := True,
     sv_acc := AcDone, sv_stop := StJoin,
     sv_workers := (\<lambda>w. if w = 0 then WkAsleep else if w \<le> k then WkDone else WkIdle)\<rparr>"

definition deciding :: server where
  "deciding = set_worker 0 WkDecided server_init"

lemma missed_start:
  assumes "0 < N"
  shows "sv_reach False N (missed 0)"
proof -
  have "sv_step False N server_init (dequeue_connection 0 server_init)"
    using assms by (intro wk_dequeue) (simp_all add: server_init_def unlocked_def)
  then have "sv_reach False N deciding"
    using sv_next [OF sv_init] by (simp add: dequeue_connection_def deciding_def server_init_def)
  then have "sv_reach False N (deciding\<lparr>sv_running := False, sv_stop := StFlag\<rparr>)"
    by (rule sv_next) (rule st_begin, simp_all add: deciding_def set_worker_def server_init_def)
  from sv_next [OF this st_flag]
  have "sv_reach False N (deciding\<lparr>sv_running := False, sv_stopping := True, sv_stop := StClose\<rparr>)" by simp
  from sv_next [OF this st_close]
  have "sv_reach False N (deciding\<lparr>sv_running := False, sv_stopping := True, sv_closed := True,
      sv_stop := StNotify\<rparr>)" by simp
  from sv_next [OF this st_notify]
  have "sv_reach False N (deciding\<lparr>sv_running := False, sv_stopping := True, sv_closed := True,
      sv_stop := StJoin\<rparr>)"
    by (simp add: wake_all_def deciding_def set_worker_def server_init_def fun_upd_def if_distrib
        cong: if_cong)
  from sv_next [OF this wk_sleep [of 0]]
  have "sv_reach False N (set_worker 0 WkAsleep (deciding\<lparr>sv_running := False, sv_stopping := True,
      sv_closed := True, sv_stop := StJoin\<rparr>))"
    using assms by (simp add: deciding_def set_worker_def server_init_def)
  from sv_next [OF this acc_leave] show ?thesis
    by (simp add: deciding_def set_worker_def server_init_def missed_def fun_upd_def cong: if_cong)
qed

lemma missed_run: "0 < N \<Longrightarrow> k < N \<Longrightarrow> sv_reach False N (missed k)"
proof (induction k)
  case (Suc k)
  then have r: "sv_reach False N (missed k)" by simp
  have "sv_step False N (missed k) (dequeue_connection (Suc k) (missed k))"
    using Suc.prems by (intro wk_dequeue) (simp_all add: missed_def unlocked_def)
  from sv_next [OF r this] show ?case
    by (simp add: dequeue_connection_def missed_def server_init_def set_worker_def fun_upd_def)
      (erule arg_cong [where f = "sv_reach False N", THEN iffD1, rotated], simp add: fun_eq_iff le_Suc_eq)
qed (rule missed_start)

lemma missed_stuck: "0 < N \<Longrightarrow> \<not> sv_step False N (missed (N - 1)) s'"
  by (auto simp: missed_def server_init_def elim!: sv_stepE split: if_splits)

text \<open>
  Shutting down can hang: for every number of workers there is a run of \<open>stop\<close> to its
  joins in which worker 0 sleeps with the stop flag set, every other worker and the accepting
  thread have ended, and no step is possible any more; \<open>stop\<close> sets the flag and notifies
  without the mutex, in the gap between the worker's test and its sleep.
\<close>

lemma stop_can_hang:
  assumes "0 < N"
  shows "\<exists>s. sv_reach False N s \<and> sv_stop s = StJoin \<and> sv_stopping s \<and> sv_workers s 0 = WkAsleep \<and>
    sv_acc s = AcDone \<and> (\<forall>w. 0 < w \<and> w < N \<longrightarrow> sv_workers s w = WkDone) \<and>
    (\<forall>s'. \<not> sv_step False N s s')"
proof (intro exI conjI)
  show "sv_reach False N (missed (N - 1))" using assms by (intro missed_run) simp_all
  show "\<forall>s'. \<not> sv_step False N (missed (N - 1)) s'" using missed_stuck [OF assms] by blast
qed (auto simp: missed_def server_init_def)

theorem pending_connections_safe_witness:
  "length (sv_queue (missed 3)) \<le> 100 \<and> sv_pushed (missed 3) = sv_taken (missed 3) @ sv_queue (missed 3)"
  using pending_connections_safe [OF missed_run, of 4 3] by simp

section \<open>The port\<close>

text \<open>The configured port is cut to 16 bits: 70000 listens on 4464.\<close>

lemma server_port_wraps: "server_port 70000 = 4464" "server_port 8443 = 8443"
  by (simp_all add: server_port_def)

end
