(* ===== verification/ServerStop.thy ===== *)
theory ServerStop
  imports ServerThreads StopProtocol
begin

text \<open>
  How \<open>AdminServer::stop\<close> of \<open>src/api/AdminServer.cpp\<close> ends, over the step relation of
  \<open>ServerThreads\<close>: an interpretation of the contract in \<open>StopProtocol\<close>, whose only way to fail is a
  worker that fell asleep in the gap between its test and its wait.
\<close>

section \<open>The gap\<close>

text \<open>
  The mutex admits one worker between the test of the predicate and the wait. \<open>notify_all\<close> wakes all
  that sleep, so from then on at most one worker sleeps or is about to.
\<close>

definition dormant :: "wk_pc \<Rightarrow> bool" where
  "dormant p \<longleftrightarrow> p = WkAsleep \<or> p = WkDecided"

definition gap_inv :: "nat \<Rightarrow> server \<Rightarrow> bool" where
  "gap_inv N s \<longleftrightarrow>
     (sv_stopping s \<longleftrightarrow> sv_stop s \<noteq> StIdle \<and> sv_stop s \<noteq> StFlag) \<and>
     (sv_stop s \<noteq> StIdle \<longrightarrow> \<not> sv_running s) \<and>
     (\<forall>v<N. \<forall>w<N. sv_workers s v = WkDecided \<longrightarrow> sv_workers s w = WkDecided \<longrightarrow> v = w) \<and>
     (sv_stop s = StJoin \<or> sv_stop s = StDone \<longrightarrow>
        (\<forall>v<N. \<forall>w<N. dormant (sv_workers s v) \<longrightarrow> dormant (sv_workers s w) \<longrightarrow> v = w))"

lemma dormant_simps [simp]:
  "dormant WkAsleep" "dormant WkDecided" "\<not> dormant WkIdle" "\<not> dormant (WkBusy c)" "\<not> dormant WkDone"
  by (simp_all add: dormant_def)

lemma step_gap_inv: "sv_step sp N s s' \<Longrightarrow> gap_inv N s \<Longrightarrow> gap_inv N s'"
proof (induction rule: sv_step.induct)
  case (acc_put s c)
  then show ?case by (auto simp: gap_inv_def offer_connection_def)
next
  case (acc_notify s w)
  then show ?case by (auto simp: gap_inv_def set_worker_def)
next
  case (wk_dequeue w s)
  then show ?case
    by (cases "sv_queue s")
      (auto simp: gap_inv_def dequeue_connection_def set_worker_def unlocked_def)
next
  case (wk_sleep w s)
  then show ?case by (auto simp: gap_inv_def set_worker_def)
next
  case (wk_spurious w s)
  then show ?case by (auto simp: gap_inv_def set_worker_def)
next
  case (wk_finish w s c)
  then show ?case by (auto simp: gap_inv_def set_worker_def)
next
  case (st_notify s)
  then show ?case by (auto simp: gap_inv_def wake_all_def dormant_def)
qed (auto simp: gap_inv_def)

lemma reach_gap_inv: "sv_reach sp N s \<Longrightarrow> gap_inv N s"
proof (induction rule: sv_reach.induct)
  case sv_init
  show ?case by (simp add: gap_inv_def server_init_def)
next
  case (sv_next s s')
  then show ?case by (blast intro: step_gap_inv)
qed

section \<open>What is left to do\<close>

fun acc_left :: "acc_pc \<Rightarrow> nat" where
  "acc_left AcAccept = 6"
| "acc_left (AcGot c) = 5"
| "acc_left AcNotify = 2"
| "acc_left AcCheck = 1"
| "acc_left AcDone = 0"

fun wk_left :: "wk_pc \<Rightarrow> nat" where
  "wk_left WkDecided = 3"
| "wk_left WkAsleep = 2"
| "wk_left (WkBusy c) = 2"
| "wk_left WkIdle = 1"
| "wk_left WkDone = 0"

fun st_left :: "ServerThreads.stop_pc \<Rightarrow> nat" where
  "st_left StIdle = 5"
| "st_left StFlag = 4"
| "st_left StClose = 3"
| "st_left StNotify = 2"
| "st_left StJoin = 1"
| "st_left StDone = 0"

definition workers_left :: "nat \<Rightarrow> server \<Rightarrow> nat" where
  "workers_left N s = (\<Sum>w<N. wk_left (sv_workers s w))"

definition server_left :: "nat \<Rightarrow> server \<Rightarrow> nat" where
  "server_left N s =
     acc_left (sv_acc s) + 2 * length (sv_queue s) + workers_left N s + st_left (sv_stop s)"

lemma workers_left_set:
  assumes "w < N"
  shows "workers_left N (set_worker w p s) + wk_left (sv_workers s w) = workers_left N s + wk_left p"
proof -
  have "(\<Sum>v<N. f v) = f w + (\<Sum>v\<in>{..<N} - {w}. f v)" for f :: "nat \<Rightarrow> nat"
    using assms by (simp add: sum.remove)
  then show ?thesis by (simp add: workers_left_def set_worker_def)
qed

lemma set_worker_fields [simp]:
  "sv_acc (set_worker w p s) = sv_acc s" "sv_queue (set_worker w p s) = sv_queue s"
  "sv_stop (set_worker w p s) = sv_stop s" "sv_stopping (set_worker w p s) = sv_stopping s"
  by (simp_all add: set_worker_def)

lemma workers_left_fields [simp]:
  "workers_left N (s\<lparr>sv_acc := a\<rparr>) = workers_left N s"
  "workers_left N (s\<lparr>sv_stop := st\<rparr>) = workers_left N s"
  "workers_left N (s\<lparr>sv_closed := cl\<rparr>) = workers_left N s"
  "workers_left N (s\<lparr>sv_stopping := cl\<rparr>) = workers_left N s"
  "workers_left N (s\<lparr>sv_queue := q\<rparr>) = workers_left N s"
  "workers_left N (s\<lparr>sv_pushed := q\<rparr>) = workers_left N s"
  "workers_left N (s\<lparr>sv_taken := q\<rparr>) = workers_left N s"
  "workers_left N (s\<lparr>sv_refused := q\<rparr>) = workers_left N s"
  by (simp_all add: workers_left_def)

lemma wake_all_left: "workers_left N (wake_all s) \<le> workers_left N s"
  by (auto simp: workers_left_def wake_all_def intro: sum_mono)

lemma server_stopping_step:
  assumes "sv_step sp N s s'" "gap_inv N s" "sv_stopping s"
  shows "sv_stopping s' \<and> server_left N s' < server_left N s"
  using assms
proof (induction rule: sv_step.induct)
  case (acc_put s c)
  then show ?case by (auto simp: server_left_def offer_connection_def)
next
  case (acc_notify s w)
  have "workers_left N (set_worker w WkIdle (s\<lparr>sv_acc := AcCheck\<rparr>)) + 2 = workers_left N s + 1"
    using workers_left_set [OF acc_notify(2), of WkIdle "s\<lparr>sv_acc := AcCheck\<rparr>"] acc_notify(3) by simp
  with acc_notify show ?case by (simp add: server_left_def)
next
  case (wk_dequeue w s)
  show ?case
  proof (cases "sv_queue s")
    case Nil
    then show ?thesis
      using wk_dequeue workers_left_set [OF wk_dequeue(1), of WkDone s]
      by (auto simp: server_left_def dequeue_connection_def gap_inv_def)
  next
    case (Cons c q)
    then show ?thesis
      using wk_dequeue workers_left_set [OF wk_dequeue(1), of "WkBusy c" "s\<lparr>sv_queue := q, sv_taken := sv_taken s @ [c]\<rparr>"]
      by (simp add: server_left_def dequeue_connection_def)
  qed
next
  case (wk_sleep w s)
  then show ?case using workers_left_set [OF wk_sleep(1), of WkAsleep s] by (simp add: server_left_def)
next
  case (wk_spurious w s)
  then show ?case using workers_left_set [OF wk_spurious(2), of WkIdle s] by (simp add: server_left_def)
next
  case (wk_finish w s c)
  then show ?case using workers_left_set [OF wk_finish(1), of WkIdle s] by (simp add: server_left_def)
next
  case (st_notify s)
  have "workers_left N ((wake_all s)\<lparr>sv_stop := StJoin\<rparr>) \<le> workers_left N s"
    using wake_all_left [of N s] by simp
  moreover have "sv_acc (wake_all s) = sv_acc s" "sv_queue (wake_all s) = sv_queue s"
    "sv_stopping (wake_all s) = sv_stopping s" by (simp_all add: wake_all_def)
  ultimately show ?case using st_notify by (simp add: server_left_def)
qed (auto simp: server_left_def gap_inv_def)


section \<open>Stopping\<close>

text \<open>The state in which \<open>stop\<close> never returns: everything has ended but one sleeping worker.\<close>

definition hung :: "nat \<Rightarrow> server \<Rightarrow> bool" where
  "hung N s \<longleftrightarrow> sv_stop s = StJoin \<and> sv_acc s = AcDone \<and>
     (\<exists>w<N. sv_workers s w = WkAsleep \<and> (\<forall>v<N. v \<noteq> w \<longrightarrow> sv_workers s v = WkDone))"

definition stop_over :: "bool \<Rightarrow> nat \<Rightarrow> server \<Rightarrow> bool" where
  "stop_over sp N s \<longleftrightarrow> sv_stop s = StDone \<or> \<not> sp \<and> hung N s"

lemma hung_stuck: "hung N s \<Longrightarrow> \<not> sv_step False N s s'"
  by (auto simp: hung_def elim!: sv_stepE)

lemma server_stopping_moves:
  assumes inv: "gap_inv N s" "sv_stopping s" and go: "\<not> stop_over sp N s"
  shows "\<exists>s'. sv_step sp N s s'"
proof (cases "\<exists>w<N. sv_workers s w = WkDecided \<or> (\<exists>c. sv_workers s w = WkBusy c)")
  case True
  then show ?thesis by (blast intro: wk_sleep wk_finish)
next
  case False
  then have free: "unlocked N s" by (auto simp: unlocked_def)
  show ?thesis
  proof (cases "\<exists>w<N. sv_workers s w = WkIdle")
    case True
    then show ?thesis using wk_dequeue [OF _ _ free] by blast
  next
    case no_idle: False
    have rest: "sv_workers s w = WkAsleep \<or> sv_workers s w = WkDone" if "w < N" for w
      using False no_idle that by (cases "sv_workers s w") auto
    show ?thesis
    proof (cases "sv_acc s")
      case AcCheck
      then show ?thesis by (blast intro: acc_enter acc_leave)
    next
      case AcAccept
      then show ?thesis by (blast intro: acc_error)
    next
      case (AcGot c)
      then show ?thesis by (blast intro: acc_put free)
    next
      case AcNotify
      then show ?thesis by (blast intro: acc_notify acc_nobody)
    next
      case AcDone
      show ?thesis
      proof (cases "sv_stop s")
        case StJoin
        show ?thesis
        proof (cases "\<exists>w<N. sv_workers s w = WkAsleep")
          case True
          then obtain w where w: "w < N" "sv_workers s w = WkAsleep" by blast
          have "sv_workers s v = WkDone" if "v < N" "v \<noteq> w" for v
            using inv(1) StJoin w that rest [OF that(1)] by (auto simp: gap_inv_def dormant_def)
          then have "hung N s" using StJoin AcDone w by (auto simp: hung_def)
          then have "sp" using go by (simp add: stop_over_def)
          then show ?thesis using w by (blast intro: wk_spurious)
        next
          case False
          then show ?thesis using rest StJoin AcDone by (blast intro: st_join)
        qed
      qed (use inv go in \<open>auto simp: gap_inv_def stop_over_def intro: st_close st_notify\<close>)
    qed
  qed
qed

interpretation stopping: stoppable "\<lambda>s (l :: unit). sv_step sp N s" "\<lambda>l. True" "\<lambda>l. 0"
  "\<lambda>s. gap_inv N s" sv_stopping "stop_over sp N" "server_left N" "\<lambda>s. 0" for sp N
proof (unfold_locales, goal_cases)
  case (1 s l t)
  then show ?case by (rule step_gap_inv [rotated])
next
  case (2 s l t)
  then show ?case using server_stopping_step [of sp N s t] by simp
next
  case (3 s)
  then show ?case using server_stopping_moves [of N s sp] by blast
qed


abbreviation server_run :: "bool \<Rightarrow> nat \<Rightarrow> server \<Rightarrow> unit list \<Rightarrow> server \<Rightarrow> bool" where
  "server_run sp N \<equiv> labelled_run (\<lambda>s l t. sv_step sp N s t)"

lemma server_left_bound:
  assumes "queue_inv s" "gap_inv N s" "sv_stopping s"
  shows "server_left N s \<le> 3 * N + 209"
proof -
  have "acc_left (sv_acc s) \<le> 6" by (cases "sv_acc s") simp_all
  moreover have "length (sv_queue s) \<le> 100" using assms(1) by (simp add: queue_inv_def kMaxPending_def)
  moreover have "st_left (sv_stop s) \<le> 3" using assms(2,3) by (cases "sv_stop s") (auto simp: gap_inv_def)
  moreover have "wk_left (sv_workers s w) \<le> 3" for w by (cases "sv_workers s w") simp_all
  then have "workers_left N s \<le> (\<Sum>w<N. 3)" unfolding workers_left_def by (intro sum_mono) simp
  then have "workers_left N s \<le> 3 * N" by simp
  ultimately show ?thesis by (simp add: server_left_def)
qed

text \<open>Without a worker in the gap when \<open>notify_all\<close> is called, none is left sleeping.\<close>

definition no_gap :: "nat \<Rightarrow> server \<Rightarrow> bool" where
  "no_gap N s \<longleftrightarrow> sv_stopping s \<and> (\<forall>w<N. sv_workers s w \<noteq> WkDecided) \<and>
     (sv_stop s = StJoin \<longrightarrow> (\<forall>w<N. sv_workers s w \<noteq> WkAsleep))"

lemma step_no_gap: "sv_step sp N s s' \<Longrightarrow> no_gap N s \<Longrightarrow> no_gap N s'"
proof (induction rule: sv_step.induct)
  case (acc_put s c)
  then show ?case by (auto simp: no_gap_def offer_connection_def)
next
  case (wk_dequeue w s)
  then show ?case
    by (cases "sv_queue s") (auto simp: no_gap_def dequeue_connection_def set_worker_def)
next
  case (st_notify s)
  then show ?case by (auto simp: no_gap_def wake_all_def)
qed (auto simp: no_gap_def set_worker_def)

lemma run_no_gap: "server_run sp N s ls t \<Longrightarrow> no_gap N s \<Longrightarrow> no_gap N t"
  by (induction rule: labelled_run.induct) (auto intro: step_no_gap)

lemma no_gap_not_hung: "no_gap N s \<Longrightarrow> \<not> hung N s"
  by (auto simp: no_gap_def hung_def)

lemma can_hang: "0 < N \<Longrightarrow> \<exists>s. sv_reach False N s \<and> hung N s"
  using stop_can_hang [of N] by (auto simp: hung_def)


text \<open>Called while every worker is idle, \<open>stop\<close> returns.\<close>

definition closing :: server where
  "closing = server_init\<lparr>sv_running := False, sv_stopping := True, sv_stop := StClose\<rparr>"

lemma closing_reach: "sv_reach sp N closing"
proof -
  have "sv_reach sp N (server_init\<lparr>sv_running := False, sv_stop := StFlag\<rparr>)"
    by (rule sv_next [OF sv_init st_begin]) (simp_all add: server_init_def)
  from sv_next [OF this st_flag] show ?thesis by (simp add: closing_def)
qed


end
