(* ===== verification/Service.thy ===== *)
theory Service
  imports Commands ServerThreads
begin

text \<open>
  \<open>src/main.cpp\<close>: the parameters the service registers, their persistence in
  \<open>CameraSetting.json\<close>, and the wiring, start and shutdown of the components. File contents are
  a map from paths to texts, and writing a file updates it.
\<close>

section \<open>The registered parameters\<close>

definition add_int :: "string \<Rightarrow> int \<Rightarrow> int \<Rightarrow> int \<Rightarrow> bool \<Rightarrow> params \<Rightarrow> params" where
  "add_int n def lo hi reopen pm =
     register_parameter \<lparr>p_name = n, p_value = Integer def, p_min = Integer lo, p_max = Integer hi,
       p_default_value = Integer def, p_is_readonly = False, p_is_available = True,
       p_needs_reopen = reopen, p_enum_options = []\<rparr> pm"

text \<open>Bounds that are not set are the variant's first alternative, the integer 0.\<close>

definition add_enum :: "string \<Rightarrow> string \<Rightarrow> string list \<Rightarrow> bool \<Rightarrow> params \<Rightarrow> params" where
  "add_enum n def vals reopen pm =
     register_parameter \<lparr>p_name = n, p_value = Enum def, p_min = Integer 0, p_max = Integer 0,
       p_default_value = Enum def, p_is_readonly = False, p_is_available = True,
       p_needs_reopen = reopen, p_enum_options = vals\<rparr> pm"

definition scene_illuminance :: parameter where
  "scene_illuminance = \<lparr>p_name = ''scene_illuminance'', p_value = Integer 0, p_min = Integer 0,
     p_max = Integer 0, p_default_value = Integer 0, p_is_readonly = True, p_is_available = True,
     p_needs_reopen = False, p_enum_options = []\<rparr>"

definition register_parameters :: "config \<Rightarrow> params \<Rightarrow> params" where
  "register_parameters cfg pm =
     (let pm = add_int ''fps'' (cap_fps cfg) 1 120 True pm;
          pm = add_enum ''resolution'' ''HD720'' [''HD2K'', ''HD1080'', ''HD720'', ''HD1200'', ''VGA''] True pm;
          pm = add_enum ''depth_mode'' ''NEURAL''
                 [''NONE'', ''NEURAL_LIGHT'', ''NEURAL'', ''NEURAL_PLUS'', ''PERFORMANCE'', ''QUALITY'',
                  ''ULTRA''] True pm;
          pm = add_int ''exposure_time'' 0 0 33333 False pm;
          pm = add_int ''gain'' 50 0 100 False pm;
          pm = add_int ''analog_gain'' 1000 1000 16000 False pm;
          pm = add_int ''digital_gain'' 1 1 256 False pm;
          pm = add_enum ''auto_exposure_gain'' ''On'' [''On'', ''Off''] False pm;
          pm = add_int ''exposure_compensation'' 50 0 100 False pm;
          pm = add_int ''denoising'' 50 0 100 False pm;
          pm = register_parameter scene_illuminance pm;
          pm = add_enum ''mem_type'' ''CPU'' [''CPU'', ''GPU''] False pm;
          pm = add_int ''target_fps_2d'' 15 0 240 False pm;
          pm = add_int ''target_fps_3d'' 15 0 240 False pm
      in add_int ''target_fps_sensor'' 200 0 1000 False pm)"

section \<open>Persistence\<close>

definition param_value_to_json :: "parameter \<Rightarrow> json" where
  "param_value_to_json p =
     (case p_value p of Integer n \<Rightarrow> JInt n | Float d \<Rightarrow> JFloat d | Enum s \<Rightarrow> JStr s)"

definition setting_path :: "string \<Rightarrow> string" where
  "setting_path config_dir = config_dir @ ''/CameraSetting.json''"

text \<open>The loop over the members; an exception ends it and keeps what was set before.\<close>

fun load_items :: "json_lib \<Rightarrow> (string \<times> json) list \<Rightarrow> params \<Rightarrow> params" where
  "load_items L [] pm = pm"
| "load_items L ((name, v) # es) pm =
     (case param_get name pm of
        None \<Rightarrow> load_items L es pm
      | Some cur \<Rightarrow>
          (case typed_value L (p_value cur) v of
             Inl e \<Rightarrow> pm
           | Inr pv \<Rightarrow> load_items L es (snd (snd (set_value name pv [] pm)))))"

definition load_camera_setting ::
    "json_lib \<Rightarrow> (string \<Rightarrow> string option) \<Rightarrow> string \<Rightarrow> params \<Rightarrow> params" where
  "load_camera_setting L files config_dir pm =
     (case files (setting_path config_dir) of
        None \<Rightarrow> pm
      | Some text_of_file \<Rightarrow>
          (case jl_read L text_of_file of Inl e \<Rightarrow> pm | Inr j \<Rightarrow> load_items L (jproxy j) pm))"

definition settings_json :: "string list \<Rightarrow> params \<Rightarrow> json" where
  "settings_json ks pm = jobj (map (\<lambda>p. (p_name p, param_value_to_json p)) (param_all ks pm))"

text \<open>The file is opened, and so emptied, before the document is printed into it.\<close>

definition save_camera_setting ::
    "json_lib \<Rightarrow> (string \<Rightarrow> bool) \<Rightarrow> string list \<Rightarrow> string \<Rightarrow> params \<Rightarrow>
     (string \<Rightarrow> string option) \<Rightarrow> (string \<Rightarrow> string option)" where
  "save_camera_setting L can_open ks config_dir pm files =
     (if can_open (setting_path config_dir)
      then files(setting_path config_dir \<mapsto>
             (case jl_dump2 L (settings_json ks pm) of Inl e \<Rightarrow> [] | Inr t \<Rightarrow> t))
      else files)"

section \<open>The defaults\<close>

lemmas registered_defs = register_parameters_def add_int_def add_enum_def register_parameter_def
  scene_illuminance_def Let_def

lemma registered_shape:
  assumes "register_parameters cfg Map.empty k = Some p"
  shows "p_name p = k" "p_value p = p_default_value p" "\<not> (\<exists>d. p_value p = Float d)"
    "value_ok p (p_value p) \<longleftrightarrow> (k = ''fps'' \<longrightarrow> 1 \<le> cap_fps cfg \<and> cap_fps cfg \<le> 120)"
  using assms
  by (auto simp: registered_defs value_ok_def same_type_def enum_allowed_def split: if_splits)

lemma registered_fps:
  "\<exists>p. register_parameters cfg Map.empty ''fps'' = Some p \<and> p_value p = Integer (cap_fps cfg) \<and>
     p_min p = Integer 1 \<and> p_max p = Integer 120 \<and> \<not> p_is_readonly p"
  by (simp add: registered_defs)

text \<open>
  The defaults the service registers are admitted by their own checks exactly if the
  configured frame rate is at most 120 (the loader accepts up to 240): with a higher rate the
  parameter starts out of its range, and writing that same value back is refused.
\<close>

theorem default_parameters_admitted:
  "(params_ok (register_parameters cfg Map.empty) \<longleftrightarrow> 1 \<le> cap_fps cfg \<and> cap_fps cfg \<le> 120) \<and>
   (fst (set_value ''fps'' (Integer (cap_fps cfg)) err (register_parameters cfg Map.empty)) \<longleftrightarrow>
      1 \<le> cap_fps cfg \<and> cap_fps cfg \<le> 120)"
proof
  have "params_ok (register_parameters cfg Map.empty) \<longleftrightarrow>
      (\<forall>k p. register_parameters cfg Map.empty k = Some p \<longrightarrow>
        (k = ''fps'' \<longrightarrow> 1 \<le> cap_fps cfg \<and> cap_fps cfg \<le> 120))"
    using registered_shape(1,4) [of cfg] unfolding params_ok_def by blast
  also have "\<dots> \<longleftrightarrow> 1 \<le> cap_fps cfg \<and> cap_fps cfg \<le> 120"
    using registered_fps [of cfg] by blast
  finally show "params_ok (register_parameters cfg Map.empty) \<longleftrightarrow>
      1 \<le> cap_fps cfg \<and> cap_fps cfg \<le> 120" .
  show "fst (set_value ''fps'' (Integer (cap_fps cfg)) err (register_parameters cfg Map.empty)) \<longleftrightarrow>
      1 \<le> cap_fps cfg \<and> cap_fps cfg \<le> 120"
    using registered_fps [of cfg]
    by (auto simp: set_value_cases admits_def value_ok_def same_type_def split: if_splits)
qed

section \<open>Settings survive a restart\<close>

text \<open>What a history of writes makes of a parameter: untouched, or holding an admitted value.\<close>

definition tuned :: "parameter \<Rightarrow> parameter \<Rightarrow> bool" where
  "tuned p q \<longleftrightarrow> q = p\<lparr>p_value := p_value q\<rparr> \<and> (q = p \<or> admits p (p_value q))"

lemma tuned_refl: "tuned p p"
  by (simp add: tuned_def)

lemma admits_after: "value_ok p w \<Longrightarrow> admits (p\<lparr>p_value := w\<rparr>) v \<longleftrightarrow> admits p v"
  by (simp add: admits_def value_ok_write)

lemma tuned_step:
  assumes "tuned p q" "admits q v"
  shows "tuned p (q\<lparr>p_value := v\<rparr>)"
proof -
  define w where "w = p_value q"
  have q: "q = p\<lparr>p_value := w\<rparr>" using assms(1) by (simp add: tuned_def w_def)
  have "admits p v"
  proof (cases "q = p")
    case False
    with assms(1) have "value_ok p w" by (simp add: tuned_def w_def admits_def)
    with assms(2) show ?thesis by (simp add: q admits_after)
  qed (use assms(2) in simp)
  then show ?thesis by (simp add: tuned_def q)
qed

definition history :: "(string \<times> param_value) list \<Rightarrow> params \<Rightarrow> params" where
  "history kvs pm = fold (\<lambda>kv m. snd (snd (set_value (fst kv) (snd kv) [] m))) kvs pm"

lemma history_writes: "history kvs pm = pstore.writes kvs pm"
  by (simp add: history_def pstore.writes_def param_write_eq)

lemma history_tuned:
  "pm k = Some p \<Longrightarrow> \<exists>q. history kvs pm k = Some q \<and> tuned p q"
  unfolding history_writes
  by (rule pstore.writes_rel [where R = tuned]) (simp_all add: tuned_step tuned_refl)

lemma history_dom: "dom (history kvs pm) = dom pm"
  using pstore.writes_dom [of kvs pm] by (auto simp: history_writes dom_def)

text \<open>The document lists the parameters by name, each with its value.\<close>

lemma map_of_values:
  "distinct ks \<Longrightarrow> map_of (map (\<lambda>k. (k, f k)) ks) k = (if k \<in> set ks then Some (f k) else None)"
  by (induction ks) auto

lemma om_ok_assignments: "om_ok m \<Longrightarrow> om_ok (foldl (\<lambda>m kv. om_upd (fst kv) (snd kv) m) m kvs)"
  by (induction kvs arbitrary: m) auto

lemma settings_members:
  assumes "enumerates ks pm" "\<And>k p. pm k = Some p \<Longrightarrow> p_name p = k"
  obtains m where "settings_json ks pm = JObj m" "distinct (map fst m)" "fst ` set m = dom pm"
    "\<forall>(k, v) \<in> set m. \<exists>p. pm k = Some p \<and> v = param_value_to_json p"
proof -
  let ?kvs = "map (\<lambda>k. (k, param_value_to_json (the (pm k)))) ks"
  let ?m = "foldl (\<lambda>m kv. om_upd (fst kv) (snd kv) m) [] ?kvs"
  have ks: "distinct ks" "set ks = dom pm" using assms(1) by (simp_all add: enumerates_def)
  have "map (\<lambda>p. (p_name p, param_value_to_json p)) (param_all ks pm) = ?kvs"
    using ks(2) assms(2) by (auto simp: param_all_def)
  then have j: "settings_json ks pm = JObj ?m" by (simp add: settings_json_def jobj_def)
  have ok: "om_ok ?m" by (rule om_ok_assignments) simp
  have "map_of ?m k = (if k \<in> dom pm then Some (param_value_to_json (the (pm k))) else None)" for k
  proof -
    have "rev ?kvs = map (\<lambda>k. (k, param_value_to_json (the (pm k)))) (rev ks)"
      by (simp add: rev_map)
    then show ?thesis
      using ks map_of_values [of "rev ks" "\<lambda>k. param_value_to_json (the (pm k))" k]
      by (simp add: map_of_assignments)
  qed
  note mo = this
  have d: "distinct (map fst ?m)" by (rule om_ok_distinct [OF ok])
  have "k \<in> fst ` set ?m \<longleftrightarrow> k \<in> dom pm" for k
    using mo [of k] map_of_eq_None_iff [of ?m k] by (auto split: if_splits)
  then have dm: "fst ` set ?m = dom pm" by blast
  have "\<exists>p. pm k = Some p \<and> v = param_value_to_json p" if "(k, v) \<in> set ?m" for k v
  proof -
    have "map_of ?m k = Some v" using d that by (simp add: map_of_is_SomeI)
    with mo [of k] show ?thesis by (auto split: if_splits)
  qed
  with that [OF j d dm] show thesis by blast
qed

lemma param_value_to_json_back:
  assumes "json_conv_ok L" "tuned p q" "\<not> (\<exists>d. p_value p = Float d)"
    and "\<And>n. p_value q = Integer n \<Longrightarrow> - (2 ^ 63) \<le> n \<and> n < 2 ^ 63"
  shows "typed_value L (p_value p) (param_value_to_json q) = Inr (p_value q)"
proof -
  have st: "same_type (p_value p) (p_value q)"
    using assms(2) by (auto simp: tuned_def admits_def value_ok_def same_type_def)
  show ?thesis
  proof (cases "p_value q")
    case (Integer n)
    with assms(1) assms(4) have "jl_int64 L (JInt n) = Inr n" by (simp add: json_conv_ok_def)
    with Integer st show ?thesis
      by (cases "p_value p") (simp_all add: typed_value_def param_value_to_json_def same_type_def)
  next
    case (Float d)
    with st assms(3) show ?thesis by (cases "p_value p") (simp_all add: same_type_def)
  next
    case (Enum x)
    with assms(1) have "jl_string L (JStr x) = Inr x" by (simp add: json_conv_ok_def)
    with Enum st show ?thesis
      by (cases "p_value p") (simp_all add: typed_value_def param_value_to_json_def same_type_def)
  qed
qed

lemma load_items_rebuild:
  assumes "distinct (map fst es)"
    and "\<forall>(k, v) \<in> set es. \<exists>p q. pm0 k = Some p \<and> pm k = Some q \<and> tuned p q \<and>
      typed_value L (p_value p) v = Inr (p_value q)"
    and "\<And>k. cur k = (if k \<in> fst ` set es then pm0 k else pm k)"
  shows "load_items L es cur = pm"
  using assms
proof (induction es arbitrary: cur)
  case Nil
  then show ?case by (simp add: fun_eq_iff)
next
  case (Cons e es)
  obtain k v where e: "e = (k, v)" by (cases e)
  then obtain p q where p: "pm0 k = Some p" and q: "pm k = Some q" and t: "tuned p q"
    and tv: "typed_value L (p_value p) v = Inr (p_value q)"
    using Cons.prems(2) by auto
  have ck: "cur k = Some p" using Cons.prems(3) [of k] e p by simp
  have qv: "q = p\<lparr>p_value := p_value q\<rparr>" using t by (simp add: tuned_def)
  have st: "snd (snd (set_value k (p_value q) [] cur)) = cur(k \<mapsto> q)"
  proof (cases "admits p (p_value q)")
    case True
    then show ?thesis by (simp add: set_value_cases ck) (metis qv)
  next
    case False
    then have "q = p" using t by (simp add: tuned_def)
    with ck have "cur(k \<mapsto> q) = cur" by (simp add: fun_eq_iff)
    with False show ?thesis by (simp add: set_value_cases ck)
  qed
  have "load_items L (e # es) cur = load_items L es (cur(k \<mapsto> q))"
    by (simp add: e param_get_def ck tv st)
  also have "\<dots> = pm"
  proof (rule Cons.IH)
    show "distinct (map fst es)" using Cons.prems(1) by simp
    show "\<forall>(k, v) \<in> set es. \<exists>p q. pm0 k = Some p \<and> pm k = Some q \<and> tuned p q \<and>
        typed_value L (p_value p) v = Inr (p_value q)"
      using Cons.prems(2) by simp
    show "(cur(k \<mapsto> q)) j = (if j \<in> fst ` set es then pm0 j else pm j)" for j
      using Cons.prems(1) Cons.prems(3) [of j] q e by (cases "j = k") auto
  qed
  finally show ?case .
qed

lemma history_registered:
  assumes "history kvs (register_parameters cfg Map.empty) k = Some q"
  obtains p where "register_parameters cfg Map.empty k = Some p" "tuned p q" "p_name q = k"
proof -
  let ?pm0 = "register_parameters cfg Map.empty"
  have "k \<in> dom ?pm0" using assms history_dom [of kvs ?pm0] by auto
  then obtain p where p: "?pm0 k = Some p" by (auto simp: domIff)
  obtain q' where "history kvs ?pm0 k = Some q'" "tuned p q'"
    using history_tuned [where pm = ?pm0 and k = k and p = p and kvs = kvs] p by blast
  with assms have t: "tuned p q" by simp
  then have "q = p\<lparr>p_value := p_value q\<rparr>" by (simp add: tuned_def)
  then have "p_name q = p_name (p\<lparr>p_value := p_value q\<rparr>)" by (rule arg_cong)
  also have "\<dots> = k" using registered_shape(1) [OF p] by simp
  finally show thesis using that p t by blast
qed

text \<open>
  C20. Tuned settings survive a restart: after any sequence of writes to the registered
  parameters, saving and then loading into freshly registered parameters restores the whole
  table, whatever the order of the members, provided the document prints and reads back (the
  integers are 64-bit values).
\<close>

theorem settings_survive_restart:
  assumes "json_conv_ok L" "pm = history kvs (register_parameters cfg Map.empty)" "enumerates ks pm"
    and "\<And>k p n. pm k = Some p \<Longrightarrow> p_value p = Integer n \<Longrightarrow> - (2 ^ 63) \<le> n \<and> n < 2 ^ 63"
    and "jl_dump2 L (settings_json ks pm) = Inr t" "jl_read L t = Inr (settings_json ks pm)"
    and "can_open (setting_path dir)"
  shows "load_camera_setting L (save_camera_setting L can_open ks dir pm files) dir
      (register_parameters cfg Map.empty) = pm"
proof -
  let ?pm0 = "register_parameters cfg Map.empty"
  have dom: "dom pm = dom ?pm0" by (simp add: assms(2) history_dom)
  have reg: "\<exists>p. ?pm0 k = Some p \<and> tuned p q \<and> p_name q = k" if "pm k = Some q" for k q
    using history_registered that by (metis assms(2))
  then have nm: "p_name q = k" if "pm k = Some q" for k q using that by blast
  obtain m where m: "settings_json ks pm = JObj m" "distinct (map fst m)" "fst ` set m = dom pm"
    "\<forall>(k, v) \<in> set m. \<exists>p. pm k = Some p \<and> v = param_value_to_json p"
    using settings_members [OF assms(3) nm] by blast
  have "load_items L m ?pm0 = pm"
  proof (rule load_items_rebuild [OF m(2)])
    have "\<exists>p q. ?pm0 k = Some p \<and> pm k = Some q \<and> tuned p q \<and>
        typed_value L (p_value p) v = Inr (p_value q)" if "(k, v) \<in> set m" for k v
    proof -
      obtain q where q: "pm k = Some q" "v = param_value_to_json q" using m(4) \<open>(k, v) \<in> set m\<close> by blast
      obtain p where p: "?pm0 k = Some p" "tuned p q" using reg [OF q(1)] by blast
      have "typed_value L (p_value p) v = Inr (p_value q)"
        unfolding q(2)
        by (rule param_value_to_json_back [OF assms(1) p(2) registered_shape(3) [OF p(1)]])
          (rule assms(4) [OF q(1)])
      with p q show ?thesis by blast
    qed
    then show "\<forall>(k, v) \<in> set m. \<exists>p q. ?pm0 k = Some p \<and> pm k = Some q \<and> tuned p q \<and>
        typed_value L (p_value p) v = Inr (p_value q)" by blast
    show "?pm0 k = (if k \<in> fst ` set m then ?pm0 k else pm k)" for k
      using dom m(3) by (cases "k \<in> dom pm") auto
  qed
  then show ?thesis
    by (simp add: load_camera_setting_def save_camera_setting_def assms(5,6,7) m(1) [symmetric])
      (simp add: m(1))
qed

text \<open>The names, and a library that prints and reads back one document.\<close>

definition all_names :: "string list" where
  "all_names = [''fps'', ''resolution'', ''depth_mode'', ''exposure_time'', ''gain'', ''analog_gain'',
     ''digital_gain'', ''auto_exposure_gain'', ''exposure_compensation'', ''denoising'',
     ''scene_illuminance'', ''mem_type'', ''target_fps_2d'', ''target_fps_3d'', ''target_fps_sensor'']"

lemma all_names_registered: "enumerates all_names (register_parameters cfg Map.empty)"
  by (auto simp: enumerates_def all_names_def registered_defs)

lemma history_enumerates: "enumerates ks pm \<Longrightarrow> enumerates ks (history kvs pm)"
  by (simp add: enumerates_def history_dom)

definition tuned_gain :: params where
  "tuned_gain = history [(''gain'', Integer 70)] (register_parameters config_default Map.empty)"

lemma tuned_gain_eq:
  "tuned_gain ''gain'' = map_option (\<lambda>p. p\<lparr>p_value := Integer 70\<rparr>)
     (register_parameters config_default Map.empty ''gain'')"
  "k \<noteq> ''gain'' \<Longrightarrow> tuned_gain k = register_parameters config_default Map.empty k"
  by (auto simp: tuned_gain_def history_def set_value_cases registered_defs admits_def value_ok_def
      same_type_def)

theorem settings_survive_restart_witness:
  "load_camera_setting (conv_lib (\<lambda>_. Inr (settings_json all_names tuned_gain)) (\<lambda>_. Inr ''{}''))
     (save_camera_setting (conv_lib (\<lambda>_. Inr (settings_json all_names tuned_gain)) (\<lambda>_. Inr ''{}''))
       (\<lambda>_. True) all_names ''config'' tuned_gain Map.empty) ''config''
     (register_parameters config_default Map.empty) = tuned_gain \<and>
   map_option p_value (tuned_gain ''gain'') = Some (Integer 70)"
proof
  show "map_option p_value (tuned_gain ''gain'') = Some (Integer 70)"
    by (simp add: tuned_gain_eq registered_defs)
  have i64: "- (2 ^ 63) \<le> n \<and> n < 2 ^ 63"
    if "tuned_gain k = Some p" "p_value p = Integer n" for k p n
    using that
    by (cases "k = ''gain''")
      (auto simp: tuned_gain_eq registered_defs config_default_def split: if_splits)
  show "load_camera_setting (conv_lib (\<lambda>_. Inr (settings_json all_names tuned_gain)) (\<lambda>_. Inr ''{}''))
     (save_camera_setting (conv_lib (\<lambda>_. Inr (settings_json all_names tuned_gain)) (\<lambda>_. Inr ''{}''))
       (\<lambda>_. True) all_names ''config'' tuned_gain Map.empty) ''config''
     (register_parameters config_default Map.empty) = tuned_gain"
  proof (rule settings_survive_restart [OF json_conv_ok_conv_lib tuned_gain_def, where t = "''{}''"])
    show "enumerates all_names tuned_gain"
      unfolding tuned_gain_def by (rule history_enumerates [OF all_names_registered])
    show "tuned_gain k = Some p \<Longrightarrow> p_value p = Integer n \<Longrightarrow> - (2 ^ 63) \<le> n \<and> n < 2 ^ 63" for k p n
      by (rule i64)
  qed (simp_all add: conv_lib_def)
qed

section \<open>Wiring, start and shutdown\<close>

text \<open>
  The components \<open>main\<close> owns (the channels and sessions start empty and are not listed). The
  engine holds the source and the pipeline.
\<close>

record 'z node =
  nd_config :: config
  nd_dir :: string
  nd_params :: params
  nd_engine :: engine
  nd_publisher :: "'z publisher"
  nd_files :: "string \<Rightarrow> string option"

text \<open>
  Everything up to the first \<open>start\<close>: \<open>None\<close> is exit code 1 for a configuration error. \<open>mkdir\<close> is
  \<open>create_directories\<close>. A failed load of the stereo directory is ignored, an exception is not.
\<close>

definition node_init ::
    "json_lib \<Rightarrow> (string \<Rightarrow> unit result) \<Rightarrow> (string \<Rightarrow> dir_entry list option result) \<Rightarrow>
     (string \<Rightarrow> byte list option) \<Rightarrow> 'z \<Rightarrow> (string \<Rightarrow> string option) \<Rightarrow> string \<Rightarrow> 'z node option result" where
  "node_init L mkdir listing bins z files config_dir =
     (case config_load L files config_dir [] of (cfg, err) \<Rightarrow>
        (if err \<noteq> [] then Inr None
         else
           rbind (mkdir ''log'') (\<lambda>_. rbind (mkdir ''status'') (\<lambda>_.
           let source = set_image_channels (cap_image_channels cfg)
                  (set_image_size (cap_image_width cfg) (cap_image_height cfg) data_source_new) in
            rbind (ds_load listing bins (cap_stereo_image_dir cfg) [] source) (\<lambda>r.
            rbind (pipeline_new (word_of_int (spsc_queue_size cfg))) (\<lambda>dp.
              Inr (Some \<lparr>nd_config = cfg, nd_dir = config_dir,
                nd_params = load_camera_setting L files config_dir (register_parameters cfg Map.empty),
                nd_engine = engine_new (snd (snd r)) dp,
                nd_publisher = publisher_new z cfg,
                nd_files = files\<rparr>)))))))"

text \<open>The three starts; \<open>Some 1\<close> is the exit code of a failure.\<close>

definition node_start ::
    "'z zmq_lib \<Rightarrow> start_env \<Rightarrow> 'z node \<Rightarrow> int option \<times> 'z node" where
  "node_start Z E n =
     (let p = publisher_start Z (nd_publisher n); n1 = n\<lparr>nd_publisher := snd p\<rparr> in
      if \<not> fst p then (Some 1, n1)
      else
        (let e = engine_start (nd_engine n1); n2 = n1\<lparr>nd_engine := snd e\<rparr> in
         if \<not> fst e then (Some 1, n2)
         else
           (case server_start E (ad_host (nd_config n2)) (ad_port (nd_config n2))
                   (ad_worker_threads (nd_config n2)) of
              None \<Rightarrow> (Some 1, n2)
            | Some w \<Rightarrow> (None, n2))))"

text \<open>
  The shutdown sequence. \<open>meanwhile\<close> is what the threads still do between the broadcast and the
  join of the capture thread; that the server's \<open>stop\<close> returns is assumed here.
\<close>

definition node_shutdown ::
    "'z zmq_lib \<Rightarrow> json_lib \<Rightarrow> (string \<Rightarrow> bool) \<Rightarrow> string list \<Rightarrow> (nat \<Rightarrow> int \<times> int) \<Rightarrow>
     ('z node \<Rightarrow> 'z node) \<Rightarrow> 'z node \<Rightarrow> 'z node result" where
  "node_shutdown Z L can_open ks clocks meanwhile n =
     rbind (publish_shutdown Z L clocks (nd_publisher n)) (\<lambda>pb.
       let n1 = meanwhile (n\<lparr>nd_publisher := pb\<rparr>);
           e1 = engine_stop (nd_engine n1);
           e2 = e1\<lparr>ce_pipeline := dp_drain (ce_pipeline e1)\<rparr>;
           n2 = n1\<lparr>nd_engine := e2, nd_publisher := publisher_stop (nd_publisher n1)\<rparr>
       in Inr (n2\<lparr>nd_files :=
                 save_camera_setting L can_open ks (nd_dir n2) (nd_params n2) (nd_files n2)\<rparr>))"

lemma publisher_start_running: "fst (publisher_start Z pb) \<Longrightarrow> pb_running (snd (publisher_start Z pb))"
  by (auto simp: publisher_start_def Let_def split: if_splits)

lemma node_init_pipeline:
  assumes "node_init L mkdir listing bins z files config_dir = Inr (Some n)"
  shows "dp_at 0 (ce_pipeline (nd_engine n)) \<and> dp_items (ce_pipeline (nd_engine n)) = (\<lambda>_. []) \<and>
    \<not> ce_running (nd_engine n) \<and> \<not> pb_running (nd_publisher n) \<and>
    nd_params n = load_camera_setting L files config_dir
      (register_parameters (nd_config n) Map.empty) \<and>
    config_load L files config_dir [] = (nd_config n, [])"
proof -
  obtain cfg err where c: "config_load L files config_dir [] = (cfg, err)"
    by (cases "config_load L files config_dir []")
  have e: "err = []" using assms by (cases "err = []") (simp_all add: node_init_def c)
  obtain r dp where d: "pipeline_new (word_of_int (spsc_queue_size cfg)) = Inr dp"
    and n: "n = \<lparr>nd_config = cfg, nd_dir = config_dir,
      nd_params = load_camera_setting L files config_dir (register_parameters cfg Map.empty),
      nd_engine = engine_new (snd (snd r)) dp, nd_publisher = publisher_new z cfg, nd_files = files\<rparr>"
    using assms by (auto simp: node_init_def c e Let_def rbind_eq_Inr)
  show ?thesis
    using pipeline_new_at(1,2) [OF d]
    by (simp add: n c e engine_new_def publisher_new_def)
qed

lemma node_start_running:
  assumes "fst (node_start Z E n) = None"
  shows "pb_running (nd_publisher (snd (node_start Z E n))) \<and>
    ce_running (nd_engine (snd (node_start Z E n))) \<and>
    server_start E (ad_host (nd_config n)) (ad_port (nd_config n))
      (ad_worker_threads (nd_config n)) \<noteq> None"
  using assms publisher_start_running [of Z "nd_publisher n"]
  by (auto simp: node_start_def Let_def engine_start_def split: if_splits option.splits)

lemma stopped [simp]:
  "ce_pipeline (engine_stop e) = ce_pipeline e" "\<not> ce_running (engine_stop e)"
  "\<not> pb_running (publisher_stop p)"
  by (auto simp: engine_stop_def publisher_stop_def)

lemma node_shutdown_quiet:
  assumes "node_shutdown Z L can_open ks clocks meanwhile m = Inr m'"
    and "\<And>x. dp_at k (ce_pipeline (nd_engine (meanwhile x)))"
    and "\<And>x. can_open (setting_path (nd_dir (meanwhile x)))"
  shows "\<not> ce_running (nd_engine m') \<and> \<not> pb_running (nd_publisher m') \<and>
    dp_items (ce_pipeline (nd_engine m')) = (\<lambda>_. []) \<and>
    (\<forall>t. jl_dump2 L (settings_json ks (nd_params m')) = Inr t \<longrightarrow>
       nd_files m' (setting_path (nd_dir m')) = Some t)"
proof -
  obtain pb where pb: "publish_shutdown Z L clocks (nd_publisher m) = Inr pb"
    using assms(1) by (auto simp: node_shutdown_def rbind_eq_Inr)
  let ?n1 = "meanwhile (m\<lparr>nd_publisher := pb\<rparr>)"
  have m': "m' = ?n1\<lparr>nd_engine := (engine_stop (nd_engine ?n1))
        \<lparr>ce_pipeline := dp_drain (ce_pipeline (nd_engine ?n1))\<rparr>,
      nd_publisher := publisher_stop (nd_publisher ?n1),
      nd_files := save_camera_setting L can_open ks (nd_dir ?n1) (nd_params ?n1) (nd_files ?n1)\<rparr>"
    using assms(1) by (simp add: node_shutdown_def pb Let_def)
  show ?thesis
    using dp_drain_spec [OF assms(2)] assms(3) by (simp add: m' save_camera_setting_def)
qed

text \<open>
  The service's life cycle: a configuration error exits before anything is started; an
  initialised service has empty queues and both threads stopped; a start that succeeds leaves
  both threads running; and after a shutdown, whatever the threads did meanwhile to a sound
  pipeline, both are stopped, every queue is empty and the settings file holds the printed
  parameters.
\<close>

theorem service_lifecycle:
  assumes "node_init L mkdir listing bins z files config_dir = Inr (Some n)"
  shows "snd (config_load L files config_dir []) = [] \<and>
    dp_items (ce_pipeline (nd_engine n)) = (\<lambda>_. []) \<and>
    (fst (node_start Z E n) = None \<longrightarrow>
       pb_running (nd_publisher (snd (node_start Z E n))) \<and>
       ce_running (nd_engine (snd (node_start Z E n))) \<and>
       server_start E (ad_host (nd_config n)) (ad_port (nd_config n))
         (ad_worker_threads (nd_config n)) \<noteq> None) \<and>
    (\<forall>m m' k. node_shutdown Z L can_open ks clocks meanwhile m = Inr m' \<and>
       (\<forall>x. dp_at k (ce_pipeline (nd_engine (meanwhile x)))) \<and>
       (\<forall>x. can_open (setting_path (nd_dir (meanwhile x)))) \<longrightarrow>
       \<not> ce_running (nd_engine m') \<and> \<not> pb_running (nd_publisher m') \<and>
       dp_items (ce_pipeline (nd_engine m')) = (\<lambda>_. []) \<and>
       (\<forall>t. jl_dump2 L (settings_json ks (nd_params m')) = Inr t \<longrightarrow>
          nd_files m' (setting_path (nd_dir m')) = Some t))"
  using node_init_pipeline [OF assms] node_start_running node_shutdown_quiet
  by (simp add: node_start_running) blast

theorem service_lifecycle_witness:
  "\<exists>n :: unit node. node_init (sample_lib 8443) (\<lambda>_. Inr ()) (\<lambda>_. Inr None) (\<lambda>_. None) () sample_files ''config'' =
      Inr (Some n) \<and> dp_items (ce_pipeline (nd_engine n)) = (\<lambda>_. [])"
proof -
  have c: "config_load (sample_lib 8443) sample_files ''config'' [] = (sample_config 8443, [])"
    by (rule sample_load) (simp_all add: in_int32_def)
  have d: "ds_load (\<lambda>_. Inr None) (\<lambda>_. None) (cap_stereo_image_dir (sample_config 8443)) [] ds =
      Inr (True, [], ds)" for ds
    by (simp add: ds_load_def sample_config_def config_default_def)
  obtain dp where p: "pipeline_new (word_of_int (spsc_queue_size (sample_config 8443))) = Inr dp"
    by (simp add: sample_config_def config_default_def pipeline_new_def queue_new_def
        queue_max_size_def)
  obtain n :: "unit node" where
    n: "node_init (sample_lib 8443) (\<lambda>_. Inr ()) (\<lambda>_. Inr None) (\<lambda>_. None) () sample_files ''config'' = Inr (Some n)"
    by (simp add: node_init_def c d p Let_def)
  with service_lifecycle [OF n] show ?thesis by blast
qed

end
