(* ===== verification/MainProgram.thy ===== *)
theory MainProgram
  imports Service
begin

text \<open>
  \<open>main\<close> of \<open>src/main.cpp\<close> from the command line to its return value, with the destructors that
  run when it returns. The ZeroMQ context is part of the library state: \<open>zc_destroy\<close> is
  \<open>zmq_ctx_destroy\<close>, \<open>None\<close> when the call does not return; its first argument tells whether a signal
  handler interrupts it. What the other threads do while \<open>main\<close>
  waits is an argument.
\<close>

section \<open>Closing sockets\<close>

record 'z ctx_lib =
  zc_close :: "nat \<Rightarrow> 'z \<Rightarrow> 'z"
  zc_destroy :: "bool \<Rightarrow> 'z \<Rightarrow> 'z option"

definition close_sock :: "'z ctx_lib \<Rightarrow> data_group \<Rightarrow> 'z publisher \<Rightarrow> 'z publisher" where
  "close_sock C g pb =
     (case pb_sock pb g of
        None \<Rightarrow> pb
      | Some s \<Rightarrow> pb\<lparr>pb_zmq := zc_close C s (pb_zmq pb)\<rparr>)"

definition publisher_destroy :: "'z ctx_lib \<Rightarrow> 'z publisher \<Rightarrow> 'z publisher" where
  "publisher_destroy C pb =
     close_sock C SensorData (close_sock C Visual3D (close_sock C Visual2D (publisher_stop pb)))"

text \<open>
  The objects of \<open>main\<close> are destroyed in the reverse order of their construction: the server, the
  engine, the publisher (the others have nothing to do).
\<close>

definition node_destroy :: "'z ctx_lib \<Rightarrow> 'z node \<Rightarrow> 'z node" where
  "node_destroy C n =
     (let n1 = n\<lparr>nd_engine := engine_stop (nd_engine n)\<rparr>
      in n1\<lparr>nd_publisher := publisher_destroy C (nd_publisher n1)\<rparr>)"

section \<open>The program\<close>

text \<open>
  The loop \<open>while (g_signal.load() == 0)\<close>: \<open>sig i\<close> tells whether a handler has stored a signal by
  the \<open>i\<close>-th reading. Without a signal it does not end.
\<close>

partial_function (option) wait_signal :: "(nat \<Rightarrow> bool) \<Rightarrow> nat \<Rightarrow> nat option" where
  "wait_signal sig i = (if sig i then Some i else wait_signal sig (i + 1))"

definition config_dir_of :: "string list \<Rightarrow> string" where
  "config_dir_of argv = (if 1 < length argv then argv ! 1 else ''config'')"

datatype 'z main_end = Returned int "'z node option" | Terminate exn

definition run_node ::
    "'z zmq_lib \<Rightarrow> 'z ctx_lib \<Rightarrow> json_lib \<Rightarrow> (nat \<Rightarrow> bool) \<Rightarrow> bool \<Rightarrow> (string \<Rightarrow> bool) \<Rightarrow> string list \<Rightarrow>
     (nat \<Rightarrow> int \<times> int) \<Rightarrow> ('z node \<Rightarrow> 'z node) \<Rightarrow> ('z node \<Rightarrow> 'z node) \<Rightarrow> 'z node \<Rightarrow> 'z main_end option" where
  "run_node Z C L sig intr can_open ks clocks running meanwhile n =
     (case wait_signal sig 0 of
        None \<Rightarrow> None
      | Some k \<Rightarrow>
          (case node_shutdown Z L can_open ks clocks meanwhile (running n) of
             Inl e \<Rightarrow> Some (Terminate e)
           | Inr n2 \<Rightarrow>
               (case zc_destroy C intr (pb_zmq (nd_publisher n2)) of
                  None \<Rightarrow> None
                | Some z \<Rightarrow>
                    Some (Returned 0 (Some (node_destroy C
                      (n2\<lparr>nd_publisher := (nd_publisher n2)\<lparr>pb_zmq := z\<rparr>\<rparr>)))))))"

definition main_program ::
    "'z zmq_lib \<Rightarrow> 'z ctx_lib \<Rightarrow> json_lib \<Rightarrow> start_env \<Rightarrow> (string \<Rightarrow> unit result) \<Rightarrow>
     (string \<Rightarrow> dir_entry list option result) \<Rightarrow>
     (string \<Rightarrow> byte list option) \<Rightarrow> 'z \<Rightarrow> (string \<Rightarrow> string option) \<Rightarrow> string list \<Rightarrow>
     (nat \<Rightarrow> bool) \<Rightarrow> bool \<Rightarrow> (string \<Rightarrow> bool) \<Rightarrow> string list \<Rightarrow> (nat \<Rightarrow> int \<times> int) \<Rightarrow>
     ('z node \<Rightarrow> 'z node) \<Rightarrow> ('z node \<Rightarrow> 'z node) \<Rightarrow> 'z main_end option" where
  "main_program Z C L E mkdir listing bins z files argv sig intr can_open ks clocks running meanwhile =
     (case node_init L mkdir listing bins z files (config_dir_of argv) of
        Inl e \<Rightarrow> Some (Terminate e)
      | Inr None \<Rightarrow> Some (Returned 1 None)
      | Inr (Some n) \<Rightarrow>
          (case node_start Z E n of
             (Some code, n1) \<Rightarrow> Some (Returned code (Some (node_destroy C n1)))
           | (None, n1) \<Rightarrow> run_node Z C L sig intr can_open ks clocks running meanwhile n1))"

lemma wait_signal_next: "\<not> sig i \<Longrightarrow> wait_signal sig i = wait_signal sig (Suc i)"
  by (subst wait_signal.simps) simp

lemma wait_signal_first:
  "sig (i + k) \<Longrightarrow> (\<And>j. j < k \<Longrightarrow> \<not> sig (i + j)) \<Longrightarrow> wait_signal sig i = Some (i + k)"
proof (induction k arbitrary: i)
  case 0
  then show ?case by (subst wait_signal.simps) simp
next
  case (Suc k)
  have "\<not> sig i" using Suc.prems(2) [of 0] by simp
  moreover have "wait_signal sig (Suc i) = Some (Suc i + k)"
    using Suc.prems(1) Suc.prems(2) [of "Suc j" for j] by (intro Suc.IH) simp_all
  ultimately show ?case using wait_signal_next [of sig i] by simp
qed

lemma wait_signal_returns: "sig k \<Longrightarrow> \<exists>i \<le> k. wait_signal sig 0 = Some i \<and> sig i"
proof -
  assume "sig k"
  define i where "i = (LEAST i. sig i)"
  have "sig i" "i \<le> k" using \<open>sig k\<close> by (simp_all add: i_def LeastI Least_le)
  moreover have "\<not> sig j" if "j < i" for j using that not_less_Least by (simp add: i_def)
  ultimately show ?thesis using wait_signal_first [of sig 0 i] by auto
qed

lemma wait_signal_sound: "wait_signal sig i = Some k \<Longrightarrow> sig k"
  by (rule wait_signal.raw_induct [where P = "\<lambda>sig i k. sig k"]) (auto split: if_splits)

section \<open>What the program relies on of the context\<close>

text \<open>
  \<open>opn z\<close> is the set of open sockets of the context. Creating a socket adds it, configuring, binding
  and sending keep the set, closing removes a socket, and \<open>zmq_ctx_destroy\<close> does not return as long
  as a socket of the context is open (it "shall block until all sockets open within context have
  been closed with zmq_close()", reference manual of ZeroMQ) unless a signal interrupts it (error
  EINTR); with none open it returns. It closes no socket.
\<close>

definition ctx_ok :: "'z zmq_lib \<Rightarrow> 'z ctx_lib \<Rightarrow> ('z \<Rightarrow> nat set) \<Rightarrow> bool" where
  "ctx_ok Z C opn \<longleftrightarrow>
     (\<forall>z s z'. z_socket Z z = (Some s, z') \<longrightarrow> opn z' = insert s (opn z)) \<and>
     (\<forall>z z'. z_socket Z z = (None, z') \<longrightarrow> opn z' = opn z) \<and>
     (\<forall>s k v z. opn (z_setsockopt Z s k v z) = opn z) \<and>
     (\<forall>s e z. opn (snd (z_bind Z s e z)) = opn z) \<and>
     (\<forall>s d m z. opn (snd (z_send Z s d m z)) = opn z) \<and>
     (\<forall>s z. opn (zc_close C s z) = opn z - {s}) \<and>
     (\<forall>b z z'. zc_destroy C b z = Some z' \<longrightarrow> opn z' = opn z) \<and>
     (\<forall>b z. zc_destroy C b z = None \<longleftrightarrow> \<not> b \<and> opn z \<noteq> {})"

lemma ctx_okD:
  assumes "ctx_ok Z C opn"
  shows "z_socket Z z = (Some s, z') \<Longrightarrow> opn z' = insert s (opn z)"
    and "z_socket Z z = (None, z') \<Longrightarrow> opn z' = opn z"
    and "opn (z_setsockopt Z s k v z) = opn z"
    and "opn (snd (z_bind Z s e z)) = opn z"
    and "opn (snd (z_send Z s d m z)) = opn z"
    and "opn (zc_close C s z) = opn z - {s}"
    and "zc_destroy C b z = Some z' \<Longrightarrow> opn z' = opn z"
    and "zc_destroy C b z = None \<longleftrightarrow> \<not> b \<and> opn z \<noteq> {}"
  using assms by (simp_all add: ctx_ok_def)

text \<open>
  The open sockets are exactly those the publisher holds. Every operation of the publisher, its
  destructor apart, keeps this.
\<close>

definition held :: "'z publisher \<Rightarrow> nat set" where
  "held pb = ran (pb_sock pb)"

definition owns :: "('z \<Rightarrow> nat set) \<Rightarrow> 'z publisher \<Rightarrow> bool" where
  "owns opn pb \<longleftrightarrow> opn (pb_zmq pb) = held pb"

definition same_sockets :: "('z \<Rightarrow> nat set) \<Rightarrow> 'z publisher \<Rightarrow> 'z publisher \<Rightarrow> bool" where
  "same_sockets opn p q \<longleftrightarrow> pb_sock q = pb_sock p \<and> opn (pb_zmq q) = opn (pb_zmq p)"

definition keeps_sockets :: "('z \<Rightarrow> nat set) \<Rightarrow> ('z node \<Rightarrow> 'z node) \<Rightarrow> bool" where
  "keeps_sockets opn f \<longleftrightarrow> (\<forall>n. same_sockets opn (nd_publisher n) (nd_publisher (f n)))"

named_theorems sockets

lemma same_sockets_refl [simp, intro]: "same_sockets opn p p"
  by (simp add: same_sockets_def)

lemma same_sockets_trans [trans]:
  "same_sockets opn p q \<Longrightarrow> same_sockets opn q r \<Longrightarrow> same_sockets opn p r"
  by (simp add: same_sockets_def)

lemma same_sockets_owns: "same_sockets opn p q \<Longrightarrow> owns opn p \<Longrightarrow> owns opn q"
  by (simp add: same_sockets_def owns_def held_def)

lemma send_frame_sockets:
  "ctx_ok Z C opn \<Longrightarrow> same_sockets opn p (snd (send_frame Z s d m p))"
  by (simp add: send_frame_def same_sockets_def Let_def ctx_okD(5))

lemma send_ctrl_sockets:
  assumes "ctx_ok Z C opn" "send_ctrl Z L c sock p = Inr q"
  shows "same_sockets opn p q"
proof (cases sock)
  case None
  then show ?thesis using assms(2) by (simp add: send_ctrl_def)
next
  case (Some s)
  then obtain t where "q = (let r = send_frame Z s (text_bytes t) False p
      in if 0 \<le> fst r then (snd r)\<lparr>pb_shutdown_sent := pb_shutdown_sent (snd r) + 1\<rparr> else snd r)"
    using assms(2) by (auto simp: send_ctrl_def rbind_eq_Inr Let_def)
  moreover have "same_sockets opn p (snd (send_frame Z s (text_bytes t) False p))"
    by (rule send_frame_sockets [OF assms(1)])
  ultimately show ?thesis by (simp add: same_sockets_def Let_def)
qed

lemma publish_shutdown_sockets:
  assumes "ctx_ok Z C opn" "publish_shutdown Z L clocks p = Inr q"
  shows "same_sockets opn p q"
proof -
  obtain p1 p2 where "send_ctrl Z L (clocks 0) (pb_sock p Visual2D) p = Inr p1"
    and "send_ctrl Z L (clocks 1) (pb_sock p Visual3D) p1 = Inr p2"
    and "send_ctrl Z L (clocks 2) (pb_sock p SensorData) p2 = Inr q"
    using assms(2) by (auto simp: publish_shutdown_def rbind_eq_Inr)
  then show ?thesis
    by (meson assms(1) same_sockets_trans send_ctrl_sockets)
qed

lemma configure_pub_sockets:
  "ctx_ok Z C opn \<Longrightarrow> same_sockets opn p (configure_pub Z g p)"
  by (simp add: configure_pub_def same_sockets_def ctx_okD(3) split: option.split)

lemma bind_one_sockets:
  "ctx_ok Z C opn \<Longrightarrow> same_sockets opn p (snd (bind_one Z g p))"
  by (simp add: bind_one_def same_sockets_def Let_def ctx_okD(4) split: option.split)

lemma open_sock_owns:
  assumes "ctx_ok Z C opn" "owns opn p" "pb_sock p g = None"
  shows "owns opn (open_sock Z g p)"
proof (cases "z_socket Z (pb_zmq p)")
  case (Pair r z')
  show ?thesis
  proof (cases r)
    case None
    with Pair have "opn z' = opn (pb_zmq p)" using ctx_okD(2) [OF assms(1)] by blast
    moreover have "held (open_sock Z g p) = held p"
      using assms(3) by (simp add: held_def open_sock_def Pair None fun_upd_idem)
    ultimately show ?thesis
      using assms(2) by (simp add: owns_def open_sock_def Pair)
  next
    case (Some s)
    with Pair have "opn z' = insert s (opn (pb_zmq p))" using ctx_okD(1) [OF assms(1)] by blast
    moreover have "held (open_sock Z g p) = insert s (held p)"
      using assms(3) by (simp add: held_def open_sock_def Pair Some)
    ultimately show ?thesis
      using assms(2) by (simp add: owns_def open_sock_def Pair)
  qed
qed

lemma open_sock_other [simp]: "g' \<noteq> g \<Longrightarrow> pb_sock (open_sock Z g p) g' = pb_sock p g'"
  by (simp add: open_sock_def Let_def)

text \<open>A start of a publisher without sockets, successful or not.\<close>

lemma publisher_start_owns:
  assumes ok: "ctx_ok Z C opn" and "opn (pb_zmq p) = {}" "pb_sock p = (\<lambda>_. None)"
  shows "owns opn (snd (publisher_start Z p))"
    and "fst (publisher_start Z p) \<Longrightarrow> held (snd (publisher_start Z p)) \<noteq> {}"
proof -
  define p3 where "p3 = open_sock Z SensorData (open_sock Z Visual3D (open_sock Z Visual2D p))"
  have o0: "owns opn p" using assms(2,3) by (simp add: owns_def held_def)
  have o3: "owns opn p3"
    unfolding p3_def using assms(3)
    by (intro open_sock_owns [OF ok]) (simp_all add: o0)
  define q where "q = configure_pub Z SensorData (configure_pub Z Visual3D (configure_pub Z Visual2D p3))"
  have sq: "same_sockets opn p3 q"
    unfolding q_def by (meson configure_pub_sockets ok same_sockets_trans)
  define b1 where "b1 = bind_one Z Visual2D q"
  define b2 where "b2 = bind_one Z Visual3D (snd b1)"
  define b3 where "b3 = bind_one Z SensorData (snd b2)"
  have s1: "same_sockets opn p3 (snd b1)"
    unfolding b1_def by (rule same_sockets_trans [OF sq bind_one_sockets [OF ok]])
  have s2: "same_sockets opn p3 (snd b2)"
    unfolding b2_def by (rule same_sockets_trans [OF s1 bind_one_sockets [OF ok]])
  have s3: "same_sockets opn p3 (snd b3)"
    unfolding b3_def by (rule same_sockets_trans [OF s2 bind_one_sockets [OF ok]])
  have start: "publisher_start Z p =
      (if pb_running p then (False, p)
       else if pb_sock p3 Visual2D = None \<or> pb_sock p3 Visual3D = None \<or> pb_sock p3 SensorData = None
       then (False, p3)
       else if \<not> fst b1 then (False, snd b1)
       else if \<not> fst b2 then (False, snd b2)
       else if \<not> fst b3 then (False, snd b3)
       else (True, (snd b3)\<lparr>pb_running := True\<rparr>))"
    by (simp only: publisher_start_def p3_def q_def b1_def b2_def b3_def Let_def)
  have run: "owns opn (x\<lparr>pb_running := True\<rparr>) \<longleftrightarrow> owns opn x"
    "held (x\<lparr>pb_running := True\<rparr>) = held x" for x
    by (simp_all add: owns_def held_def)
  note owned = same_sockets_owns [OF s1 o3] same_sockets_owns [OF s2 o3] same_sockets_owns [OF s3 o3]
  show "owns opn (snd (publisher_start Z p))"
    unfolding start using o0 o3 owned by (simp add: run)
  show "held (snd (publisher_start Z p)) \<noteq> {}" if "fst (publisher_start Z p)"
    using that s3 unfolding start by (auto simp: run held_def same_sockets_def ran_def split: if_splits)
qed

text \<open>What the publishing thread does keeps the sockets as well.\<close>

lemma send_parts_sockets:
  assumes ok: "ctx_ok Z C opn"
  shows "same_sockets opn p (snd (send_parts Z s ds p))"
proof (induction ds arbitrary: p)
  case (Cons d ds)
  let ?r = "send_frame Z s d (ds \<noteq> []) p"
  have f: "same_sockets opn p (snd ?r)" by (rule send_frame_sockets [OF ok])
  moreover have "same_sockets opn x (count_drop x)" for x
    by (simp add: same_sockets_def count_drop_def)
  ultimately show ?case
    using same_sockets_trans [OF f] Cons.IH [of "snd ?r"] by (simp add: Let_def)
qed simp

lemma send_multipart_sockets:
  assumes ok: "ctx_ok Z C opn" and "send_multipart Z L c1 c2 s f p = Inr r"
  shows "same_sockets opn p (snd r)"
proof -
  obtain t where t: "jl_dump L (header_json (pb_pub_id p) c1 c2 f) = Inr t"
    using assms(2) by (auto simp: send_multipart_def rbind_eq_Inr)
  let ?r = "send_frame Z s (text_bytes t) (cf_bundles f \<noteq> []) p"
  have f: "same_sockets opn p (snd ?r)" by (rule send_frame_sockets [OF ok])
  have g: "same_sockets opn p (snd (send_parts Z s (map b_data (cf_bundles f)) (snd ?r)))"
    by (rule same_sockets_trans [OF f send_parts_sockets [OF ok]])
  show ?thesis
    using assms(2) f g
    by (auto simp: send_multipart_def t Let_def same_sockets_def count_drop_def count_sent_def
        split: if_splits)
qed

lemma send_group_sockets:
  assumes ok: "ctx_ok Z C opn" and "send_group Z L c1 c2 f p = Inr q"
  shows "same_sockets opn p q"
  using assms(2) send_multipart_sockets [OF ok]
  by (fastforce simp: send_group_def rbind_eq_Inr split: option.splits)

lemma send_all_frames_sockets:
  assumes ok: "ctx_ok Z C opn"
  shows "send_all_frames Z L clocks fs p = Inr q \<Longrightarrow> same_sockets opn p q"
proof (induction fs arbitrary: clocks p)
  case (Cons fr fs)
  show ?case
  proof (cases fr)
    case None
    then show ?thesis using Cons by simp
  next
    case (Some f)
    then obtain p' where g: "send_group Z L (fst (clocks 0)) (snd (clocks 0)) f p = Inr p'"
      and r: "send_all_frames Z L (\<lambda>i. clocks (Suc i)) fs p' = Inr q"
      using Cons.prems by (auto simp: rbind_eq_Inr)
    show ?thesis by (rule same_sockets_trans [OF send_group_sockets [OF ok g] Cons.IH [OF r]])
  qed
qed simp

lemma publish_round_sockets:
  assumes "ctx_ok Z C opn" "publish_round Z L clocks arrivals dp p = Inr (dp', q)"
  shows "same_sockets opn p q"
  using assms(2) send_all_frames_sockets [OF assms(1)]
  by (fastforce simp: publish_round_def rbind_eq_Inr split: prod.splits if_splits)

section \<open>How the program ends\<close>

lemma publisher_stop_sockets [simp]:
  "pb_sock (publisher_stop p) = pb_sock p" "pb_zmq (publisher_stop p) = pb_zmq p"
  by (simp_all add: publisher_stop_def)

lemma close_sock_opn:
  assumes "ctx_ok Z C opn"
  shows "opn (pb_zmq (close_sock C g p)) = opn (pb_zmq p) - {s. pb_sock p g = Some s}"
    and "pb_sock (close_sock C g p) = pb_sock p"
  by (auto simp: close_sock_def ctx_okD(6) [OF assms] split: option.split)

lemma publisher_destroy_releases:
  assumes ok: "ctx_ok Z C opn" and "owns opn p"
  shows "opn (pb_zmq (publisher_destroy C p)) = {}"
proof -
  have "\<exists>g \<in> {Visual2D, Visual3D, SensorData}. pb_sock p g = Some s" if "s \<in> held p" for s
    using that by (auto simp: held_def ran_def) (metis data_group.exhaust)
  then show ?thesis
    using assms(2) by (auto simp: publisher_destroy_def close_sock_opn [OF ok] owns_def)
qed

lemma node_init_publisher:
  "node_init L mkdir listing bins z files config_dir = Inr (Some n) \<Longrightarrow>
     pb_zmq (nd_publisher n) = z \<and> pb_sock (nd_publisher n) = (\<lambda>_. None)"
  by (auto simp: node_init_def Let_def rbind_eq_Inr publisher_new_def split: prod.splits if_splits)

lemma node_start_publisher:
  "nd_publisher (snd (node_start Z E n)) = snd (publisher_start Z (nd_publisher n))"
  "fst (node_start Z E n) = None \<Longrightarrow> fst (publisher_start Z (nd_publisher n))"
  "fst (node_start Z E n) = Some c \<Longrightarrow> c = 1"
  by (auto simp: node_start_def Let_def split: if_splits option.splits)

text \<open>What the shutdown sequence leaves: the sockets the publisher held when the signal came.\<close>

lemma node_shutdown_sockets:
  assumes ok: "ctx_ok Z C opn" and k: "keeps_sockets opn meanwhile"
    and d: "node_shutdown Z L can_open ks clocks meanwhile n = Inr m"
  shows "same_sockets opn (nd_publisher n) (nd_publisher m)"
proof -
  obtain pb where pb: "publish_shutdown Z L clocks (nd_publisher n) = Inr pb"
    and m: "nd_publisher m = publisher_stop (nd_publisher (meanwhile (n\<lparr>nd_publisher := pb\<rparr>)))"
    using d by (auto simp: node_shutdown_def rbind_eq_Inr Let_def)
  have "same_sockets opn (nd_publisher n) pb" by (rule publish_shutdown_sockets [OF ok pb])
  moreover have "same_sockets opn (nd_publisher (n\<lparr>nd_publisher := pb\<rparr>))
      (nd_publisher (meanwhile (n\<lparr>nd_publisher := pb\<rparr>)))"
    using k unfolding keeps_sockets_def by blast
  ultimately show ?thesis by (simp add: m same_sockets_def)
qed

lemma started_shutdown_owns:
  assumes ok: "ctx_ok Z C opn" and z: "opn z = {}"
    and r: "keeps_sockets opn running" and k: "keeps_sockets opn meanwhile"
    and i: "node_init L mkdir listing bins z files config_dir = Inr (Some n)"
    and s: "node_start Z E n = (None, n1)"
    and d: "node_shutdown Z L can_open ks clocks meanwhile (running n1) = Inr m"
  shows "owns opn (nd_publisher m)" and "opn (pb_zmq (nd_publisher m)) \<noteq> {}"
proof -
  note p = node_init_publisher [OF i]
  have n1: "owns opn (nd_publisher n1)" "held (nd_publisher n1) \<noteq> {}"
    using publisher_start_owns [OF ok, of "nd_publisher n" for n] p z node_start_publisher [of Z E n] s
    by auto
  have m: "same_sockets opn (nd_publisher n1) (nd_publisher m)"
    using node_shutdown_sockets [OF ok k d] r same_sockets_trans
    unfolding keeps_sockets_def by blast
  show "owns opn (nd_publisher m)" by (rule same_sockets_owns [OF m n1(1)])
  then show "opn (pb_zmq (nd_publisher m)) \<noteq> {}"
    using n1(2) m by (simp add: owns_def same_sockets_def held_def)
qed

lemma run_node_result:
  assumes "run_node Z C L sig intr can_open ks clocks running meanwhile n = Some (Returned c r)"
  obtains m z' where "wait_signal sig 0 \<noteq> None" "node_shutdown Z L can_open ks clocks meanwhile (running n) = Inr m"
    "zc_destroy C intr (pb_zmq (nd_publisher m)) = Some z'" "c = 0"
    "r = Some (node_destroy C (m\<lparr>nd_publisher := (nd_publisher m)\<lparr>pb_zmq := z'\<rparr>\<rparr>))"
  using assms by (auto simp: run_node_def split: option.splits sum.splits)

lemma started_main_hangs:
  assumes ok: "ctx_ok Z C opn" and z: "opn z = {}"
    and r: "keeps_sockets opn running" and k: "keeps_sockets opn meanwhile"
    and i: "node_init L mkdir listing bins z files (config_dir_of argv) = Inr (Some n)"
    and s: "node_start Z E n = (None, n1)"
    and d: "node_shutdown Z L can_open ks clocks meanwhile (running n1) = Inr m"
  shows "main_program Z C L E mkdir listing bins z files argv sig False can_open ks clocks running meanwhile =
       None"
    and "sig i \<Longrightarrow> \<exists>r. main_program Z C L E mkdir listing bins z files argv sig True can_open ks clocks running
       meanwhile = Some (Returned 0 (Some r))"
    and "zc_destroy C False (pb_zmq (publisher_destroy C (nd_publisher m))) \<noteq> None"
proof -
  note o = started_shutdown_owns [OF ok z r k i s d]
  have "zc_destroy C False (pb_zmq (nd_publisher m)) = None" using o(2) ctx_okD(8) [OF ok] by blast
  then show "main_program Z C L E mkdir listing bins z files argv sig False can_open ks clocks running meanwhile =
      None"
    by (simp add: main_program_def i s run_node_def d split: option.split)
  obtain z' where "zc_destroy C True (pb_zmq (nd_publisher m)) = Some z'"
    using ctx_okD(8) [OF ok, of True "pb_zmq (nd_publisher m)"] by auto
  then show "\<exists>r. main_program Z C L E mkdir listing bins z files argv sig True can_open ks clocks running
      meanwhile = Some (Returned 0 (Some r))" if "sig i"
    using wait_signal_returns [of sig i] that by (auto simp: main_program_def i s run_node_def d)
  show "zc_destroy C False (pb_zmq (publisher_destroy C (nd_publisher m))) \<noteq> None"
    using publisher_destroy_releases [OF ok o(1)] ctx_okD(8) [OF ok] by blast
qed

lemma destroy_releases:
  assumes "ctx_ok Z C opn" "owns opn (nd_publisher n)"
  shows "opn (pb_zmq (nd_publisher (node_destroy C n))) = {}"
  using publisher_destroy_releases [OF assms(1)] assms(2) by (simp add: node_destroy_def Let_def)

lemma main_returns:
  assumes ok: "ctx_ok Z C opn" and z: "opn z = {}"
    and r: "keeps_sockets opn running" and k: "keeps_sockets opn meanwhile"
    and m: "main_program Z C L E mkdir listing bins z files argv sig intr can_open ks clocks running meanwhile =
      Some (Returned c r')"
  shows "(c = 1 \<or> c = 0 \<and> intr) \<and> (\<forall>n. r' = Some n \<longrightarrow> opn (pb_zmq (nd_publisher n)) = {})"
proof -
  consider "c = 1" "r' = None"
    | n n1 where "node_init L mkdir listing bins z files (config_dir_of argv) = Inr (Some n)"
        "node_start Z E n = (Some c, n1)" "r' = Some (node_destroy C n1)"
    | n n1 where "node_init L mkdir listing bins z files (config_dir_of argv) = Inr (Some n)"
        "node_start Z E n = (None, n1)"
        "run_node Z C L sig intr can_open ks clocks running meanwhile n1 = Some (Returned c r')"
    using m by (auto simp: main_program_def split: sum.splits option.splits prod.splits)
  then show ?thesis
  proof cases
    case 2
    have "owns opn (nd_publisher n1)"
      using publisher_start_owns(1) [OF ok, of "nd_publisher n"] node_init_publisher [OF 2(1)] z
        node_start_publisher(1) [of Z E n] 2(2) by simp
    then show ?thesis
      using node_start_publisher(3) [of Z E n c] destroy_releases [OF ok] 2 by simp
  next
    case 3
    obtain m' z' where d: "node_shutdown Z L can_open ks clocks meanwhile (running n1) = Inr m'"
      and e: "zc_destroy C intr (pb_zmq (nd_publisher m')) = Some z'" and c: "c = 0"
      and r': "r' = Some (node_destroy C (m'\<lparr>nd_publisher := (nd_publisher m')\<lparr>pb_zmq := z'\<rparr>\<rparr>))"
      using run_node_result [OF 3(3)] by blast
    have "intr" using started_main_hangs(1) [OF ok z r k 3(1,2) d] m by (cases intr) simp_all
    moreover have "owns opn ((nd_publisher m')\<lparr>pb_zmq := z'\<rparr>)"
      using started_shutdown_owns(1) [OF ok z r k 3(1,2) d] ctx_okD(7) [OF ok e]
      by (simp add: owns_def held_def)
    ultimately show ?thesis using destroy_releases [OF ok] c by (simp add: r')
  qed simp
qed

text \<open>
  C9. How \<open>main\<close> ends. If it returns, then 1 after a configuration error or a failed start, or 0
  after a signal that interrupts \<open>zmq_ctx_destroy\<close>, and every socket it created is closed. One signal
  does not end a started service: unless an exception terminates it, it does not return from the
  call of \<open>zmq_ctx_destroy\<close>, because the publisher's sockets are closed only by the destructor that
  runs after that call, and only a further signal gets it out; with that destructor run first, the
  call would return.
\<close>

theorem shutdown_needs_second_signal:
  assumes "ctx_ok Z C opn" "opn z = {}" "keeps_sockets opn running" "keeps_sockets opn meanwhile"
  shows "(\<forall>c r. main_program Z C L E mkdir listing bins z files argv sig intr can_open ks clocks running meanwhile =
         Some (Returned c r) \<longrightarrow>
         (c = 1 \<or> c = 0 \<and> intr) \<and> (\<forall>n. r = Some n \<longrightarrow> opn (pb_zmq (nd_publisher n)) = {})) \<and>
    (\<forall>n n1 m i. node_init L mkdir listing bins z files (config_dir_of argv) = Inr (Some n) \<longrightarrow>
         node_start Z E n = (None, n1) \<longrightarrow>
         node_shutdown Z L can_open ks clocks meanwhile (running n1) = Inr m \<longrightarrow> sig i \<longrightarrow>
         main_program Z C L E mkdir listing bins z files argv sig False can_open ks clocks running meanwhile =
           None \<and>
         (\<exists>r. main_program Z C L E mkdir listing bins z files argv sig True can_open ks clocks running meanwhile =
           Some (Returned 0 (Some r))) \<and>
         zc_destroy C False (pb_zmq (publisher_destroy C (nd_publisher m))) \<noteq> None)"
proof ((rule conjI; intro allI impI), goal_cases)
  case (1 c r)
  then show ?case by (rule main_returns [OF assms])
next
  case (2 n n1 m i)
  note h = started_main_hangs [OF assms 2(1-3)]
  show ?case using h(1) h(2) [of sig i] h(3) 2(4) by blast
qed

definition plain_env :: start_env where
  "plain_env = \<lparr>se_ctx = True, se_cert = True, se_key = True, se_socket = 3, se_inet_addr = (\<lambda>_. None),
     se_bind = (\<lambda>_ _. 0), se_listen = 0\<rparr>"

text \<open>A context: the next handle and the open sockets.\<close>

definition list_zmq :: "(nat \<times> nat list) zmq_lib" where
  "list_zmq = \<lparr>z_socket = (\<lambda>z. (Some (fst z), (Suc (fst z), fst z # snd z))), z_setsockopt = (\<lambda>_ _ _ z. z),
     z_bind = (\<lambda>_ _ z. (0, z)), z_send = (\<lambda>_ d _ z. (int (length d), z))\<rparr>"

definition list_ctx :: "(nat \<times> nat list) ctx_lib" where
  "list_ctx = \<lparr>zc_close = (\<lambda>s z. (fst z, removeAll s (snd z))),
     zc_destroy = (\<lambda>b z. if b \<or> snd z = [] then Some z else None)\<rparr>"

lemma list_ctx_ok: "ctx_ok list_zmq list_ctx (\<lambda>z. set (snd z))"
  by (auto simp: ctx_ok_def list_zmq_def list_ctx_def)

lemma demo_started:
  "\<exists>n n1 m. node_init (sample_lib 8443) (\<lambda>_. Inr ()) (\<lambda>_. Inr None) (\<lambda>_. None) (0, []) sample_files
       (config_dir_of [''sim_vision_node'']) = Inr (Some n) \<and>
     node_start list_zmq plain_env n = (None, n1) \<and>
     node_shutdown list_zmq (sample_lib 8443) (\<lambda>_. True) all_names (\<lambda>_. (0, 0)) id (id n1) = Inr m"
proof -
  have c: "config_load (sample_lib 8443) sample_files ''config'' [] = (sample_config 8443, [])"
    by (rule sample_load) (simp_all add: in_int32_def)
  have d: "ds_load (\<lambda>_. Inr None) (\<lambda>_. None) (cap_stereo_image_dir (sample_config 8443)) [] ds =
      Inr (True, [], ds)" for ds
    by (simp add: ds_load_def sample_config_def config_default_def)
  obtain dp where p: "pipeline_new (word_of_int (spsc_queue_size (sample_config 8443))) = Inr dp"
    by (simp add: sample_config_def config_default_def pipeline_new_def queue_new_def
        queue_max_size_def)
  have a: "config_dir_of [''sim_vision_node''] = ''config''" by (simp add: config_dir_of_def)
  obtain n :: "(nat \<times> nat list) node" where n: "node_init (sample_lib 8443) (\<lambda>_. Inr ()) (\<lambda>_. Inr None)
      (\<lambda>_. None) (0, []) sample_files (config_dir_of [''sim_vision_node'']) = Inr (Some n)"
    and np: "\<not> ce_running (nd_engine n)" "nd_publisher n = publisher_new (0, []) (sample_config 8443)"
    by (simp add: a node_init_def c d p Let_def engine_new_def)
  have "fst (node_start list_zmq plain_env n) = None"
    using np by (simp add: node_start_def publisher_start_def publisher_new_def open_sock_def
        configure_pub_def bind_one_def list_zmq_def engine_start_def server_start_def plain_env_def
        Let_def)
  then obtain n1 where s: "node_start list_zmq plain_env n = (None, n1)"
    by (cases "node_start list_zmq plain_env n") simp
  have j: "jl_dump (sample_lib 8443) v = Inr []" for v by (simp add: sample_lib_def conv_lib_def)
  have ctrl: "\<exists>q. send_ctrl list_zmq (sample_lib 8443) t o' x = Inr q" for t o' and x :: "(nat \<times> nat list) publisher"
    by (cases o') (simp_all add: send_ctrl_def j Let_def)
  have "\<exists>q. publish_shutdown list_zmq (sample_lib 8443) (\<lambda>_. (0, 0)) (nd_publisher n1) = Inr q"
    using ctrl by (simp add: publish_shutdown_def rbind_eq_Inr) metis
  then obtain m where "node_shutdown list_zmq (sample_lib 8443) (\<lambda>_. True) all_names (\<lambda>_. (0, 0)) id
      (id n1) = Inr m"
    by (auto simp: node_shutdown_def Let_def)
  with n s show ?thesis by blast
qed

lemma keeps_sockets_id: "keeps_sockets opn id"
  by (simp add: keeps_sockets_def)

theorem shutdown_needs_second_signal_witness:
  "main_program list_zmq list_ctx (sample_lib 8443) plain_env (\<lambda>_. Inr ()) (\<lambda>_. Inr None) (\<lambda>_. None) (0, [])
     sample_files [''sim_vision_node''] (\<lambda>i. i = 3) False (\<lambda>_. True) all_names (\<lambda>_. (0, 0)) id id = None"
  using demo_started shutdown_needs_second_signal [OF list_ctx_ok _ keeps_sockets_id keeps_sockets_id, where z = "(0, [])"]
  by fastforce

end
