(* ===== verification/HttpRequest.thy ===== *)
theory HttpRequest
  imports TextSearch TextNumbers
begin

text \<open>
  \<open>src/api/AdminServer.cpp\<close>, the reading side: the two read loops over a TLS connection and the
  parsing of a request. OpenSSL is not code of this repository: its calls are the record
  \<open>tls_lib\<close> over the state of the connection. A loop that never returns is \<open>None\<close>.
\<close>

section \<open>The TLS connection\<close>

datatype ssl_error = WantRead | WantWrite | OtherError

text \<open>
  \<open>t_read n\<close> is \<open>SSL_read\<close> into a buffer of \<open>n\<close> bytes: the bytes read (none when the result is
  not positive) and what \<open>SSL_get_error\<close> then says. \<open>t_write\<close> is \<open>SSL_write\<close> with its result.
\<close>

record 's tls_lib =
  t_new :: "'s \<Rightarrow> bool \<times> 's"
  t_accept :: "'s \<Rightarrow> bool \<times> 's"
  t_read :: "nat \<Rightarrow> 's \<Rightarrow> (string \<times> ssl_error) \<times> 's"
  t_write :: "string \<Rightarrow> 's \<Rightarrow> (int \<times> ssl_error) \<times> 's"

definition crlf :: string where
  "crlf = [CHR 0x0D, CHR 0x0A]"

definition crlf2 :: string where
  "crlf2 = [CHR 0x0D, CHR 0x0A, CHR 0x0D, CHR 0x0A]"

partial_function (option) read_until_headers ::
    "'s tls_lib \<Rightarrow> string \<Rightarrow> 's \<Rightarrow> (bool \<times> string \<times> 's) option" where
  "read_until_headers T buf s =
     (let r = t_read T 2048 s in
      if fst (fst r) \<noteq> [] then
        (let buf' = buf @ fst (fst r) in
         if find_sub crlf2 buf' \<noteq> None then Some (True, buf', snd r)
         else if 64 * 1024 < length buf' then Some (False, buf', snd r)
         else read_until_headers T buf' (snd r))
      else if snd (fst r) = WantRead \<or> snd (fst r) = WantWrite
        then read_until_headers T buf (snd r)
      else Some (False, buf, snd r))"

partial_function (option) read_body ::
    "'s tls_lib \<Rightarrow> string \<Rightarrow> u64 \<Rightarrow> 's \<Rightarrow> (bool \<times> string \<times> 's) option" where
  "read_body T buf want s =
     (if unat want \<le> length buf then Some (True, buf, s)
      else
        (let r = t_read T (min 4096 (unat want - length buf)) s in
         if fst (fst r) \<noteq> [] then read_body T (buf @ fst (fst r)) want (snd r)
         else if snd (fst r) = WantRead \<or> snd (fst r) = WantWrite
           then read_body T buf want (snd r)
         else Some (False, buf, snd r)))"

section \<open>Parsing\<close>

definition content_length_of :: "string \<Rightarrow> u64" where
  "content_length_of buf =
     (let lower = to_lower buf in
      case find_sub ''content-length:'' lower of
        None \<Rightarrow> 0
      | Some pos \<Rightarrow>
          (let val = (case find_sub_from crlf lower pos of
                        None \<Rightarrow> drop (pos + 15) lower
                      | Some eol \<Rightarrow> substr lower (pos + 15) (eol - (pos + 15)))
           in case stoul val of Inl e \<Rightarrow> 0 | Inr n \<Rightarrow> n))"

text \<open>The request line's target, without its query.\<close>

definition target_of :: "string \<Rightarrow> string" where
  "target_of line =
     (case find_sub '' '' line of
        None \<Rightarrow> ''/''
      | Some sp1 \<Rightarrow>
          (case find_sub_from '' '' line (sp1 + 1) of
             None \<Rightarrow> ''/''
           | Some sp2 \<Rightarrow> substr line (sp1 + 1) (sp2 - sp1 - 1)))"

definition parse_request_line :: "string \<Rightarrow> string \<times> string \<times> nat \<times> u64" where
  "parse_request_line buf =
     (let line = (case find_sub crlf buf of None \<Rightarrow> buf | Some e \<Rightarrow> take e buf);
          meth = (case find_sub '' '' line of None \<Rightarrow> [] | Some sp1 \<Rightarrow> take sp1 line);
          target = target_of line;
          path = (case find_sub ''?'' target of None \<Rightarrow> target | Some q \<Rightarrow> take q target);
          header_end = (case find_sub crlf2 buf of None \<Rightarrow> length buf | Some e \<Rightarrow> e)
      in (meth, path, header_end, content_length_of buf))"

text \<open>
  The first half of \<open>handle_connection\<close>: the request line's parts and the body text, \<open>None\<close>
  inside when the connection is dropped. A body that ends early is used as it is.
\<close>

definition read_request ::
    "'s tls_lib \<Rightarrow> 's \<Rightarrow> ((string \<times> string \<times> string) option \<times> 's) option" where
  "read_request T s =
     (case read_until_headers T [] s of
        None \<Rightarrow> None
      | Some (ok, buf, s1) \<Rightarrow>
          (if \<not> ok then Some (None, s1)
           else
             (case parse_request_line buf of (meth, path, header_end, content_length) \<Rightarrow>
                (let body_raw = (if header_end + 4 \<le> length buf then drop (header_end + 4) buf else []) in
                 if length body_raw < unat content_length then
                   (case read_body T body_raw content_length s1 of
                      None \<Rightarrow> None
                    | Some (_, b, s2) \<Rightarrow>
                        Some (Some (meth, path,
                          if unat content_length < length b then take (unat content_length) b else b), s2))
                 else Some (Some (meth, path, body_raw), s1)))))"

section \<open>A well-formed request\<close>

text \<open>
  A head made of a request line, header lines, the length header and more header lines. The
  last two conditions say that the length header is the first place where its name occurs and
  that the head's blank line is its first.
\<close>

definition request_line :: "string \<Rightarrow> string \<Rightarrow> string \<Rightarrow> string" where
  "request_line meth target vers = meth @ '' '' @ target @ '' '' @ vers"

definition request_head ::
    "string \<Rightarrow> string \<Rightarrow> string \<Rightarrow> string \<Rightarrow> string \<Rightarrow> nat \<Rightarrow> string \<Rightarrow> string" where
  "request_head meth target vers hs1 name n hs2 =
     request_line meth target vers @ crlf @ hs1 @ name @ '' '' @ nat_to_dec n @ crlf @ hs2 @ crlf"

definition head_ok ::
    "string \<Rightarrow> string \<Rightarrow> string \<Rightarrow> string \<Rightarrow> string \<Rightarrow> nat \<Rightarrow> string \<Rightarrow> bool" where
  "head_ok meth target vers hs1 name n hs2 \<longleftrightarrow>
     CHR '' '' \<notin> set meth \<and> CHR '' '' \<notin> set target \<and>
     CHR 0x0D \<notin> set (request_line meth target vers) \<and>
     to_lower name = ''content-length:'' \<and> n < 2 ^ 64 \<and>
     length (request_head meth target vers hs1 name n hs2) \<le> 64 * 1024 \<and>
     (let pre = request_line meth target vers @ crlf @ hs1
      in find_sub ''content-length:'' (to_lower (pre @ name)) = Some (length pre)) \<and>
     find_sub crlf2 (request_head meth target vers hs1 name n hs2) =
       Some (length (request_head meth target vers hs1 name n hs2) - 4)"

section \<open>Parsing a well-formed request\<close>

lemma to_lower_append [simp]: "to_lower (a @ b) = to_lower a @ to_lower b"
  by (simp add: to_lower_def)

lemma to_lower_digits: "\<forall>c \<in> set s. is_digit c \<Longrightarrow> to_lower s = s"
proof (induction s)
  case (Cons c s)
  have "tolower_char c = c"
    using Cons.prems by (auto simp: tolower_char_def is_digit_def Let_def)
  with Cons show ?case by (simp add: to_lower_def)
qed (simp add: to_lower_def)

lemma no_cr_digits: "\<forall>c \<in> set s. is_digit c \<Longrightarrow> CHR 0x0D \<notin> set s"
  by (auto simp: is_digit_def)

lemma stoul_space: "stoul (CHR '' '' # s) = stoul s"
  by (simp add: stoul_def is_space_def)

lemma crlf_to_lower: "to_lower crlf = crlf"
  by (simp add: crlf_def to_lower_def tolower_char_def)

text \<open>The length header's value is found and read, whatever follows it.\<close>

lemma content_length_parsed:
  assumes name: "to_lower name = ''content-length:''" and n: "n < 2 ^ 64"
    and first: "find_sub ''content-length:'' (to_lower (pre @ name)) = Some (length pre)"
  shows "content_length_of (pre @ name @ '' '' @ nat_to_dec n @ crlf @ rest) = of_nat n"
proof -
  let ?d = "nat_to_dec n"
  have dl: "to_lower ?d = ?d" by (rule to_lower_digits [OF digits_nat_to_dec])
  have sp: "to_lower (CHR '' '' # x) = CHR '' '' # to_lower x" for x
    by (simp add: to_lower_def tolower_char_def)
  have lower: "to_lower (pre @ name @ '' '' @ ?d @ crlf @ rest) =
      to_lower (pre @ name) @ '' '' @ ?d @ crlf @ to_lower rest"
    by (simp add: dl sp crlf_to_lower)
  have pos: "find_sub ''content-length:'' (to_lower (pre @ name) @ '' '' @ ?d @ crlf @ to_lower rest) =
      Some (length pre)"
    by (rule find_sub_prefix [OF first])
  let ?a = "''content-length:'' @ '' '' @ ?d"
  have nc: "CHR 0x0D \<notin> set ?a" using no_cr_digits [OF digits_nat_to_dec] by simp
  have eol: "find_sub_from crlf (to_lower (pre @ name) @ '' '' @ ?d @ crlf @ to_lower rest) (length pre) =
      Some (length pre + 16 + length ?d)"
    using find_sub_from_after [OF nc, of "[CHR 0x0A]" "to_lower pre" "to_lower rest"]
    by (simp add: crlf_def name)
  have val: "substr (to_lower (pre @ name) @ '' '' @ ?d @ crlf @ to_lower rest) (length pre + 15)
      (length pre + 16 + length ?d - (length pre + 15)) = CHR '' '' # ?d"
    by (simp add: substr_def name)
  have st: "stoul (CHR '' '' # ?d) = Inr (of_nat n)"
    using stoul_nat_to_dec [OF n, of "[]"] by (simp add: stoul_space)
  show ?thesis
    unfolding content_length_of_def lower Let_def pos option.case eol val st sum.case by (rule refl)
qed

lemma target_parsed:
  assumes "CHR '' '' \<notin> set meth" "CHR '' '' \<notin> set target"
  shows "find_sub '' '' (request_line meth target vers) = Some (length meth)"
    "target_of (request_line meth target vers) = target"
proof -
  show s1: "find_sub '' '' (request_line meth target vers) = Some (length meth)"
    using find_char_after [OF assms(1), of "target @ '' '' @ vers"] by (simp add: request_line_def)
  have s2: "find_sub_from '' '' (request_line meth target vers) (length meth + 1) =
      Some (length meth + 1 + length target)"
    using find_sub_from_after [OF assms(2), of "[]" "meth @ '' ''" vers]
    by (simp add: request_line_def)
  show "target_of (request_line meth target vers) = target"
    using s1 s2 by (simp add: target_of_def substr_def request_line_def)
qed

lemma take_to_char:
  "(case find_sub [c] s of None \<Rightarrow> s | Some q \<Rightarrow> take q s) = takeWhile (\<lambda>x. x \<noteq> c) s"
  by (induction s) (auto split: option.splits)

lemma parse_head:
  assumes "head_ok meth target vers hs1 name n hs2"
  shows "parse_request_line (request_head meth target vers hs1 name n hs2 @ part) =
    (meth, takeWhile (\<lambda>x. x \<noteq> CHR ''?'') target,
     length (request_head meth target vers hs1 name n hs2) - 4, of_nat n)"
proof -
  let ?l = "request_line meth target vers" and ?h = "request_head meth target vers hs1 name n hs2"
  have line: "find_sub crlf (?h @ part) = Some (length ?l)"
    using assms find_sub_after [of "CHR 0x0D" ?l "[CHR 0x0A]"]
    by (simp add: head_ok_def crlf_def request_head_def)
  have tl: "take (length ?l) (?h @ part) = ?l" by (simp add: request_head_def)
  have sp: "CHR '' '' \<notin> set meth" "CHR '' '' \<notin> set target" using assms by (simp_all add: head_ok_def)
  have he: "find_sub crlf2 (?h @ part) = Some (length ?h - 4)"
    using assms by (intro find_sub_prefix) (simp add: head_ok_def)
  have mt: "take (length meth) ?l = meth" by (simp add: request_line_def)
  have nm: "find_sub ''content-length:'' (to_lower ((?l @ crlf @ hs1) @ name)) =
      Some (length (?l @ crlf @ hs1))" "to_lower name = ''content-length:''" "n < 2 ^ 64"
    using assms by (simp_all only: head_ok_def Let_def append_assoc)
  have cl: "content_length_of (?h @ part) = of_nat n"
    using content_length_parsed [OF nm(2,3) nm(1), of "hs2 @ crlf @ part"]
    by (simp add: request_head_def)
  show ?thesis
    unfolding parse_request_line_def Let_def line option.case tl target_parsed [OF sp] mt he cl
      take_to_char by (rule refl)
qed

section \<open>Reading a request\<close>

text \<open>
  A connection on which the peer has sent the text \<open>w\<close>: every read returns some non-empty piece
  of what is left, however the text is cut, or asks to be retried.
\<close>

inductive delivers :: "'s tls_lib \<Rightarrow> 's \<Rightarrow> string \<Rightarrow> bool" for T where
  deliv_done: "delivers T s []"
| deliv_retry: "\<forall>n>0. \<exists>e. e \<noteq> OtherError \<and> t_read T n s = (([], e), s') \<Longrightarrow> delivers T s' w \<Longrightarrow>
    delivers T s w"
| deliv_some: "\<forall>n>0. \<exists>k s' e. 0 < k \<and> k \<le> n \<and> k \<le> length w \<and>
      t_read T n s = ((take k w, e), s') \<and> delivers T s' (drop k w) \<Longrightarrow>
    delivers T s w"

lemma find_sub_append_None:
  "find_sub p (a @ b) = None \<Longrightarrow> find_sub p a = None"
  using find_sub_prefix [of p a _ b] by (cases "find_sub p a") auto

lemma prefix_split:
  assumes "a @ b = c @ d" "length c \<le> length a"
  obtains x where "a = c @ x" "x @ b = d"
proof -
  have "take (length c) (a @ b) = c" "drop (length c) (a @ b) = d" using assms(1) by simp_all
  then have "a = c @ drop (length c) a" "drop (length c) a @ b = d"
    using assms(2) append_take_drop_id [of "length c" a] by simp_all
  then show thesis by (rule that)
qed

lemma read_headers_delivered:
  assumes "delivers T s w" "buf @ w = hd0 @ body"
    and "find_sub crlf2 hd0 = Some (length hd0 - 4)" "4 \<le> length hd0" "length hd0 \<le> 64 * 1024"
    and "find_sub crlf2 buf = None"
  shows "\<exists>part rest s'. read_until_headers T buf s = Some (True, hd0 @ part, s') \<and>
    part @ rest = body \<and> delivers T s' rest"
  using assms(1,2,6)
proof (induction arbitrary: buf rule: delivers.induct)
  case (deliv_done s)
  have "find_sub crlf2 (hd0 @ body) = Some (length hd0 - 4)" by (rule find_sub_prefix [OF assms(3)])
  with deliv_done show ?case by simp
next
  case (deliv_retry s s' w)
  have "(0 :: nat) < 2048" by simp
  with deliv_retry.hyps(1) obtain e where r: "t_read T 2048 s = (([], e), s')" "e \<noteq> OtherError"
    by blast
  then have "e = WantRead \<or> e = WantWrite" by (cases e) simp_all
  then have "read_until_headers T buf s = read_until_headers T buf s'"
    by (subst read_until_headers.simps) (simp add: r(1) Let_def)
  with deliv_retry show ?case by simp
next
  case (deliv_some w s)
  have "(0 :: nat) < 2048" by simp
  then obtain k s' e where k: "0 < k" "k \<le> 2048" "k \<le> length w"
    and r: "t_read T 2048 s = ((take k w, e), s')"
    and d: "delivers T s' (drop k w)"
    and IH: "\<And>b. b @ drop k w = hd0 @ body \<Longrightarrow> find_sub crlf2 b = None \<Longrightarrow>
      \<exists>part rest s''. read_until_headers T b s' = Some (True, hd0 @ part, s'') \<and>
        part @ rest = body \<and> delivers T s'' rest"
    using deliv_some.IH by blast
  let ?b = "buf @ take k w"
  have b: "?b @ drop k w = hd0 @ body" using deliv_some.prems(1) by simp
  have whole: "find_sub crlf2 (hd0 @ body) = Some (length hd0 - 4)"
    by (rule find_sub_prefix [OF assms(3)])
  have ne: "take k w \<noteq> []" using k by auto
  show ?case
  proof (cases "find_sub crlf2 ?b")
    case None
    have "length ?b < length hd0"
    proof (rule ccontr)
      assume "\<not> length ?b < length hd0"
      then obtain x where "?b = hd0 @ x" by (auto intro: prefix_split [OF b])
      with None find_sub_prefix [OF assms(3), of x] show False by simp
    qed
    then have "read_until_headers T buf s = read_until_headers T ?b s'"
      using None ne assms(5) by (subst read_until_headers.simps) (simp add: r Let_def)
    with IH [OF b None] show ?thesis by simp
  next
    case (Some i)
    have "find_sub crlf2 (?b @ drop k w) = Some i" by (rule find_sub_prefix [OF Some])
    then have "i = length hd0 - 4" using whole b by simp
    then have "length hd0 \<le> length ?b"
      using find_sub_Some_bound [OF Some] assms(4) by (simp add: crlf2_def)
    then obtain x where x: "?b = hd0 @ x" "x @ drop k w = body" by (rule prefix_split [OF b])
    have "read_until_headers T buf s = Some (True, ?b, s')"
      using Some ne by (subst read_until_headers.simps) (simp add: r Let_def)
    with x d show ?thesis by auto
  qed
qed

lemma read_body_delivered:
  assumes "delivers T s w" "length buf + length w = unat want"
  shows "\<exists>s'. read_body T buf want s = Some (True, buf @ w, s')"
  using assms
proof (induction arbitrary: buf rule: delivers.induct)
  case (deliv_done s)
  then show ?case by (subst read_body.simps) simp
next
  case (deliv_retry s s' w)
  show ?case
  proof (cases "unat want \<le> length buf")
    case True
    then have "w = []" using deliv_retry.prems by (cases w) simp_all
    with True show ?thesis by (subst read_body.simps) simp
  next
    case False
    then have "0 < min 4096 (unat want - length buf)" by simp
    with deliv_retry.hyps(1) obtain e
      where r: "t_read T (min 4096 (unat want - length buf)) s = (([], e), s')" "e \<noteq> OtherError"
      by blast
    then have "e = WantRead \<or> e = WantWrite" by (cases e) simp_all
    then have "read_body T buf want s = read_body T buf want s'"
      using False r(1) by (subst read_body.simps) (simp add: Let_def)
    with deliv_retry show ?thesis by simp
  qed
next
  case (deliv_some w s)
  show ?case
  proof (cases "unat want \<le> length buf")
    case True
    then have "w = []" using deliv_some.prems by (cases w) simp_all
    with True show ?thesis by (subst read_body.simps) simp
  next
    case False
    let ?n = "min 4096 (unat want - length buf)"
    have "0 < ?n" using False by simp
    then obtain k s' e where k: "0 < k" "k \<le> length w"
      and r: "t_read T ?n s = ((take k w, e), s')"
      and IH: "\<And>b. length b + length (drop k w) = unat want \<Longrightarrow>
        \<exists>s''. read_body T b want s' = Some (True, b @ drop k w, s'')"
      using deliv_some.IH by blast
    have ne: "take k w \<noteq> []" using k by auto
    have "read_body T buf want s = read_body T (buf @ take k w) want s'"
      using False ne r by (subst read_body.simps) (simp add: Let_def)
    with IH [of "buf @ take k w"] k deliv_some.prems show ?thesis by simp
  qed
qed

lemma read_request_delivered:
  assumes "head_ok meth target vers hs1 name n hs2" "length body = n"
    and "delivers T s (request_head meth target vers hs1 name n hs2 @ body)"
  shows "\<exists>s'. read_request T s = Some (Some (meth, takeWhile (\<lambda>c. c \<noteq> CHR ''?'') target, body), s')"
proof -
  let ?h = "request_head meth target vers hs1 name n hs2"
  have len: "4 \<le> length ?h" by (simp add: request_head_def crlf_def)
  have ok: "find_sub crlf2 ?h = Some (length ?h - 4)" "length ?h \<le> 64 * 1024" "n < 2 ^ 64"
    using assms(1) by (simp_all add: head_ok_def)
  have "find_sub crlf2 [] = None" by (simp add: crlf2_def)
  from read_headers_delivered [OF assms(3) _ ok(1) len ok(2) this]
  obtain part rest s1 where h: "read_until_headers T [] s = Some (True, ?h @ part, s1)"
    and body: "part @ rest = body" and d: "delivers T s1 rest" by auto
  have n: "unat (of_nat n :: u64) = n" using ok(3) by (simp add: unat_of_nat)
  have lb: "length part + length rest = n" using body assms(2) by (metis length_append)
  have eq: "read_request T s =
     (if length part < n then
        (case read_body T part (of_nat n) s1 of
           None \<Rightarrow> None
         | Some (_, b, s2) \<Rightarrow>
             Some (Some (meth, takeWhile (\<lambda>c. c \<noteq> CHR ''?'') target,
               if n < length b then take n b else b), s2))
      else Some (Some (meth, takeWhile (\<lambda>c. c \<noteq> CHR ''?'') target, part), s1))"
    using len n by (cases "length part < n"; cases "read_body T part (of_nat n) s1")
      (simp_all add: read_request_def h parse_head [OF assms(1)] Let_def split: prod.split)
  show ?thesis
  proof (cases "length part < n")
    case True
    obtain s2 where "read_body T part (of_nat n) s1 = Some (True, part @ rest, s2)"
      using read_body_delivered [OF d, of part "of_nat n"] lb n by auto
    with True show ?thesis using body assms(2) by (simp add: eq)
  next
    case False
    then have "rest = []" using lb by (cases rest) simp_all
    with False show ?thesis using body by (simp add: eq)
  qed
qed

text \<open>
  C15. Reading a request does not depend on how the network cuts it: if the peer sends a
  well-formed head announcing \<open>n\<close> bytes and then a body of \<open>n\<close> bytes, in pieces of any size with
  any number of retries between them, the server obtains exactly the method, the path without
  its query, and the body.
\<close>

theorem request_read_exactly:
  assumes "head_ok meth target vers hs1 name n hs2" "length body = n"
    and "delivers T s (request_head meth target vers hs1 name n hs2 @ body)"
  shows "\<exists>s'. read_request T s = Some (Some (meth, takeWhile (\<lambda>c. c \<noteq> CHR ''?'') target, body), s')"
  using assms by (rule read_request_delivered)

section \<open>A connection for the witnesses\<close>

text \<open>A peer that has sent some pieces and accepts everything; an empty piece is a retry.\<close>

fun piece_read :: "nat \<Rightarrow> string list \<Rightarrow> (string \<times> ssl_error) \<times> string list" where
  "piece_read n [] = (([], OtherError), [])"
| "piece_read n ([] # cs) = (([], WantRead), cs)"
| "piece_read n (c # cs) = ((take n c, OtherError), drop n c # cs)"

definition piece_tls :: "string list tls_lib" where
  "piece_tls = \<lparr>t_new = (\<lambda>s. (True, s)), t_accept = (\<lambda>s. (True, s)), t_read = piece_read,
     t_write = (\<lambda>d s. ((int (length d), OtherError), s))\<rparr>"

lemma delivers_pieces: "delivers piece_tls cs (concat cs)"
proof (induction cs rule: measure_induct_rule [where f = "\<lambda>cs. length (concat cs) + length cs"])
  case (less cs)
  show ?case
  proof (cases cs)
    case Nil
    then show ?thesis by (simp add: deliv_done)
  next
    case (Cons c cs')
    show ?thesis
    proof (cases c)
      case Nil
      have "delivers piece_tls cs' (concat cs')" using less Cons by simp
      then show ?thesis
        using Cons Nil by (auto intro: deliv_retry [where s' = cs'] simp: piece_tls_def)
    next
      case (Cons a c')
      have "\<exists>k s' e. 0 < k \<and> k \<le> n \<and> k \<le> length (concat cs) \<and>
          t_read piece_tls n cs = ((take k (concat cs), e), s') \<and>
          delivers piece_tls s' (drop k (concat cs))" if n: "0 < n" for n
      proof -
        let ?k = "min n (length c)"
        have "take ?k (concat cs) = take n c" "drop ?k (concat cs) = concat (drop n c # cs')"
          using \<open>cs = c # cs'\<close> by (simp_all add: min_def)
        moreover have "delivers piece_tls (drop n c # cs') (concat (drop n c # cs'))"
          using n Cons by (intro less) (simp add: \<open>cs = c # cs'\<close>)
        moreover have "t_read piece_tls n cs = ((take n c, OtherError), drop n c # cs')"
          using Cons by (simp add: piece_tls_def \<open>cs = c # cs'\<close>)
        ultimately show ?thesis
          using n Cons \<open>cs = c # cs'\<close> by (intro exI [of _ ?k]) auto
      qed
      then show ?thesis by (intro deliv_some) blast
    qed
  qed
qed

definition demo_body :: string where
  "demo_body = ''{}''"

definition demo_head :: string where
  "demo_head = request_head ''POST'' ''/api/connect?x=1'' ''HTTP/1.1'' [] ''Content-Length:'' 2 []"

lemma demo_head_ok: "head_ok ''POST'' ''/api/connect?x=1'' ''HTTP/1.1'' [] ''Content-Length:'' 2 []"
proof -
  have d: "nat_to_dec 2 = ''2''" by code_simp
  have l: "to_lower ''Content-Length:'' = ''content-length:''"
    "to_lower (''POST /api/connect?x=1 HTTP/1.1'' @ crlf @ ''Content-Length:'') =
     ''post /api/connect?x=1 http/1.1'' @ crlf @ ''content-length:''"
    by code_simp+
  have e: "request_line ''POST'' ''/api/connect?x=1'' ''HTTP/1.1'' = ''POST /api/connect?x=1 HTTP/1.1''"
    by (simp add: request_line_def)
  have f: "find_sub ''content-length:'' (to_lower ((''POST /api/connect?x=1 HTTP/1.1'' @ crlf @ []) @
      ''Content-Length:'')) = Some (length (''POST /api/connect?x=1 HTTP/1.1'' @ crlf @ []))"
    using l(2) by (simp add: crlf_def)
  show ?thesis
    unfolding head_ok_def Let_def e using f l(1)
    by (simp add: request_head_def e d crlf_def crlf2_def)
qed

text \<open>The demonstration request, sent in three pieces with a retry between them.\<close>

definition demo_pieces :: "string list" where
  "demo_pieces = [take 20 (demo_head @ demo_body), [], drop 20 (demo_head @ demo_body)]"

lemma demo_delivered: "delivers piece_tls demo_pieces (demo_head @ demo_body)"
proof -
  have "concat demo_pieces = demo_head @ demo_body"
    by (simp add: demo_pieces_def del: take_append drop_append)
  then show ?thesis by (metis delivers_pieces)
qed

theorem request_read_exactly_witness:
  "\<exists>s'. read_request piece_tls demo_pieces = Some (Some (''POST'', ''/api/connect'', ''{}''), s')"
  using request_read_exactly [OF demo_head_ok, of demo_body piece_tls demo_pieces] demo_delivered
  by (auto simp: demo_head_def demo_body_def)

section \<open>Peers that stall\<close>

text \<open>
  The receive time-out of the socket shows up as a retry: as long as the peer stays silent the
  loop does not return, whatever was read before.
\<close>

lemma silent_headers_loop:
  fixes T :: "'s tls_lib"
  assumes "\<And>n. t_read T n s = (([], WantRead), s)"
  shows "read_until_headers T buf s = None"
proof (rule ccontr)
  assume "read_until_headers T buf s \<noteq> None"
  then obtain ok b s2 where y: "read_until_headers T buf s = Some (ok, b, s2)"
    by (cases "read_until_headers T buf s") auto
  have "\<not> (T = T \<and> s = s)"
  proof (rule read_until_headers.raw_induct [OF _ y, where P = "\<lambda>T' b s' r. \<not> (T' = T \<and> s' = s)"])
    fix f :: "'s tls_lib \<Rightarrow> string \<Rightarrow> 's \<Rightarrow> (bool \<times> string \<times> 's) option" and Ta buf sa r
    assume IH: "\<And>T' b s' r. f T' b s' = Some r \<Longrightarrow> \<not> (T' = T \<and> s' = s)"
    assume eq: "(let r = t_read Ta 2048 sa in
      if fst (fst r) \<noteq> [] then
        (let buf' = buf @ fst (fst r) in
         if find_sub crlf2 buf' \<noteq> None then Some (True, buf', snd r)
         else if 64 * 1024 < length buf' then Some (False, buf', snd r)
         else f Ta buf' (snd r))
      else if snd (fst r) = WantRead \<or> snd (fst r) = WantWrite then f Ta buf (snd r)
      else Some (False, buf, snd r)) = Some r"
    show "\<not> (Ta = T \<and> sa = s)"
    proof
      assume "Ta = T \<and> sa = s"
      with eq assms have "f T buf s = Some r" by (simp add: Let_def)
      with IH show False by blast
    qed
  qed
  then show False by simp
qed

lemma silent_peer_blocks:
  assumes "\<And>n. t_read T n s = (([], WantRead), s)"
  shows "read_request T s = None"
  by (simp add: read_request_def silent_headers_loop [OF assms])

text \<open>A length of \<open>-1\<close> is the largest length, and the whole buffer is searched for the name.\<close>

lemma content_length_minus_one:
  "content_length_of (''POST / HTTP/1.1'' @ crlf @ ''Content-Length: -1'' @ crlf2) = - 1"
proof -
  have l: "to_lower (''POST / HTTP/1.1'' @ crlf @ ''Content-Length: -1'' @ crlf2) =
      ''post / http/1.1'' @ crlf @ ''content-length: -1'' @ crlf2"
    by code_simp
  show ?thesis
    unfolding content_length_of_def l
    by (simp add: crlf_def crlf2_def find_sub_from_def substr_def stoul_def is_space_def is_digit_def
        dec_value_def digit_val_def Let_def)
qed

lemma content_length_in_target:
  "content_length_of (''GET /?content-length:7 HTTP/1.1'' @ crlf2) = 7"
proof -
  have l: "to_lower (''GET /?content-length:7 HTTP/1.1'' @ crlf2) =
      ''get /?content-length:7 http/1.1'' @ crlf2"
    by code_simp
  show ?thesis
    unfolding content_length_of_def l
    by (simp add: crlf_def crlf2_def find_sub_from_def substr_def stoul_def is_space_def is_digit_def
        dec_value_def digit_val_def Let_def)
qed

end
