(* ===== verification/Connections.thy ===== *)
theory Connections
  imports HttpRequest Commands
begin

text \<open>
  \<open>src/api/AdminServer.cpp\<close>, one connection: from the TLS handshake over the command to the
  reply. A worker calls this function from the top of its thread, so an exception that leaves
  it terminates the process.
\<close>

section \<open>UTF-8\<close>

text \<open>
  The strings \<open>dump\<close> accepts: well-formed UTF-8 (RFC 3629), without overlong forms, surrogates
  and code points above \<open>U+10FFFF\<close>.
\<close>

definition in_bytes :: "nat \<Rightarrow> nat \<Rightarrow> char \<Rightarrow> bool" where
  "in_bytes lo hi c = (let n = of_char c :: nat in lo \<le> n \<and> n \<le> hi)"

fun conts :: "nat \<Rightarrow> string \<Rightarrow> string option" where
  "conts 0 s = Some s"
| "conts (Suc k) [] = None"
| "conts (Suc k) (c # s) = (if in_bytes 0x80 0xBF c then conts k s else None)"

definition utf8_tail :: "char \<Rightarrow> string \<Rightarrow> string option" where
  "utf8_tail c s =
     (if in_bytes 0 0x7F c then Some s
      else if in_bytes 0xC2 0xDF c then conts 1 s
      else if in_bytes 0xE0 0xEF c \<and> s \<noteq> [] \<and>
          (in_bytes 0xE0 0xE0 c \<longrightarrow> in_bytes 0xA0 0xBF (hd s)) \<and>
          (in_bytes 0xED 0xED c \<longrightarrow> in_bytes 0x80 0x9F (hd s)) then conts 2 s
      else if in_bytes 0xF0 0xF4 c \<and> s \<noteq> [] \<and>
          (in_bytes 0xF0 0xF0 c \<longrightarrow> in_bytes 0x90 0xBF (hd s)) \<and>
          (in_bytes 0xF4 0xF4 c \<longrightarrow> in_bytes 0x80 0x8F (hd s)) then conts 3 s
      else None)"

lemma length_conts: "conts k s = Some t \<Longrightarrow> length t \<le> length s"
  by (induction k s rule: conts.induct) (auto split: if_splits)

lemma length_utf8_tail: "utf8_tail c s = Some t \<Longrightarrow> length t \<le> length s"
  by (auto simp: utf8_tail_def dest: length_conts split: if_splits)

function utf8_ok :: "string \<Rightarrow> bool" where
  "utf8_ok [] = True"
| "utf8_ok (c # s) = (case utf8_tail c s of None \<Rightarrow> False | Some t \<Rightarrow> utf8_ok t)"
  by pat_completeness auto
termination
  by (relation "measure length") (auto dest: length_utf8_tail)

declare utf8_ok.simps(2) [simp del]

lemma utf8_ok_ascii_append [simp]: "ascii_str p \<Longrightarrow> utf8_ok (p @ s) = utf8_ok s"
proof (induction p)
  case (Cons c p)
  then have "in_bytes 0 0x7F c" by (simp add: ascii_str_def in_bytes_def Let_def)
  with Cons show ?case by (simp add: utf8_ok.simps(2) utf8_tail_def ascii_str_def)
qed simp

lemma utf8_ok_ascii: "ascii_str p \<Longrightarrow> utf8_ok p"
  using utf8_ok_ascii_append [of p "[]"] by simp

fun json_utf8 :: "json \<Rightarrow> bool" where
  "json_utf8 (JStr s) = utf8_ok s"
| "json_utf8 (JArr xs) = (\<forall>x \<in> set xs. json_utf8 x)"
| "json_utf8 (JObj m) = (\<forall>kv \<in> set m. utf8_ok (fst kv) \<and> json_utf8 (snd kv))"
| "json_utf8 _ = True"

text \<open>
  Documented behaviour: \<open>dump\<close> throws exactly on a document with a string that is not UTF-8, its
  text is UTF-8, and the parser accepts only UTF-8.
\<close>

definition json_utf8_ok :: "json_lib \<Rightarrow> bool" where
  "json_utf8_ok L \<longleftrightarrow>
     (\<forall>j. (\<exists>s. jl_dump L j = Inr s) \<longleftrightarrow> json_utf8 j) \<and>
     (\<forall>j s. jl_dump L j = Inr s \<longrightarrow> utf8_ok s) \<and>
     (\<forall>t j. jl_parse L t = Inr j \<longrightarrow> json_utf8 j)"

lemma json_utf8_upd:
  "json_utf8 (JObj m) \<Longrightarrow> utf8_ok k \<Longrightarrow> json_utf8 v \<Longrightarrow> json_utf8 (JObj (om_upd k v m))"
  by (induction k v m rule: om_upd.induct) auto

lemma json_utf8_jobj:
  assumes "\<forall>kv \<in> set kvs. utf8_ok (fst kv) \<and> json_utf8 (snd kv)"
  shows "json_utf8 (jobj kvs)"
proof -
  have "json_utf8 (JObj (foldl (\<lambda>m kv. om_upd (fst kv) (snd kv) m) m kvs))"
    if "json_utf8 (JObj m)" for m
    using assms that by (induction kvs arbitrary: m) (auto intro!: json_utf8_upd simp del: json_utf8.simps)
  from this [of "[]"] show ?thesis by (simp add: jobj_def)
qed

lemma json_utf8_jat: "json_utf8 j \<Longrightarrow> json_utf8 (jat j k)"
  by (cases j) (auto dest!: map_of_SomeD split: option.splits)

section \<open>Sending\<close>

text \<open>
  \<open>send_all\<close> also returns how much was sent. (A reply is far below 2 GiB, so the cast of its
  length to \<open>int\<close> keeps it.)
\<close>

function send_all ::
    "'s tls_lib \<Rightarrow> string \<Rightarrow> nat \<Rightarrow> nat \<Rightarrow> 's \<Rightarrow> bool \<times> nat \<times> 's" where
  "send_all T data sent spins s =
     (if length data \<le> sent then (True, sent, s)
      else
        (let r = t_write T (drop sent data) s in
         if 0 < fst (fst r) then send_all T data (sent + nat (fst (fst r))) 0 (snd r)
         else if snd (fst r) = WantWrite then
           (if 64 < spins + 1 then (False, sent, snd r)
            else send_all T data sent (spins + 1) (snd r))
         else (False, sent, snd r)))"
  by pat_completeness auto
termination
  by (relation "measures [\<lambda>(T, data, sent, spins, s). length data - sent,
        \<lambda>(T, data, sent, spins, s). 64 - spins]") auto

declare send_all.simps [simp del]

text \<open>\<open>SSL_write\<close> never claims more than it was given.\<close>

definition write_ok :: "'s tls_lib \<Rightarrow> bool" where
  "write_ok T \<longleftrightarrow> (\<forall>d s. fst (fst (t_write T d s)) \<le> int (length d))"

lemma send_all_spec:
  assumes "write_ok T" "sent \<le> length data"
  shows "case send_all T data sent spins s of (ok, n, s') \<Rightarrow>
    sent \<le> n \<and> n \<le> length data \<and> (ok \<longleftrightarrow> n = length data)"
  using assms
proof (induction T data sent spins s rule: send_all.induct)
  case (1 T data sent spins s)
  let ?r = "t_write T (drop sent data) s"
  have le: "fst (fst ?r) \<le> int (length data - sent)"
    using "1.prems"(1) by (auto simp: write_ok_def dest: spec [of _ "drop sent data"])
  show ?case
  proof (cases "length data \<le> sent")
    case True
    with "1.prems" show ?thesis by (subst send_all.simps) simp
  next
    case f: False
    show ?thesis
    proof (cases "0 < fst (fst ?r)")
      case True
      then have "sent + nat (fst (fst ?r)) \<le> length data" using le f by simp
      from "1.IH"(1) [OF f refl True "1.prems"(1) this] show ?thesis
        using f True
        by (simp add: send_all.simps [of T data sent spins s] Let_def) (auto split: prod.splits)
    next
      case g: False
      show ?thesis
      proof (cases "snd (fst ?r) = WantWrite \<and> \<not> 64 < spins + 1")
        case True
        with f g "1.IH"(2) [OF f refl g] "1.prems" show ?thesis
          by (simp add: send_all.simps [of T data sent spins s] Let_def)
      next
        case False
        with f g "1.prems" show ?thesis
          by (auto simp: send_all.simps [of T data sent spins s] Let_def)
      qed
    qed
  qed
qed

section \<open>The connection handler\<close>

definition unix_sec_nsec :: "int \<Rightarrow> int \<times> int" where
  "unix_sec_nsec clock =
     (trunc_quot clock ns_per_sec, clock - trunc_quot clock ns_per_sec * ns_per_sec)"

definition parse_body :: "json_lib \<Rightarrow> string \<Rightarrow> json" where
  "parse_body L body_raw =
     (if body_raw \<noteq> [] then (case jl_parse L body_raw of Inl e \<Rightarrow> JObj [] | Inr j \<Rightarrow> j) else JObj [])"

definition client_id_of :: "json_lib \<Rightarrow> json \<Rightarrow> string result" where
  "client_id_of L body =
     (if jcontains body ''client_id'' then
        (case jat body ''client_id'' of
           JStr s \<Rightarrow> Inr s
         | JNull \<Rightarrow> Inr ''default''
         | v \<Rightarrow> jl_dump L v)
      else Inr ''default'')"

definition http_text :: "code \<Rightarrow> string \<Rightarrow> string" where
  "http_text c body_json =
     ''HTTP/1.1 '' @ int_to_dec (http_status c) @ '' OK'' @ crlf @
     ''Content-Type: application/json'' @ crlf @
     ''Content-Length: '' @ nat_to_dec (length body_json) @ crlf @
     ''Connection: close'' @ crlf2 @ body_json"

text \<open>Identity and time stamps; \<open>c1\<close> and \<open>c2\<close> are the clock readings after the command.\<close>

definition stamp :: "string \<Rightarrow> string \<Rightarrow> int \<Rightarrow> int \<Rightarrow> response \<Rightarrow> response" where
  "stamp server_id client_id c1 c2 r =
     r\<lparr>r_server_id := server_id, r_client_id := client_id,
       r_recv_sec := fst (unix_sec_nsec c1), r_recv_nsec := snd (unix_sec_nsec c1),
       r_send_sec := fst (unix_sec_nsec c2), r_send_nsec := snd (unix_sec_nsec c2)\<rparr>"

text \<open>From the body text to the reply's text.\<close>

definition answer ::
    "json_lib \<Rightarrow> string list \<Rightarrow> string \<Rightarrow> int \<Rightarrow> int \<Rightarrow> string \<Rightarrow> string \<Rightarrow> handler \<Rightarrow>
     (string \<times> handler) result" where
  "answer L ks server_id c1 c2 path body_raw h =
     (let body = parse_body L body_raw in
      rbind (client_id_of L body) (\<lambda>client_id.
      rbind (handle L ks (normalize_command path body) body client_id h) (\<lambda>rh.
      rbind (to_json L (stamp server_id client_id c1 c2 (fst rh))) (\<lambda>body_json.
        Inr (http_text (r_code (fst rh)) body_json, snd rh)))))"

text \<open>
  What becomes of a connection: closed without a reply, a reply handed to \<open>send_all\<close> with its
  result, or an exception.
\<close>

datatype conn_outcome = Dropped | Answered string bool | Terminated exn

definition handle_connection ::
    "'s tls_lib \<Rightarrow> json_lib \<Rightarrow> string list \<Rightarrow> string \<Rightarrow> int \<Rightarrow> int \<Rightarrow> 's \<Rightarrow> handler \<Rightarrow>
     (conn_outcome \<times> 's \<times> handler) option" where
  "handle_connection T L ks server_id c1 c2 s h =
     (let r0 = t_new T s in
      if \<not> fst r0 then Some (Dropped, snd r0, h)
      else
        (let r1 = t_accept T (snd r0) in
         if \<not> fst r1 then Some (Dropped, snd r1, h)
         else
           (case read_request T (snd r1) of
              None \<Rightarrow> None
            | Some (None, s2) \<Rightarrow> Some (Dropped, s2, h)
            | Some (Some (meth, path, body_raw), s2) \<Rightarrow>
                (case answer L ks server_id c1 c2 path body_raw h of
                   Inl e \<Rightarrow> Some (Terminated e, s2, h)
                 | Inr (http, h') \<Rightarrow>
                     (case send_all T http 0 0 s2 of
                        (ok, n, s3) \<Rightarrow> Some (Answered http ok, s3, h'))))))"

section \<open>Which replies are UTF-8\<close>

definition known_commands :: "string list" where
  "known_commands =
     [''connect'', ''disconnect'', ''start_capture'', ''stop_capture'', ''activate_channel'',
      ''deactivate_channel'', ''check_status'', ''list_channels'', ''list_parameters'',
      ''get_parameter'', ''set_parameter'', ''init'', ''dispose'']"

definition response_utf8 :: "response \<Rightarrow> bool" where
  "response_utf8 r \<longleftrightarrow> utf8_ok (r_message r) \<and> json_utf8 (r_detail r)"

definition params_utf8 :: "params \<Rightarrow> bool" where
  "params_utf8 pm \<longleftrightarrow> (\<forall>k p. pm k = Some p \<longrightarrow> json_utf8 (param_to_json p))"

lemma response_utf8_error:
  "response_utf8 (from_error c m) \<longleftrightarrow> utf8_ok m"
  by (simp add: response_utf8_def)

lemma response_utf8_reply:
  "ascii_str m \<Longrightarrow> \<forall>kv \<in> set kvs. utf8_ok (fst kv) \<and> json_utf8 (snd kv) \<Longrightarrow>
   response_utf8 (reply c m kvs)"
  by (simp add: response_utf8_def reply_def utf8_ok_ascii json_utf8_jobj)

lemma utf8_names [simp]:
  "utf8_ok (data_type_to_string t)" "utf8_ok (group_to_string g)"
  by (cases t; simp add: utf8_ok_ascii ascii_str_def)
    (cases g; simp add: utf8_ok_ascii ascii_str_def)

lemma type_names_utf8 [simp]: "json_utf8 (type_names ts)"
  by (simp add: type_names_def)

lemma not_connected_utf8: "utf8_ok not_connected_msg"
  by (simp add: not_connected_msg_def ascii_str_def utf8_ok.simps(2) utf8_tail_def in_bytes_def
      numeral_2_eq_2)

text \<open>Every command's own reply is UTF-8, if the parameters and the request are.\<close>

lemmas utf8_lits = utf8_ok_ascii ascii_str_def

lemma cmd_session_utf8:
  "cmd_connect c h = Inr (r, h') \<Longrightarrow> response_utf8 r"
  "cmd_disconnect c h = Inr (r, h') \<Longrightarrow> response_utf8 r"
  by (auto simp: cmd_connect_def cmd_disconnect_def response_utf8_def utf8_lits Let_def
      split: if_splits)

lemma cmd_capture_utf8:
  "cmd_start_capture body c h = Inr (r, h') \<Longrightarrow> response_utf8 r"
  "cmd_stop_capture body c h = Inr (r, h') \<Longrightarrow> response_utf8 r"
  by (auto simp: cmd_start_capture_def cmd_stop_capture_def response_utf8_error not_connected_utf8
      utf8_lits Let_def intro!: response_utf8_reply split: if_splits)

lemma cmd_channel_utf8:
  "cmd_activate_channel L body h = Inr (r, h') \<Longrightarrow> response_utf8 r"
  "cmd_deactivate_channel L body h = Inr (r, h') \<Longrightarrow> response_utf8 r"
  by (auto simp: cmd_activate_channel_def cmd_deactivate_channel_def response_utf8_error rbind_eq_Inr
      utf8_lits Let_def intro!: response_utf8_reply split: option.splits)

lemma cm_status_utf8: "json_utf8 (cm_status_json cm)"
  unfolding cm_status_json_def
  by (rule json_utf8_jobj) (auto intro!: json_utf8_jobj simp: utf8_lits)

lemma publisher_status_utf8: "json_utf8 (publisher_status st)"
  unfolding publisher_status_def by (rule json_utf8_jobj) (simp add: utf8_lits)

lemma pipeline_status_utf8: "json_utf8 (pipeline_status st)"
  unfolding pipeline_status_def by (rule json_utf8_jobj) (simp add: utf8_lits)

lemma cmd_query_utf8:
  "response_utf8 (cmd_check_status h)"
  "response_utf8 (cmd_list_channels h)"
  "params_utf8 (ch_params h) \<Longrightarrow> set ks \<subseteq> dom (ch_params h) \<Longrightarrow>
    response_utf8 (cmd_list_parameters ks h)"
proof -
  show "response_utf8 (cmd_check_status h)"
    unfolding cmd_check_status_def
    by (rule response_utf8_reply)
      (auto simp: utf8_lits version_tag_def cm_status_utf8 publisher_status_utf8
        pipeline_status_utf8 split: option.splits)
  show "response_utf8 (cmd_list_channels h)"
    unfolding cmd_list_channels_def
    by (rule response_utf8_reply) (auto intro!: json_utf8_jobj simp: utf8_lits)
  assume "params_utf8 (ch_params h)" "set ks \<subseteq> dom (ch_params h)"
  then show "response_utf8 (cmd_list_parameters ks h)"
    unfolding cmd_list_parameters_def
    by (intro response_utf8_reply) (auto simp: utf8_lits param_all_def params_utf8_def)
qed

lemma cmd_get_utf8:
  assumes "cmd_get_parameter L body h = Inr r" "params_utf8 (ch_params h)"
  shows "response_utf8 r"
  using assms
  by (auto simp: cmd_get_parameter_def rbind_eq_Inr response_utf8_error quoted_def utf8_lits
      response_utf8_def params_utf8_def param_get_def split: if_splits option.splits)

lemma set_error_utf8: "utf8_ok name \<Longrightarrow> utf8_ok (set_error pm name v)"
  by (auto simp: set_error_def ascii_str_def split: option.splits)

lemma typed_value_utf8:
  assumes "json_conv_ok L" "typed_value L p j = Inr v" "json_utf8 j"
  shows "json_utf8 (value_to_json v)"
  using assms
  by (cases p) (auto simp: typed_value_def rbind_eq_Inr jl_string_Inr [OF assms(1)])

lemma cmd_set_utf8:
  assumes "json_conv_ok L" "json_utf8 body" "cmd_set_parameter L body h = Inr (r, h')"
  shows "response_utf8 r"
proof (cases "\<not> jcontains body ''name'' \<or> \<not> jcontains body ''value''")
  case True
  with assms(3) show ?thesis
    by (auto simp: cmd_set_parameter_def response_utf8_error quoted_def utf8_lits)
next
  case c: False
  then obtain s where n: "jl_string L (jat body ''name'') = Inr s"
    using assms(3) by (auto simp: cmd_set_parameter_def rbind_eq_Inr)
  then have s: "utf8_ok s"
    using json_utf8_jat [OF assms(2), of "''name''"] by (simp add: jl_string_Inr [OF assms(1)])
  show ?thesis
  proof (cases "ch_params h s")
    case None
    with assms(3) c n show ?thesis
      by (auto simp: cmd_set_parameter_def param_get_def response_utf8_error utf8_lits)
  next
    case (Some p)
    then obtain v where v: "typed_value L (p_value p) (jat body ''value'') = Inr v"
      using assms(3) c n by (auto simp: cmd_set_parameter_def rbind_eq_Inr param_get_def)
    have vu: "json_utf8 (value_to_json v)"
      by (rule typed_value_utf8 [OF assms(1) v json_utf8_jat [OF assms(2)]])
    have eq: "cmd_set_parameter L body h =
        (case set_value s v [] (ch_params h) of (ok, err, pm) \<Rightarrow>
           if \<not> ok then Inr (from_error InvalidParam err, h\<lparr>ch_params := pm\<rparr>)
           else Inr (reply Success ''Parameter set''
             [(''name'', JStr s), (''value'', value_to_json v),
              (''needs_reopen'', JBool (p_needs_reopen p))], h\<lparr>ch_params := pm\<rparr>))"
      using c by (simp add: cmd_set_parameter_def n Some v param_get_def)
    show ?thesis
      using assms(3) Some s vu unfolding eq
      by (cases "admits p v")
        (auto simp: set_value_cases response_utf8_error set_error_utf8 utf8_lits
          intro!: response_utf8_reply)
  qed
qed

lemma handle_utf8:
  assumes "json_conv_ok L" "json_utf8 body" "params_utf8 (ch_params h)" "set ks \<subseteq> dom (ch_params h)"
    and "handle L ks cmd body c h = Inr (r, h')"
  shows "response_utf8 r \<longleftrightarrow> cmd \<in> set known_commands \<or> utf8_ok cmd"
proof (cases "cmd \<in> set known_commands")
  case True
  then have "response_utf8 r"
    using assms(5) cmd_query_utf8(1,2) [of h] cmd_query_utf8(3) [OF assms(3,4)]
      cmd_set_utf8 [OF assms(1,2), of h r h'] cmd_get_utf8 [OF _ assms(3), of L body]
      cmd_session_utf8 [of c h r h'] cmd_capture_utf8 [of body c h r h']
      cmd_channel_utf8 [of L body h r h']
    by (auto simp: known_commands_def handle_def rbind_eq_Inr response_utf8_error utf8_lits)
  with True show ?thesis by simp
next
  case False
  then have "r = from_error InvalidParam (''unknown command: '' @ cmd)"
    using assms(5) by (simp add: known_commands_def handle_def)
  then have "response_utf8 r \<longleftrightarrow> utf8_ok (''unknown command: '' @ cmd)"
    by (simp only: response_utf8_error)
  also have "\<dots> \<longleftrightarrow> utf8_ok cmd"
    by (rule utf8_ok_ascii_append) (simp add: ascii_str_def)
  finally show ?thesis using False by simp
qed

section \<open>What becomes of a request\<close>

lemma response_json_utf8:
  "json_utf8 (response_json r) \<longleftrightarrow>
     response_utf8 r \<and> utf8_ok (r_server_id r) \<and> utf8_ok (r_client_id r)"
proof
  assume "json_utf8 (response_json r)"
  from json_utf8_jat [OF this, of "''message''"] json_utf8_jat [OF this, of "''detail''"]
    json_utf8_jat [OF this, of "''server_id''"] json_utf8_jat [OF this, of "''client_id''"]
  show "response_utf8 r \<and> utf8_ok (r_server_id r) \<and> utf8_ok (r_client_id r)"
    by (simp add: response_json_members response_utf8_def)
next
  assume "response_utf8 r \<and> utf8_ok (r_server_id r) \<and> utf8_ok (r_client_id r)"
  then show "json_utf8 (response_json r)"
    unfolding response_json_def
    by (intro json_utf8_jobj) (auto intro!: json_utf8_jobj simp: utf8_lits response_utf8_def)
qed

lemma parse_body_utf8: "json_utf8_ok L \<Longrightarrow> json_utf8 (parse_body L raw)"
  by (auto simp: parse_body_def json_utf8_ok_def split: sum.splits)

lemma client_id_utf8:
  assumes "json_utf8_ok L" "json_utf8 body"
  shows "\<exists>cid. client_id_of L body = Inr cid \<and> utf8_ok cid"
proof -
  have d: "\<exists>s. jl_dump L v = Inr s \<and> utf8_ok s" if "json_utf8 v" for v
    using assms(1) that unfolding json_utf8_ok_def by blast
  have v: "json_utf8 (jat body ''client_id'')" by (rule json_utf8_jat [OF assms(2)])
  show ?thesis
  proof (cases "jcontains body ''client_id''")
    case True
    then show ?thesis
      using v d [OF v] by (cases "jat body ''client_id''")
        (simp_all add: client_id_of_def utf8_lits)
  qed (simp add: client_id_of_def utf8_lits)
qed

text \<open>
  What becomes of a connection once its request is read (given the documented behaviour of
  the JSON library, a UTF-8 server identity and UTF-8 parameters): the process terminates on an
  uncaught exception exactly if the dispatcher throws or the request names an unknown command
  that is not UTF-8; in every other case the command is executed once and exactly one reply,
  with the command's status and envelope, is handed to \<open>send_all\<close>, whose result tells whether
  all of it was taken.
\<close>

lemma connection_outcome:
  assumes L: "json_conv_ok L" "json_utf8_ok L" and "utf8_ok server_id"
    and pm: "params_utf8 (ch_params h)" "set ks \<subseteq> dom (ch_params h)"
    and tls: "fst (t_new T s)" "fst (t_accept T (snd (t_new T s)))"
    and req: "read_request T (snd (t_accept T (snd (t_new T s)))) = Some (Some (meth, path, raw), s2)"
  shows "\<exists>cid. client_id_of L (parse_body L raw) = Inr cid \<and>
    (let body = parse_body L raw; cmd = normalize_command path body;
         run = handle_connection T L ks server_id c1 c2 s h in
     if throws (handle L ks cmd body cid h) \<or> (cmd \<notin> set known_commands \<and> \<not> utf8_ok cmd)
     then \<exists>e. run = Some (Terminated e, s2, h)
     else \<exists>r h' bj ok n s3. handle L ks cmd body cid h = Inr (r, h') \<and>
       jl_dump L (response_json (stamp server_id cid c1 c2 r)) = Inr bj \<and>
       run = Some (Answered (http_text (r_code r) bj) ok, s3, h') \<and>
       send_all T (http_text (r_code r) bj) 0 0 s2 = (ok, n, s3) \<and>
       (write_ok T \<longrightarrow> (ok \<longleftrightarrow> n = length (http_text (r_code r) bj))))"
proof -
  let ?body = "parse_body L raw" and ?cmd = "normalize_command path (parse_body L raw)"
  have bu: "json_utf8 ?body" by (rule parse_body_utf8 [OF L(2)])
  obtain cid where cid: "client_id_of L ?body = Inr cid" "utf8_ok cid"
    using client_id_utf8 [OF L(2) bu] by blast
  let ?run = "handle_connection T L ks server_id c1 c2 s h"
  have run: "?run = (case answer L ks server_id c1 c2 path raw h of
      Inl e \<Rightarrow> Some (Terminated e, s2, h)
    | Inr (http, h') \<Rightarrow> (case send_all T http 0 0 s2 of (ok, n, s3) \<Rightarrow> Some (Answered http ok, s3, h')))"
    using tls req by (simp add: handle_connection_def Let_def)
  have ans: "answer L ks server_id c1 c2 path raw h =
      rbind (handle L ks ?cmd ?body cid h) (\<lambda>rh.
      rbind (jl_dump L (response_json (stamp server_id cid c1 c2 (fst rh)))) (\<lambda>body_json.
        Inr (http_text (r_code (fst rh)) body_json, snd rh)))"
    by (simp add: answer_def Let_def cid to_json_def)
  show ?thesis
  proof (cases "handle L ks ?cmd ?body cid h")
    case (Inl e)
    then show ?thesis by (simp add: cid run ans Let_def)
  next
    case (Inr rh)
    obtain r h' where rh: "rh = (r, h')" by (cases rh)
    have ru: "response_utf8 (stamp server_id cid c1 c2 r) \<longleftrightarrow> response_utf8 r"
      by (simp add: response_utf8_def stamp_def)
    have "json_utf8 (response_json (stamp server_id cid c1 c2 r)) \<longleftrightarrow>
        ?cmd \<in> set known_commands \<or> utf8_ok ?cmd"
      using assms(3) cid(2) handle_utf8 [OF L(1) bu pm, of ?cmd cid r h'] Inr rh
      by (simp add: response_json_utf8 ru) (simp add: stamp_def)
    then have d: "(\<exists>x. jl_dump L (response_json (stamp server_id cid c1 c2 r)) = Inr x) \<longleftrightarrow>
        ?cmd \<in> set known_commands \<or> utf8_ok ?cmd"
      using L(2) by (simp add: json_utf8_ok_def)
    show ?thesis
    proof (cases "jl_dump L (response_json (stamp server_id cid c1 c2 r))")
      case (Inl e)
      then show ?thesis using d by (simp add: cid run ans Inr rh Let_def)
    next
      case (Inr bj)
      obtain ok n s3 where sa: "send_all T (http_text (r_code r) bj) 0 0 s2 = (ok, n, s3)"
        by (cases "send_all T (http_text (r_code r) bj) 0 0 s2")
      have "write_ok T \<longrightarrow> (ok \<longleftrightarrow> n = length (http_text (r_code r) bj))"
        using send_all_spec [of T 0 "http_text (r_code r) bj" 0 s2] by (auto simp: sa)
      then show ?thesis
        using d Inr sa \<open>handle L ks ?cmd ?body cid h = Inr rh\<close>
        by (simp add: cid run ans rh Let_def)
    qed
  qed
qed

text \<open>A library with the documented behaviour, for the witnesses.\<close>

definition utf8_lib :: json_lib where
  "utf8_lib = conv_lib (\<lambda>s. Inr (JObj []))
     (\<lambda>j. if json_utf8 j then Inr ''{}'' else Inl (JsonError ''invalid UTF-8 byte''))"

lemma utf8_lib_ok: "json_conv_ok utf8_lib" "json_utf8_ok utf8_lib"
  by (auto simp: utf8_lib_def json_conv_ok_conv_lib json_utf8_ok_def) 
    (auto simp: conv_lib_def utf8_lits split: if_splits)

lemma demo_params_utf8:
  "params_utf8 (ch_params demo_handler)" "set [''exposure_us''] \<subseteq> dom (ch_params demo_handler)"
proof -
  have "json_utf8 (param_to_json exposure)"
    unfolding param_to_json_def exposure_def by (rule json_utf8_jobj) (simp add: utf8_lits)
  then show "params_utf8 (ch_params demo_handler)"
    by (simp add: params_utf8_def demo_handler_def register_parameter_def exposure_def)
  show "set [''exposure_us''] \<subseteq> dom (ch_params demo_handler)"
    by (simp add: demo_handler_def register_parameter_def exposure_def)
qed

text \<open>A single byte \<open>0xFF\<close> as the path terminates the process: the reply echoes it.\<close>

lemma bad_path_terminates:
  "\<exists>e. answer utf8_lib [] ''sim'' 0 0 (CHR ''/'' # [CHR 0xFF]) [] demo_handler = Inl e"
proof -
  have cmd: "normalize_command (CHR ''/'' # [CHR 0xFF]) (JObj []) = [CHR 0xFF]"
    using bare_path_simps(1) [of "[CHR 0xFF]" "''/''"]
    by (simp add: normalize_command_eq last_part_simps(1) Let_def) code_simp
  have "\<not> utf8_ok [CHR 0xFF]" by (simp add: utf8_ok.simps(2) utf8_tail_def in_bytes_def)
  then have "\<not> response_utf8 (from_error InvalidParam (''unknown command: '' @ [CHR 0xFF]))"
    using utf8_ok_ascii_append [of "''unknown command: ''" "[CHR 0xFF]"]
    by (simp add: response_utf8_error ascii_str_def)
  then have "\<not> json_utf8 (response_json (stamp ''sim'' cid c1 c2
      (from_error InvalidParam (''unknown command: '' @ [CHR 0xFF]))))" for cid c1 c2
    by (simp add: response_json_utf8) (simp add: response_utf8_def stamp_def)
  then show ?thesis
    by (simp add: answer_def parse_body_def client_id_of_def cmd Let_def handle_def to_json_def
        utf8_lib_def conv_lib_def)
qed


section \<open>A reply is framed\<close>

text \<open>
  A line break between lines is not the blank line that ends a head: the search for it goes on
  behind the line break.
\<close>

lemma find_blank_line_next:
  assumes "CHR 0x0D \<notin> set a" "CHR 0x0D \<noteq> c" "find_sub crlf2 (c # y) = Some i"
  shows "find_sub crlf2 (a @ crlf @ c # y) = Some (length a + 2 + i)"
  using assms(1)
proof (induction a)
  case Nil
  show ?case using assms(2,3) by (simp add: crlf_def crlf2_def)
next
  case (Cons x a)
  then show ?case by (auto simp: crlf2_def)
qed

lemma find_blank_line_here:
  assumes "CHR 0x0D \<notin> set a"
  shows "find_sub crlf2 (a @ crlf @ crlf) = Some (length a)"
  using find_sub_after [OF assms, of "[CHR 0x0A, CHR 0x0D, CHR 0x0A]" "[]"]
  by (simp add: crlf_def crlf2_def)

abbreviation reply_head :: "code \<Rightarrow> nat \<Rightarrow> string" where
  "reply_head c n \<equiv> request_head ''HTTP/1.1'' (int_to_dec (http_status c)) ''OK''
     (''Content-Type: application/json'' @ crlf) ''Content-Length:'' n (''Connection: close'' @ crlf)"

lemma http_text_framed: "http_text c body = reply_head c (length body) @ body"
  by (simp add: http_text_def request_head_def request_line_def crlf_def crlf2_def)

lemma status_text:
  "int_to_dec (http_status c) \<in> {''200'', ''400'', ''404'', ''500''}"
proof -
  have "int_to_dec 200 = ''200''" "int_to_dec 400 = ''400''" "int_to_dec 404 = ''404''"
    "int_to_dec 500 = ''500''"
    by code_simp+
  then show ?thesis using http_status_known [of c] by auto
qed
lemma reply_head_ok:
  assumes "n < 2 ^ 64"
  shows "head_ok ''HTTP/1.1'' (int_to_dec (http_status c)) ''OK''
    (''Content-Type: application/json'' @ crlf) ''Content-Length:'' n (''Connection: close'' @ crlf)"
proof -
  let ?st = "int_to_dec (http_status c)" and ?d = "nat_to_dec n"
  have st: "?st = ''200'' \<or> ?st = ''400'' \<or> ?st = ''404'' \<or> ?st = ''500''"
    using status_text [of c] by auto
  then have line: "CHR '' '' \<notin> set ?st" "CHR 0x0D \<notin> set (request_line ''HTTP/1.1'' ?st ''OK'')"
    by (auto simp: request_line_def)
  have nd: "CHR 0x0D \<notin> set ?d" by (rule no_cr_digits [OF digits_nat_to_dec])
  have "length ?d \<le> 20" using assms by (intro length_nat_to_dec) simp_all
  then have len: "length (reply_head c n) \<le> 64 * 1024"
    using st by (auto simp: request_head_def request_line_def crlf_def)
  have low: "to_lower ''Content-Length:'' = ''content-length:''" by code_simp
  let ?pre = "\<lambda>x. request_line ''HTTP/1.1'' x ''OK'' @ crlf @ ''Content-Type: application/json'' @ crlf"
  let ?F = "\<lambda>x. find_sub ''content-length:'' (to_lower (?pre x @ ''Content-Length:'')) = Some (length (?pre x))"
  have "?F ''200''" "?F ''400''" "?F ''404''" "?F ''500''" by code_simp+
  with st have first: "?F ?st" by (elim disjE) (simp_all only:)
  have close: "find_sub crlf2 (''Connection: close'' @ crlf @ crlf) = Some 17"
    using find_blank_line_here [of "''Connection: close''"] by simp
  have "find_sub crlf2 ((''Content-Length: '' @ ?d) @ crlf @ ''Connection: close'' @ crlf @ crlf) =
      Some (length ?d + 35)"
    using find_blank_line_next [of "''Content-Length: '' @ ?d" "CHR ''C''"] close nd by simp
  then have "find_sub crlf2 (''Content-Type: application/json'' @ crlf @
      (''Content-Length: '' @ ?d) @ crlf @ ''Connection: close'' @ crlf @ crlf) = Some (length ?d + 67)"
    using find_blank_line_next [of "''Content-Type: application/json''" "CHR ''C''"] by simp
  then have "find_sub crlf2 (reply_head c n) =
      Some (length (request_line ''HTTP/1.1'' ?st ''OK'') + 2 + (length ?d + 67))"
    using find_blank_line_next [OF line(2), of "CHR ''C''"] by (simp add: request_head_def)
  then have blank: "find_sub crlf2 (reply_head c n) = Some (length (reply_head c n) - 4)"
    by (simp add: request_head_def crlf_def)
  show ?thesis
    unfolding head_ok_def Let_def using line len low first blank assms by simp
qed

text \<open>
  C16. A reply is framed as it announces: a client that reads it with the server's own reader,
  however the network cuts it, obtains the HTTP version, the status of the command's code and,
  as the body, exactly the printed reply envelope with the identity and the time stamps, whatever
  text the envelope contains.
\<close>

theorem reply_framed:
  assumes "answer L ks server_id c1 c2 path raw h = Inr (http, h')"
    and "length http < 2 ^ 64" "delivers T s http"
  shows "\<exists>cid r bj s'. client_id_of L (parse_body L raw) = Inr cid \<and>
    handle L ks (normalize_command path (parse_body L raw)) (parse_body L raw) cid h = Inr (r, h') \<and>
    jl_dump L (response_json (stamp server_id cid c1 c2 r)) = Inr bj \<and>
    read_request T s =
      Some (Some (''HTTP/1.1'', int_to_dec (http_status (r_code r)), bj), s')"
proof -
  obtain cid r bj where parts: "client_id_of L (parse_body L raw) = Inr cid"
      "handle L ks (normalize_command path (parse_body L raw)) (parse_body L raw) cid h = Inr (r, h')"
      "jl_dump L (response_json (stamp server_id cid c1 c2 r)) = Inr bj"
    and http: "http = http_text (r_code r) bj"
    using assms(1) by (auto simp: answer_def to_json_def Let_def rbind_eq_Inr)
  have n: "length bj < 2 ^ 64" using assms(2) by (simp add: http http_text_framed)
  have tw: "takeWhile (\<lambda>x. x \<noteq> CHR ''?'') (int_to_dec (http_status (r_code r))) =
      int_to_dec (http_status (r_code r))"
    using status_text [of "r_code r"] by auto
  have d: "delivers T s (reply_head (r_code r) (length bj) @ bj)"
    using assms(3) by (simp only: http http_text_framed)
  show ?thesis using parts read_request_delivered [OF reply_head_ok [OF n] refl d, unfolded tw] by blast
qed

text \<open>A connect request, its reply delivered in three pieces to a client.\<close>

definition demo_reply :: string where
  "demo_reply = http_text Success ''{}''"

theorem reply_framed_witness:
  "\<exists>s'. read_request piece_tls [take 30 demo_reply, [], drop 30 demo_reply] =
     Some (Some (''HTTP/1.1'', ''200'', ''{}''), s')"
proof -
  have cmd: "normalize_command ''/connect'' (parse_body utf8_lib []) = ''connect''" by code_simp
  have n: "jl_dump utf8_lib j = Inr t \<Longrightarrow> t = ''{}''" for j t
    by (auto simp: utf8_lib_def conv_lib_def split: if_splits)
  have cid: "client_id_of utf8_lib (parse_body utf8_lib []) = Inr ''default''"
    by (simp add: client_id_of_def parse_body_def)
  have "handle utf8_lib [] ''connect'' (parse_body utf8_lib []) ''default'' demo_handler =
      cmd_connect ''default'' demo_handler" by (simp add: handle_def)
  then obtain r h'
    where r: "handle utf8_lib [] ''connect'' (parse_body utf8_lib []) ''default'' demo_handler = Inr (r, h')"
      and c: "r_code r = Success" and u: "response_utf8 r"
    by (simp add: cmd_connect_def demo_handler_def is_connected_def response_utf8_def utf8_lits)
  have "json_utf8 (response_json (stamp ''sim'' ''default'' 0 0 r))"
    using u by (simp add: response_json_utf8 utf8_lits stamp_def response_utf8_def)
  then have d: "jl_dump utf8_lib (response_json (stamp ''sim'' ''default'' 0 0 r)) = Inr ''{}''"
    by (simp add: utf8_lib_def conv_lib_def)
  have a: "answer utf8_lib [] ''sim'' 0 0 ''/connect'' [] demo_handler = Inr (demo_reply, h')"
    by (simp add: answer_def Let_def cid cmd r to_json_def d demo_reply_def c)
  have "int_to_dec 200 = ''200''" by code_simp
  then have l: "length demo_reply < 2 ^ 64"
    by (simp add: demo_reply_def http_text_def crlf_def crlf2_def nat_to_dec.simps)
  have d': "delivers piece_tls [take 30 demo_reply, [], drop 30 demo_reply] demo_reply"
    using delivers_pieces [of "[take 30 demo_reply, [], drop 30 demo_reply]"] by simp
  obtain cid r' bj s' where "client_id_of utf8_lib (parse_body utf8_lib []) = Inr cid"
      "handle utf8_lib [] (normalize_command ''/connect'' (parse_body utf8_lib []))
         (parse_body utf8_lib []) cid demo_handler = Inr (r', h')"
      "jl_dump utf8_lib (response_json (stamp ''sim'' cid 0 0 r')) = Inr bj"
      "read_request piece_tls [take 30 demo_reply, [], drop 30 demo_reply] =
        Some (Some (''HTTP/1.1'', int_to_dec (http_status (r_code r')), bj), s')"
    using reply_framed [OF a l d'] by blast
  moreover have "int_to_dec 200 = ''200''" by code_simp
  ultimately show ?thesis using cid cmd r c n by simp
qed
end
