(* ===== verification/NodeService.thy ===== *)
theory NodeService
  imports MainProgram Connections CommandEffects
begin

text \<open>
  The handler that \<open>main\<close> of \<open>src/main.cpp\<close> builds, and what holds of it in every state the
  requests of a running service lead to.
\<close>

section \<open>The handler of the node\<close>

text \<open>
  The constructor of \<open>CommandHandler\<close>: references to the tables, and pointers that may be null
  (\<open>None\<close>, and \<open>False\<close> for the pipeline).
\<close>

definition handler_new ::
    "session_manager \<Rightarrow> channel_manager \<Rightarrow> params \<Rightarrow> publisher_stats option \<Rightarrow> bool \<Rightarrow> data_pipeline \<Rightarrow>
     nat option \<Rightarrow> u64 option \<Rightarrow> handler" where
  "handler_new sessions channels parameters publisher pipeline dp source capture =
     \<lparr>ch_sessions = sessions, ch_channels = channels, ch_params = parameters, ch_dp = dp,
      ch_pipeline_ptr = pipeline, ch_publisher = publisher, ch_source_pairs = source,
      ch_frames_produced = capture\<rparr>"

definition node_handler :: "'z node \<Rightarrow> handler" where
  "node_handler n =
     handler_new [] cm_new (nd_params n) (Some (publisher_stats_of (nd_publisher n))) True
       (ce_pipeline (nd_engine n)) (Some (length (ds_pairs (ce_source (nd_engine n)))))
       (Some (ce_frames_produced (nd_engine n)))"

text \<open>
  The states of the handler while the service runs: commands, one after the other, and what the
  capture and publisher threads change between them.
\<close>

inductive node_reach :: "json_lib \<Rightarrow> 'z node \<Rightarrow> handler \<Rightarrow> bool" for L n where
  NodeStart: "node_reach L n (node_handler n)"
| NodeCommand: "node_reach L n h \<Longrightarrow> handle L ks cmd body c h = Inr (r, h') \<Longrightarrow> node_reach L n h'"
| NodeThreads: "node_reach L n h \<Longrightarrow> env_change h h' \<Longrightarrow> ch_params h' = ch_params h \<Longrightarrow> node_reach L n h'"

lemma node_reach_handler: "node_reach L n h \<Longrightarrow> handler_reach L h"
proof (induction rule: node_reach.induct)
  case NodeStart
  show ?case by (rule handler_init) (simp_all add: node_handler_def handler_new_def)
next
  case (NodeCommand h ks cmd body c r h')
  then show ?case by (blast intro: handler_command)
next
  case (NodeThreads h h')
  then show ?case by (blast intro: handler_env)
qed

section \<open>The parameters of a running service\<close>

text \<open>A command changes a parameter only by \<open>set_value\<close>.\<close>

lemma flush_params [simp]: "ch_params (flush_all h) = ch_params h"
  by (simp add: flush_all_def Let_def)

lemma command_params:
  "cmd_connect c h = Inr (r, h') \<Longrightarrow> ch_params h' = ch_params h"
  "cmd_disconnect c h = Inr (r, h') \<Longrightarrow> ch_params h' = ch_params h"
  "cmd_start_capture body c h = Inr (r, h') \<Longrightarrow> ch_params h' = ch_params h"
  "cmd_stop_capture body c h = Inr (r, h') \<Longrightarrow> ch_params h' = ch_params h"
  "cmd_activate_channel L body h = Inr (r, h') \<Longrightarrow> ch_params h' = ch_params h"
  "cmd_deactivate_channel L body h = Inr (r, h') \<Longrightarrow> ch_params h' = ch_params h"
  by (auto simp: cmd_connect_def cmd_disconnect_def cmd_start_capture_def cmd_stop_capture_def
      cmd_activate_channel_def cmd_deactivate_channel_def rbind_eq_Inr Let_def
      split: if_splits option.splits)

lemma history_Nil [simp]: "history [] pm = pm"
  by (simp add: history_def)

lemma history_Cons: "history (kv # kvs) pm = history kvs (snd (snd (set_value (fst kv) (snd kv) [] pm)))"
  by (simp add: history_def)

lemma history_append: "history (kvs @ kvs') pm = history kvs' (history kvs pm)"
  by (simp add: history_def)

lemma handle_params:
  assumes "handle L ks cmd body c h = Inr (r, h')"
  shows "\<exists>kvs. ch_params h' = history kvs (ch_params h)"
proof (cases "cmd = ''set_parameter''")
  case True
  with assms have s: "cmd_set_parameter L body h = Inr (r, h')" by (simp add: handle_def)
  consider "h' = h" | name v where "h' = h\<lparr>ch_params := snd (snd (set_value name v [] (ch_params h)))\<rparr>"
    using cmd_set_cases [OF s] by blast
  then show ?thesis
  proof cases
    case 1
    then show ?thesis by (metis history_Nil)
  next
    case 2
    then have "ch_params h' = history [(name, v)] (ch_params h)" by (simp add: history_Cons)
    then show ?thesis by blast
  qed
next
  case False
  then have "ch_params h' = ch_params h"
    using assms by (auto simp: handle_def rbind_eq_Inr dest: command_params split: if_splits)
  then show ?thesis by (metis history_Nil)
qed

lemma load_items_history: "\<exists>kvs. load_items L es pm = history kvs pm"
proof (induction es arbitrary: pm)
  case Nil
  show ?case by (metis history_Nil load_items.simps(1))
next
  case (Cons e es)
  obtain name v where e: "e = (name, v)" by (cases e)
  show ?case
  proof (cases "param_get name pm")
    case None
    then show ?thesis using Cons.IH by (simp add: e)
  next
    case (Some cur)
    show ?thesis
    proof (cases "typed_value L (p_value cur) v")
      case (Inl x)
      then have "load_items L (e # es) pm = pm" using Some by (simp add: e)
      then show ?thesis by (metis history_Nil)
    next
      case (Inr pv)
      obtain kvs where "load_items L es (snd (snd (set_value name pv [] pm))) =
          history kvs (snd (snd (set_value name pv [] pm)))"
        using Cons.IH by blast
      then have "load_items L (e # es) pm = history ((name, pv) # kvs) pm"
        using Some Inr by (simp add: e history_Cons)
      then show ?thesis by blast
    qed
  qed
qed

lemma load_camera_setting_history: "\<exists>kvs. load_camera_setting L files dir pm = history kvs pm"
  using load_items_history [of L] history_Nil [of pm, symmetric]
  by (cases "files (setting_path dir)"; cases "jl_read L (the (files (setting_path dir)))")
    (auto simp: load_camera_setting_def simp del: history_Nil)

text \<open>Hence every parameter is a registered one, untouched or holding a value it admits.\<close>

lemma node_params:
  assumes "node_init L mkdir listing bins z files dir = Inr (Some n)" "node_reach L n h"
  shows "\<exists>kvs. ch_params h = history kvs (register_parameters (nd_config n) Map.empty)"
  using assms(2)
proof (induction rule: node_reach.induct)
  case NodeStart
  have "nd_params n = load_camera_setting L files dir (register_parameters (nd_config n) Map.empty)"
    using node_init_pipeline [OF assms(1)] by blast
  then show ?case
    using load_camera_setting_history by (simp add: node_handler_def handler_new_def)
next
  case (NodeCommand h ks cmd body c r h')
  then show ?case using handle_params [OF NodeCommand.hyps(2)] history_append by metis
qed simp

lemma param_json_utf8:
  assumes "utf8_ok (p_name p)" "json_utf8 (value_to_json (p_value p))"
    and "json_utf8 (value_to_json (p_default_value p))" "json_utf8 (value_to_json (p_min p))"
    and "json_utf8 (value_to_json (p_max p))" "\<forall>s \<in> set (p_enum_options p). utf8_ok s"
  shows "json_utf8 (param_to_json p)"
proof -
  have "utf8_ok (param_variant_type_name v)" for v by (cases v) (simp_all add: utf8_lits)
  then show ?thesis
    unfolding param_to_json_def using assms by (intro json_utf8_jobj) (auto simp: utf8_lits)
qed

lemma registered_utf8:
  assumes "register_parameters cfg Map.empty k = Some p"
  shows "utf8_ok (p_name p)" "json_utf8 (value_to_json (p_value p))"
    "json_utf8 (value_to_json (p_default_value p))" "json_utf8 (value_to_json (p_min p))"
    "json_utf8 (value_to_json (p_max p))" "\<forall>s \<in> set (p_enum_options p). utf8_ok s"
    "is_Enum (p_value p) \<longrightarrow> p_enum_options p \<noteq> []"
  using assms by (auto simp: registered_defs utf8_lits split: if_splits)

lemma tuned_utf8:
  assumes "register_parameters cfg Map.empty k = Some p" "tuned p q"
  shows "json_utf8 (param_to_json q)"
proof (cases "q = p")
  case True
  then show ?thesis using registered_utf8 [OF assms(1)] by (simp add: param_json_utf8)
next
  case False
  define v where "v = p_value q"
  have q: "q = p\<lparr>p_value := v\<rparr>" and a: "admits p v" using assms(2) False by (simp_all add: tuned_def v_def)
  note r = registered_utf8 [OF assms(1)]
  have "json_utf8 (value_to_json v)"
    using a r(6,7) by (cases v; cases "p_value p")
      (auto simp: admits_def value_ok_def same_type_def enum_allowed_def)
  then show ?thesis using r by (simp add: q param_json_utf8)
qed

lemma node_params_utf8:
  assumes "node_init L mkdir listing bins z files dir = Inr (Some n)" "node_reach L n h"
  shows "params_utf8 (ch_params h)" "dom (ch_params h) = set all_names"
proof -
  let ?reg = "register_parameters (nd_config n) Map.empty"
  obtain kvs where h: "ch_params h = history kvs ?reg" using node_params [OF assms] by blast
  show d: "dom (ch_params h) = set all_names"
    using all_names_registered [of "nd_config n"] by (simp add: h history_dom enumerates_def)
  show "params_utf8 (ch_params h)"
    unfolding params_utf8_def
  proof (intro allI impI)
    fix k q assume k: "ch_params h k = Some q"
    then have "k \<in> dom ?reg" using history_dom [of kvs ?reg] by (auto simp: h)
    then obtain p where p: "?reg k = Some p" by blast
    with k have "tuned p q" using history_tuned [of ?reg k p kvs, OF p] by (auto simp: h)
    with p show "json_utf8 (param_to_json q)" by (rule tuned_utf8)
  qed
qed

section \<open>Serving requests\<close>

text \<open>
  C14. The running service answers. After \<open>main\<close> has initialised the node and any requests have been
  served, a client that sends a well-formed request, cut anywhere by the network, gets exactly one
  reply, of which \<open>send_all\<close> tells whether it was taken whole, and the service goes on; the only requests that terminate the process instead are those on
  which the dispatcher throws, and unknown commands that are not UTF-8.
\<close>

theorem running_service_answers:
  assumes "json_conv_ok L" "json_utf8_ok L" "node_init L mkdir listing bins z files dir = Inr (Some n)"
    and "node_reach L n h" "utf8_ok server_id" "set ks \<subseteq> set all_names"
    and "fst (t_new T s)" "fst (t_accept T (snd (t_new T s)))"
    and "head_ok meth target vers hs1 name len hs2" "length raw = len"
    and "delivers T (snd (t_accept T (snd (t_new T s))))
      (request_head meth target vers hs1 name len hs2 @ raw)"
  shows "\<exists>cid out s' h'. client_id_of L (parse_body L raw) = Inr cid \<and>
    handle_connection T L ks server_id c1 c2 s h = Some (out, s', h') \<and> node_reach L n h' \<and>
    (let body = parse_body L raw;
         cmd = normalize_command (takeWhile (\<lambda>c. c \<noteq> CHR ''?'') target) body in
     if throws (handle L ks cmd body cid h) \<or> (cmd \<notin> set known_commands \<and> \<not> utf8_ok cmd)
     then \<exists>e. out = Terminated e
     else \<exists>r bj ok m s2. handle L ks cmd body cid h = Inr (r, h') \<and>
       jl_dump L (response_json (stamp server_id cid c1 c2 r)) = Inr bj \<and>
       out = Answered (http_text (r_code r) bj) ok \<and>
       send_all T (http_text (r_code r) bj) 0 0 s2 = (ok, m, s') \<and>
       (write_ok T \<longrightarrow> (ok \<longleftrightarrow> m = length (http_text (r_code r) bj))))"
proof -
  obtain s2 where req: "read_request T (snd (t_accept T (snd (t_new T s)))) =
      Some (Some (meth, takeWhile (\<lambda>c. c \<noteq> CHR ''?'') target, raw), s2)"
    using read_request_delivered [OF assms(9-11)] by blast
  note p = node_params_utf8 [OF assms(3,4)]
  have ks: "set ks \<subseteq> dom (ch_params h)" using assms(6) by (simp add: p(2))
  define body where "body = parse_body L raw"
  define cmd where "cmd = normalize_command (takeWhile (\<lambda>c. c \<noteq> CHR ''?'') target) body"
  define bad where "bad cid \<longleftrightarrow> throws (handle L ks cmd body cid h) \<or>
    (cmd \<notin> set known_commands \<and> \<not> utf8_ok cmd)" for cid
  define run where "run = handle_connection T L ks server_id c1 c2 s h"
  obtain cid where cid: "client_id_of L body = Inr cid" and
    oc: "if bad cid then \<exists>e. run = Some (Terminated e, s2, h)
      else \<exists>r h' bj ok m s3. handle L ks cmd body cid h = Inr (r, h') \<and>
       jl_dump L (response_json (stamp server_id cid c1 c2 r)) = Inr bj \<and>
       run = Some (Answered (http_text (r_code r) bj) ok, s3, h') \<and>
       send_all T (http_text (r_code r) bj) 0 0 s2 = (ok, m, s3) \<and>
       (write_ok T \<longrightarrow> (ok \<longleftrightarrow> m = length (http_text (r_code r) bj)))"
    using connection_outcome [OF assms(1,2,5) p(1) ks assms(7,8) req, of c1 c2]
    unfolding bad_def cmd_def body_def run_def Let_def by blast
  have "\<exists>out s' h'. run = Some (out, s', h') \<and> node_reach L n h' \<and>
    (if bad cid then \<exists>e. out = Terminated e
     else \<exists>r bj ok m s2. handle L ks cmd body cid h = Inr (r, h') \<and>
       jl_dump L (response_json (stamp server_id cid c1 c2 r)) = Inr bj \<and>
       out = Answered (http_text (r_code r) bj) ok \<and>
       send_all T (http_text (r_code r) bj) 0 0 s2 = (ok, m, s') \<and>
       (write_ok T \<longrightarrow> (ok \<longleftrightarrow> m = length (http_text (r_code r) bj))))"
  proof (cases "bad cid")
    case True
    with oc assms(4) show ?thesis by auto
  next
    case False
    with oc NodeCommand [OF assms(4)] show ?thesis unfolding if_not_P [OF False] by metis
  qed
  with cid show ?thesis unfolding bad_def cmd_def body_def run_def Let_def by blast
qed

section \<open>A node for the witness\<close>

text \<open>A library that reads the sample configuration and empty bodies; a peer that sends \<open>connect\<close>.\<close>

definition served_lib :: json_lib where
  "served_lib = conv_lib (\<lambda>s. Inr (if s = ''{...}'' then sample_json 8443 else JObj []))
     (\<lambda>j. if json_utf8 j then Inr ''{}'' else Inl (JsonError ''invalid UTF-8 byte''))"

lemma served_lib_ok: "json_conv_ok served_lib" "json_utf8_ok served_lib"
proof -
  have "json_utf8 (sample_json 8443)" by (simp add: sample_json_def utf8_lits)
  then show "json_utf8_ok served_lib"
    by (auto simp: served_lib_def json_utf8_ok_def) (auto simp: conv_lib_def utf8_lits split: if_splits)
  show "json_conv_ok served_lib" by (simp add: served_lib_def json_conv_ok_conv_lib)
qed

lemma served_config_load: "config_load served_lib sample_files ''config'' [] = (sample_config 8443, [])"
  by (simp add: config_load_def load_json_file_def sample_files_def served_lib_def conv_lib_def
      sample_json_def load_body_def load_admin_def load_capture_def load_zmq_def load_spsc_def
      check_admin_eq check_fps_def check_zmq_def clamp_queue_def rd_def Let_def steps.simps
      config_default_def sample_config_def to_int32_id in_int32_def)

lemma served_node: "\<exists>n :: unit node. node_init served_lib (\<lambda>_. Inr ()) (\<lambda>_. Inr None) (\<lambda>_. None) () sample_files ''config'' =
    Inr (Some n)"
proof -
  have d: "ds_load (\<lambda>_. Inr None) (\<lambda>_. None) (cap_stereo_image_dir (sample_config 8443)) [] ds =
      Inr (True, [], ds)" for ds
    by (simp add: ds_load_def sample_config_def config_default_def)
  obtain dp where p: "pipeline_new (word_of_int (spsc_queue_size (sample_config 8443))) = Inr dp"
    by (simp add: sample_config_def config_default_def pipeline_new_def queue_new_def
        queue_max_size_def)
  show ?thesis by (simp add: node_init_def served_config_load d p Let_def)
qed

lemma demo_request_command: "normalize_command ''/api/connect'' body = ''connect''"
  using bare_path_simps(1) [of "''connect''" "''/api/''"]
  by (simp add: normalize_command_eq last_part_simps(1) Let_def) code_simp

theorem running_service_answers_witness:
  "\<exists>(n :: unit node) http ok s' h'.
     node_init served_lib (\<lambda>_. Inr ()) (\<lambda>_. Inr None) (\<lambda>_. None) () sample_files ''config'' = Inr (Some n) \<and>
     handle_connection piece_tls served_lib all_names ''sim'' 0 0 demo_pieces (node_handler n) =
       Some (Answered http ok, s', h')"
proof -
  obtain n :: "unit node" where
    n: "node_init served_lib (\<lambda>_. Inr ()) (\<lambda>_. Inr None) (\<lambda>_. None) () sample_files ''config'' = Inr (Some n)"
    using served_node by blast
  have tls: "t_new piece_tls s = (True, s)" "t_accept piece_tls s = (True, s)" for s
    by (simp_all add: piece_tls_def)
  have nt: "\<not> throws (handle served_lib all_names ''connect'' body cid (node_handler n))" for body cid
    by (simp add: handle_def cmd_connect_def)
  have d: "delivers piece_tls (snd (t_accept piece_tls (snd (t_new piece_tls demo_pieces))))
      (request_head ''POST'' ''/api/connect?x=1'' ''HTTP/1.1'' [] ''Content-Length:'' 2 [] @ demo_body)"
    using demo_delivered by (simp add: tls demo_head_def)
  have len: "length demo_body = 2" by (simp add: demo_body_def)
  have u: "utf8_ok ''sim''" by (simp add: utf8_lits)
  from running_service_answers [OF served_lib_ok n NodeStart u subset_refl _ _ demo_head_ok len d,
      of 0 0] n
  show ?thesis by (auto simp: tls demo_request_command nt Let_def known_commands_def)
qed

end
