(* ===== verification/Startup.thy ===== *)
theory Startup
  imports MainProgram
begin

text \<open>
  How \<open>main\<close> of \<open>src/main.cpp\<close> gets to its waiting loop, or not: configuration errors, file-system
  exceptions, failed starts.
\<close>

text \<open>The calls of the initialisation that can throw, in order.\<close>

definition startup_errors ::
    "(string \<Rightarrow> unit result) \<Rightarrow> (string \<Rightarrow> dir_entry list option result) \<Rightarrow> config \<Rightarrow> unit result" where
  "startup_errors mkdir listing cfg =
     rbind (mkdir ''log'') (\<lambda>_. rbind (mkdir ''status'') (\<lambda>_.
       if cap_stereo_image_dir cfg = [] then Inr ()
       else rbind (listing (cap_stereo_image_dir cfg)) (\<lambda>_. Inr ())))"

definition starts_up :: "'z zmq_lib \<Rightarrow> start_env \<Rightarrow> 'z node \<Rightarrow> bool" where
  "starts_up Z E n \<longleftrightarrow> fst (publisher_start Z (nd_publisher n)) \<and>
     server_start E (ad_host (nd_config n)) (ad_port (nd_config n))
       (ad_worker_threads (nd_config n)) \<noteq> None"

section \<open>Loading and allocating never throw\<close>

lemma fld_int32: "json_conv_ok L \<Longrightarrow> in_int32 d \<Longrightarrow> in_int32 (fld (jl_int L) j k d)"
  by (auto simp: fld_def json_conv_ok_def split: sum.splits)

lemma loaded_int32:
  assumes "json_conv_ok L" "config_load L files dir [] = (cfg, [])"
  shows "in_int32 (cap_image_width cfg)" "in_int32 (cap_image_height cfg)"
    "1 \<le> spsc_queue_size cfg" "in_int32 (spsc_queue_size cfg)"
proof -
  obtain src j where f: "files (dir @ ''/config.json'') = Some src" "jl_read L src = Inr j"
    using assms(2) by (auto simp: config_load_def load_json_file_def split: option.splits sum.splits)
  have "load_body L j config_default = (cfg, Go)"
    using assms(2) load_body_reports [of L j config_default cfg] f
    by (auto simp: config_load_def load_json_file_def split: prod.splits outcome.splits)
  from load_body_Go [OF this] have c: "cfg = cfg_of L j" by blast
  note i = fld_int32 [OF assms(1)]
  have d: "in_int32 1280" "in_int32 720" "in_int32 8" by (simp_all add: in_int32_def)
  show "in_int32 (cap_image_width cfg)" "in_int32 (cap_image_height cfg)"
    unfolding c cfg_of_def Let_def by (simp_all add: i d config_default_def)
  have "in_int32 (max 1 x)" if "in_int32 x" for x using that by (auto simp: in_int32_def max_def)
  then show "in_int32 (spsc_queue_size cfg)" "1 \<le> spsc_queue_size cfg"
    unfolding c cfg_of_def Let_def by (simp_all add: i d config_default_def)
qed

lemma pipeline_new_small:
  assumes "1 \<le> c" "in_int32 c"
  shows "\<exists>dp. pipeline_new (word_of_int c) = Inr dp"
proof -
  have "unat (word_of_int c :: u64) = nat c"
    using assms by (simp add: unat_eq_nat_uint uint_word_of_int take_bit_int_eq_self in_int32_def
        flip: take_bit_eq_mod)
  then have "unat (word_of_int c :: u64) \<le> queue_max_size"
    using assms by (simp add: queue_max_size_def in_int32_def)
  moreover have "\<not> (word_of_int c :: u64) < 1"
    using \<open>unat (word_of_int c :: u64) = nat c\<close> assms(1) by (simp add: word_less_nat_alt)
  ultimately show ?thesis by (simp add: pipeline_new_def queue_new_def Let_def not_less)
qed

lemma ds_load_listed:
  assumes "sizes_ok ds"
  shows "(case (if dir = [] then Inr None else listing dir) of
      Inl e \<Rightarrow> ds_load listing bins dir err ds = Inl e
    | Inr f \<Rightarrow> \<exists>r. ds_load listing bins dir err ds = Inr r)"
proof -
  have "\<exists>ps. load_pairs bins ds m = Inr ps" for m using load_pairs_spec [OF assms] by blast
  then obtain ps where "load_pairs bins ds m = Inr (ps m)" for m by metis
  then show ?thesis by (cases "listing dir") (auto simp: ds_load_def split: option.splits)
qed

lemma node_init_outcome:
  assumes "json_conv_ok L" "config_load L files dir [] = (cfg, [])"
  shows "case startup_errors mkdir listing cfg of
      Inl e \<Rightarrow> node_init L mkdir listing bins z files dir = Inl e
    | Inr u \<Rightarrow> \<exists>n. node_init L mkdir listing bins z files dir = Inr (Some n)"
proof -
  let ?ds = "set_image_channels (cap_image_channels cfg)
    (set_image_size (cap_image_width cfg) (cap_image_height cfg) data_source_new)"
  note i = loaded_int32 [OF assms]
  have "sizes_ok ?ds" using i by (simp add: sizes_ok_def set_image_channels_def set_image_size_def)
  note load = ds_load_listed [OF this, where dir = "cap_stereo_image_dir cfg" and listing = listing
      and bins = bins and err = "[]"]
  obtain dp where "pipeline_new (word_of_int (spsc_queue_size cfg)) = Inr dp"
    using pipeline_new_small i by blast
  then show ?thesis
    using load
    by (cases "mkdir ''log''"; cases "mkdir ''status''"; cases "cap_stereo_image_dir cfg = []";
        cases "listing (cap_stereo_image_dir cfg)")
      (auto simp: startup_errors_def node_init_def assms(2) Let_def)
qed

lemma node_start_outcome:
  assumes "\<not> ce_running (nd_engine n)"
  shows "if starts_up Z E n
    then \<exists>m. node_start Z E n = (None, m) \<and> pb_running (nd_publisher m) \<and> ce_running (nd_engine m)
    else \<exists>m. node_start Z E n = (Some 1, m)"
  using assms publisher_start_running [of Z "nd_publisher n"]
  by (auto simp: starts_up_def node_start_def Let_def engine_start_def split: option.splits)

text \<open>
  C19. How \<open>main\<close> starts. A configuration error returns 1 before anything else happens. With a valid
  configuration an exception of the file system, from creating the two directories or from listing
  the stereo directory, ends the process, and nothing else can throw. Otherwise the service waits
  for a signal with both threads running exactly if the publisher has its sockets bound and the
  server listens; if not, \<open>main\<close> returns 1, and the threads that had been started are stopped.
\<close>

theorem startup_outcomes:
  assumes "json_conv_ok L" "config_load L files (config_dir_of argv) [] = (cfg, err)"
  shows "let prog = main_program Z C L E mkdir listing bins z files argv sig intr can_open ks clocks running meanwhile in
    (err \<noteq> [] \<longrightarrow> prog = Some (Returned 1 None)) \<and>
    (err = [] \<longrightarrow>
      (case startup_errors mkdir listing cfg of
         Inl e \<Rightarrow> prog = Some (Terminate e)
       | Inr u \<Rightarrow>
           \<exists>n. node_init L mkdir listing bins z files (config_dir_of argv) = Inr (Some n) \<and> nd_config n = cfg \<and>
             (if starts_up Z E n
              then \<exists>m. prog = run_node Z C L sig intr can_open ks clocks running meanwhile m \<and>
                pb_running (nd_publisher m) \<and> ce_running (nd_engine m)
              else \<exists>m. prog = Some (Returned 1 (Some m)) \<and>
                \<not> pb_running (nd_publisher m) \<and> \<not> ce_running (nd_engine m))))"
proof (cases "err = []")
  case True
  with assms(2) have c: "config_load L files (config_dir_of argv) [] = (cfg, [])" by simp
  note o = node_init_outcome [OF assms(1) c, of mkdir listing bins z]
  show ?thesis
  proof (cases "startup_errors mkdir listing cfg")
    case (Inl ex)
    then show ?thesis using o True by (simp add: main_program_def)
  next
    case (Inr u)
    then obtain n where n: "node_init L mkdir listing bins z files (config_dir_of argv) = Inr (Some n)"
      using o by auto
    note p = node_init_pipeline [OF n]
    have off: "\<not> pb_running (nd_publisher (node_destroy C m))" "\<not> ce_running (nd_engine (node_destroy C m))"
      for m by (simp_all add: node_destroy_def Let_def publisher_destroy_def close_sock_def split: option.splits)
    have "\<not> ce_running (nd_engine n)" using p by blast
    note s = node_start_outcome [OF this, of Z E]
    show ?thesis
      using Inr True n p c s off by (auto simp: main_program_def Let_def split: if_splits)
  qed
qed (simp add: main_program_def node_init_def assms(2))

theorem startup_outcomes_witness:
  "main_program list_zmq list_ctx (sample_lib 8443) plain_env
     (\<lambda>d. if d = ''status'' then Inl (FilesystemError d) else Inr ()) (\<lambda>_. Inr None) (\<lambda>_. None)
     (0, []) sample_files [] (\<lambda>i. False) False (\<lambda>_. True) all_names (\<lambda>_. (0, 0)) id id =
     Some (Terminate (FilesystemError ''status'')) \<and>
   (\<exists>m. main_program list_zmq list_ctx (sample_lib 8443) (plain_env\<lparr>se_cert := False\<rparr>)
     (\<lambda>_. Inr ()) (\<lambda>_. Inr None) (\<lambda>_. None)
     (0, []) sample_files [] (\<lambda>i. False) False (\<lambda>_. True) all_names (\<lambda>_. (0, 0)) id id =
     Some (Returned 1 (Some m)) \<and> \<not> pb_running (nd_publisher m))"
proof -
  have ok: "json_conv_ok (sample_lib 8443)" by (simp add: sample_lib_def json_conv_ok_conv_lib)
  have c: "config_load (sample_lib 8443) sample_files (config_dir_of []) [] = (sample_config 8443, [])"
    unfolding config_dir_of_def by (simp add: sample_load in_int32_def)
  let ?bad = "\<lambda>d. if d = ''status'' then Inl (FilesystemError d) else Inr ()"
  have e: "startup_errors ?bad l cfg = Inl (FilesystemError ''status'')"
    "startup_errors (\<lambda>_. Inr ()) (\<lambda>_. Inr None) cfg = Inr ()" for l cfg
    by (simp_all add: startup_errors_def)
  have n: "\<not> starts_up Z (plain_env\<lparr>se_cert := False\<rparr>) n" for Z and n :: "(nat \<times> nat list) node"
    by (simp add: starts_up_def server_start_def)
  show ?thesis
    using startup_outcomes [OF ok c, where Z = list_zmq and C = list_ctx and E = plain_env and mkdir = ?bad
        and listing = "\<lambda>_. Inr None" and bins = "\<lambda>_. None" and z = "(0, [])" and sig = "\<lambda>i. False"
        and intr = False and can_open = "\<lambda>_. True" and ks = all_names and clocks = "\<lambda>_. (0, 0)" and running = id and meanwhile = id]
      startup_outcomes [OF ok c, where Z = list_zmq and C = list_ctx and E = "plain_env\<lparr>se_cert := False\<rparr>"
        and mkdir = "\<lambda>_. Inr ()" and listing = "\<lambda>_. Inr None" and bins = "\<lambda>_. None" and z = "(0, [])"
        and sig = "\<lambda>i. False" and intr = False and can_open = "\<lambda>_. True" and ks = all_names and clocks = "\<lambda>_. (0, 0)"
        and running = id and meanwhile = id]
    by (auto simp: e n Let_def)
qed

end
