(* ===== verification/Signals.thy ===== *)
theory Signals
  imports MainProgram
begin

text \<open>
  The signals of \<open>src/main.cpp\<close>: \<open>on_signal\<close>, \<open>ignore_sigpipe\<close> and the two calls of \<open>signal\<close>, and
  what a signal does to the process before, while and after \<open>main\<close> waits for one.
\<close>

section \<open>Dispositions\<close>

datatype signal = SIGHUP | SIGINT | SIGKILL | SIGPIPE | SIGTERM

fun signal_number :: "signal \<Rightarrow> int" where
  "signal_number SIGHUP = 1"
| "signal_number SIGINT = 2"
| "signal_number SIGKILL = 9"
| "signal_number SIGPIPE = 13"
| "signal_number SIGTERM = 15"

datatype disposition = SIG_DFL | SIG_IGN | OnSignal

record process =
  pr_disp :: "signal \<Rightarrow> disposition"
  g_signal :: int

definition process_new :: process where
  "process_new = \<lparr>pr_disp = (\<lambda>_. SIG_DFL), g_signal = 0\<rparr>"

definition on_signal :: "int \<Rightarrow> process \<Rightarrow> process" where
  "on_signal sig p = p\<lparr>g_signal := sig\<rparr>"

definition ignore_sigpipe :: "process \<Rightarrow> process" where
  "ignore_sigpipe p = p\<lparr>pr_disp := (pr_disp p)(SIGPIPE := SIG_IGN)\<rparr>"

definition install_handlers :: "process \<Rightarrow> process" where
  "install_handlers p = p\<lparr>pr_disp := (pr_disp p)(SIGINT := OnSignal, SIGTERM := OnSignal)\<rparr>"

text \<open>
  A signal arrives; \<open>None\<close> when it ends the process, which is the default of the signals above.
  \<open>SIGKILL\<close> cannot be caught.
\<close>

definition deliver :: "signal \<Rightarrow> process \<Rightarrow> process option" where
  "deliver s p =
     (if s = SIGKILL then None
      else
        (case pr_disp p s of
           SIG_DFL \<Rightarrow> None
         | SIG_IGN \<Rightarrow> Some p
         | OnSignal \<Rightarrow> Some (on_signal (signal_number s) p)))"

fun deliver_all :: "signal list \<Rightarrow> process \<Rightarrow> process option" where
  "deliver_all [] p = Some p"
| "deliver_all (s # ss) p = Option.bind (deliver s p) (deliver_all ss)"

section \<open>The life of the process\<close>

text \<open>
  \<open>early\<close> arrive before the handlers are installed, \<open>raised i\<close> between that and the \<open>i\<close>-th reading of
  the flag, counted from the reading before.
\<close>

fun polled :: "(nat \<Rightarrow> signal list) \<Rightarrow> process \<Rightarrow> nat \<Rightarrow> process option" where
  "polled raised p 0 = deliver_all (raised 0) p"
| "polled raised p (Suc i) = Option.bind (polled raised p i) (deliver_all (raised (Suc i)))"

definition waiting_process :: "signal list \<Rightarrow> process option" where
  "waiting_process early = map_option install_handlers (deliver_all early (ignore_sigpipe process_new))"

text \<open>The condition \<open>g_signal.load() == 0\<close> of the loop, negated.\<close>

definition signalled :: "(nat \<Rightarrow> signal list) \<Rightarrow> process \<Rightarrow> nat \<Rightarrow> bool" where
  "signalled raised p i \<longleftrightarrow> (case polled raised p i of None \<Rightarrow> False | Some q \<Rightarrow> g_signal q \<noteq> 0)"

text \<open>The handler runs, and so interrupts a blocking call, for the signals it is installed for.\<close>

definition interrupts :: "signal list \<Rightarrow> process \<Rightarrow> bool" where
  "interrupts late p \<longleftrightarrow> list_ex (\<lambda>s. pr_disp p s = OnSignal) late"

definition handled :: "signal set" where
  "handled = {SIGINT, SIGTERM}"

definition harmless :: "signal set" where
  "harmless = insert SIGPIPE handled"

lemma deliver_all_append:
  "deliver_all (ss @ ts) p = Option.bind (deliver_all ss p) (deliver_all ts)"
  by (induction ss arbitrary: p) (auto split: Option.bind_splits)

text \<open>Before the handlers are installed only \<open>SIGPIPE\<close> is survived.\<close>

lemma early_signals:
  "deliver_all early (ignore_sigpipe process_new) =
     (if set early \<subseteq> {SIGPIPE} then Some (ignore_sigpipe process_new) else None)"
  by (induction early) (auto simp: deliver_def ignore_sigpipe_def process_new_def)

definition installed :: "process \<Rightarrow> bool" where
  "installed p \<longleftrightarrow> pr_disp p = (\<lambda>_. SIG_DFL)(SIGPIPE := SIG_IGN, SIGINT := OnSignal, SIGTERM := OnSignal)"

lemma waiting_process_eq:
  "waiting_process early =
     (if set early \<subseteq> {SIGPIPE}
      then Some \<lparr>pr_disp = (\<lambda>_. SIG_DFL)(SIGPIPE := SIG_IGN, SIGINT := OnSignal, SIGTERM := OnSignal),
        g_signal = 0\<rparr> else None)"
  unfolding waiting_process_def early_signals
  by (simp add: install_handlers_def ignore_sigpipe_def process_new_def)

lemma deliver_installed:
  assumes "installed p"
  shows "deliver s p = (if s \<in> handled then Some (on_signal (signal_number s) p)
    else if s = SIGPIPE then Some p else None)"
  using assms by (cases s) (simp_all add: deliver_def installed_def handled_def)

lemma on_signal_simps [simp]:
  "installed (on_signal k p) = installed p" "g_signal (on_signal k p) = k"
  by (simp_all add: installed_def on_signal_def)

lemma deliver_all_installed:
  assumes "installed p"
  shows "case deliver_all ss p of
      None \<Rightarrow> \<not> set ss \<subseteq> harmless
    | Some q \<Rightarrow> set ss \<subseteq> harmless \<and> installed q \<and>
        (g_signal q \<noteq> 0 \<longleftrightarrow> g_signal p \<noteq> 0 \<or> (\<exists>s \<in> set ss. s \<in> handled))"
  using assms
proof (induction ss arbitrary: p)
  case (Cons s ss)
  note d = deliver_installed [OF Cons.prems]
  show ?case
  proof (cases "s \<in> handled")
    case True
    have "signal_number s \<noteq> 0" by (cases s) simp_all
    with Cons.IH [of "on_signal (signal_number s) p"] Cons.prems True show ?thesis
      by (auto simp: d harmless_def split: option.splits)
  next
    case False
    then show ?thesis
      using Cons.IH [OF Cons.prems] by (auto simp: d harmless_def split: option.splits)
  qed
qed simp

lemma polled_installed:
  assumes "installed p"
  shows "case polled raised p i of
      None \<Rightarrow> \<exists>j \<le> i. \<not> set (raised j) \<subseteq> harmless
    | Some q \<Rightarrow> (\<forall>j \<le> i. set (raised j) \<subseteq> harmless) \<and> installed q \<and>
        (g_signal q \<noteq> 0 \<longleftrightarrow> g_signal p \<noteq> 0 \<or> (\<exists>j \<le> i. \<exists>s \<in> set (raised j). s \<in> handled))"
proof (induction i)
  case 0
  then show ?case using deliver_all_installed [OF assms, of "raised 0"] by (auto split: option.splits)
next
  case (Suc i)
  show ?case
  proof (cases "polled raised p i")
    case None
    then show ?thesis using Suc by (auto simp: le_Suc_eq)
  next
    case (Some q)
    with Suc have q: "installed q" by simp
    show ?thesis
      using Suc Some deliver_all_installed [OF q, of "raised (Suc i)"]
      by (auto simp: le_Suc_eq split: option.splits)
  qed
qed

lemma signalled_iff:
  assumes "installed p" "g_signal p = 0" "\<And>j. set (raised j) \<subseteq> harmless"
  shows "signalled raised p i \<longleftrightarrow> (\<exists>j \<le> i. \<exists>s \<in> set (raised j). s \<in> handled)"
  using polled_installed [OF assms(1), where raised = raised and i = i] assms(2,3)
  by (auto simp: signalled_def split: option.splits)

lemma waiting_installed:
  assumes "waiting_process early = Some p"
  shows "installed p" "g_signal p = 0" "interrupts late p \<longleftrightarrow> (\<exists>s \<in> set late. s \<in> handled)"
proof -
  show p: "installed p" "g_signal p = 0"
    using assms by (auto simp: waiting_process_eq installed_def split: if_splits)
  have "pr_disp p s = OnSignal \<longleftrightarrow> s \<in> handled" for s
    using p(1) by (cases s) (simp_all add: installed_def handled_def)
  then show "interrupts late p \<longleftrightarrow> (\<exists>s \<in> set late. s \<in> handled)"
    by (simp add: interrupts_def list_ex_iff)
qed

lemma wait_signal_None: "(\<And>i. \<not> sig i) \<Longrightarrow> wait_signal sig k = None"
  using wait_signal_sound [of sig k] by (cases "wait_signal sig k") blast+

lemma wait_signal_iff: "wait_signal sig 0 = Some k \<longleftrightarrow> sig k \<and> (\<forall>j < k. \<not> sig j)"
proof
  show "sig k \<and> (\<forall>j < k. \<not> sig j)" if "wait_signal sig 0 = Some k"
    using that wait_signal_sound [of sig 0 k] wait_signal_returns [of sig] by (metis leD option.inject)
  show "wait_signal sig 0 = Some k" if "sig k \<and> (\<forall>j < k. \<not> sig j)"
    using that wait_signal_first [of sig 0 k] by simp
qed

lemma first_reading:
  fixes k :: nat
  shows "(\<exists>j \<le> k. P j) \<and> (\<forall>j < k. \<not> (\<exists>i \<le> j. P i)) \<longleftrightarrow> P k \<and> (\<forall>j < k. \<not> P j)"
proof
  assume l: "(\<exists>j \<le> k. P j) \<and> (\<forall>j < k. \<not> (\<exists>i \<le> j. P i))"
  then obtain j where "j \<le> k" "P j" by blast
  moreover have "j = k" using l \<open>j \<le> k\<close> \<open>P j\<close> by (metis le_less order_refl)
  ultimately show "P k \<and> (\<forall>j < k. \<not> P j)" using l by blast
next
  assume "P k \<and> (\<forall>j < k. \<not> P j)"
  then show "(\<exists>j \<le> k. P j) \<and> (\<forall>j < k. \<not> (\<exists>i \<le> j. P i))" by (auto dest: le_less_trans)
qed

text \<open>
  C18. Which signals end the service, and how. Before the handlers are installed, any signal but
  \<open>SIGPIPE\<close> kills it without a shutdown. From then on no number of \<open>SIGINT\<close>, \<open>SIGTERM\<close> and \<open>SIGPIPE\<close>
  does: the first of the former two, however many follow it, ends the wait at the next reading of
  the flag, and without one the wait goes on. \<open>main\<close> then returns 0 exactly if one more of the two
  arrives during \<open>zmq_ctx_destroy\<close>; otherwise it does not return.
\<close>

theorem signals_end_service:
  assumes "ctx_ok Z C opn" "opn z = {}" "keeps_sockets opn running" "keeps_sockets opn meanwhile"
    and "node_init L mkdir listing bins z files (config_dir_of argv) = Inr (Some n)"
    and "node_start Z E n = (None, n1)"
    and "node_shutdown Z L can_open ks clocks meanwhile (running n1) = Inr m"
    and "\<And>i. set (raised i) \<subseteq> harmless"
  shows "(waiting_process early = None \<longleftrightarrow> \<not> set early \<subseteq> {SIGPIPE}) \<and>
    (\<forall>p. waiting_process early = Some p \<longrightarrow>
       (\<forall>i. polled raised p i \<noteq> None) \<and>
       (\<forall>k. wait_signal (signalled raised p) 0 = Some k \<longleftrightarrow>
          (\<exists>s \<in> set (raised k). s \<in> handled) \<and> (\<forall>j < k. \<forall>s \<in> set (raised j). s \<notin> handled)) \<and>
       (let prog = main_program Z C L E mkdir listing bins z files argv (signalled raised p)
           (interrupts late p) can_open ks clocks running meanwhile in
        if (\<exists>i. \<exists>s \<in> set (raised i). s \<in> handled) \<and> (\<exists>s \<in> set late. s \<in> handled)
        then \<exists>r. prog = Some (Returned 0 (Some r)) else prog = None))"
proof (intro conjI allI impI)
  show "waiting_process early = None \<longleftrightarrow> \<not> set early \<subseteq> {SIGPIPE}" by (simp add: waiting_process_eq)
  fix p assume "waiting_process early = Some p"
  note w = waiting_installed [OF this]
  note sig = signalled_iff [OF w(1,2) assms(8)]
  show "polled raised p i \<noteq> None" for i
    using polled_installed [OF w(1), where raised = raised and i = i] assms(8) by (auto split: option.splits)
  show "wait_signal (signalled raised p) 0 = Some k \<longleftrightarrow>
      (\<exists>s \<in> set (raised k). s \<in> handled) \<and> (\<forall>j < k. \<forall>s \<in> set (raised j). s \<notin> handled)" for k
    by (simp only: wait_signal_iff sig first_reading) simp
  note h = started_main_hangs [OF assms(1-7)]
  let ?prog = "main_program Z C L E mkdir listing bins z files argv (signalled raised p)
    (interrupts late p) can_open ks clocks running meanwhile"
  show "let prog = ?prog in
      if (\<exists>i. \<exists>s \<in> set (raised i). s \<in> handled) \<and> (\<exists>s \<in> set late. s \<in> handled)
      then \<exists>r. prog = Some (Returned 0 (Some r)) else prog = None"
  proof (cases "\<exists>i. \<exists>s \<in> set (raised i). s \<in> handled")
    case True
    then obtain i where "signalled raised p i" by (auto simp: sig)
    with True h(1) h(2) show ?thesis by (simp add: Let_def w(3))
  next
    case False
    then have "wait_signal (signalled raised p) 0 = None" by (intro wait_signal_None) (simp add: sig)
    with False show ?thesis by (simp add: Let_def main_program_def assms(5,6) run_node_def)
  qed
qed

text \<open>Signals \<open>SIGPIPE\<close>, then at the third reading \<open>SIGTERM\<close>; one more, or none, during the shutdown.\<close>

definition demo_raised :: "nat \<Rightarrow> signal list" where
  "demo_raised i = (if i = 2 then [SIGPIPE, SIGTERM] else [])"

theorem signals_end_service_witness:
  "\<exists>p. waiting_process [SIGPIPE] = Some p \<and> wait_signal (signalled demo_raised p) 0 = Some 2 \<and>
     main_program list_zmq list_ctx (sample_lib 8443) plain_env (\<lambda>_. Inr ()) (\<lambda>_. Inr None) (\<lambda>_. None) (0, [])
       sample_files [''sim_vision_node''] (signalled demo_raised p) (interrupts [SIGPIPE] p) (\<lambda>_. True) all_names
       (\<lambda>_. (0, 0)) id id = None \<and>
     (\<exists>r. main_program list_zmq list_ctx (sample_lib 8443) plain_env (\<lambda>_. Inr ()) (\<lambda>_. Inr None) (\<lambda>_. None) (0, [])
       sample_files [''sim_vision_node''] (signalled demo_raised p) (interrupts [SIGINT] p) (\<lambda>_. True) all_names
       (\<lambda>_. (0, 0)) id id = Some (Returned 0 (Some r)))"
proof -
  obtain n n1 m where
    "node_init (sample_lib 8443) (\<lambda>_. Inr ()) (\<lambda>_. Inr None) (\<lambda>_. None) (0, []) sample_files
       (config_dir_of [''sim_vision_node'']) = Inr (Some n)"
    "node_start list_zmq plain_env n = (None, n1)"
    "node_shutdown list_zmq (sample_lib 8443) (\<lambda>_. True) all_names (\<lambda>_. (0, 0)) id (id n1) = Inr m"
    using demo_started by blast
  note started = this
  have r: "set (demo_raised i) \<subseteq> harmless" for i
    by (auto simp: demo_raised_def harmless_def handled_def)
  have z: "set (snd (0 :: nat, [] :: nat list)) = {}" by simp
  obtain p where p: "waiting_process [SIGPIPE] = Some p" by (simp add: waiting_process_eq)
  note all = signals_end_service [where raised = demo_raised and early = "[SIGPIPE]",
      OF list_ctx_ok z keeps_sockets_id keeps_sockets_id started r, THEN conjunct2, rule_format, OF p]
  have h: "SIGTERM \<in> handled" "SIGINT \<in> handled" "SIGPIPE \<notin> handled" by (simp_all add: handled_def)
  have s: "\<exists>i. \<exists>s \<in> set (demo_raised i). s \<in> handled" using h(1) by (intro exI [of _ 2]) (simp add: demo_raised_def)
  have "wait_signal (signalled demo_raised p) 0 = Some 2"
    using all [where late = "[]"] h by (auto simp: demo_raised_def)
  with all [where late = "[SIGPIPE]"] all [where late = "[SIGINT]"] p s h show ?thesis
    by (simp add: Let_def)
qed

end
