(* ===== verification/UnitTests.thy ===== *)
theory UnitTests
  imports SPSCQueue ChannelManager Parameters
begin

text \<open>
  The repository's own test programs (\<open>tests/test_spsc_queue.cpp\<close>, \<open>tests/test_parameter.cpp\<close>,
  \<open>tests/test_channel_manager.cpp\<close>) over the models of the classes they test: each test is the
  conjunction of its expectations, in order, and holds. The stress test is a step relation.
\<close>

section \<open>The queue\<close>

definition test_frame :: "u64 \<Rightarrow> channel_frame" where
  "test_frame i = \<lparr>cf_group = Visual2D, cf_ts_sec = 0, cf_ts_nsec = 0, cf_pair_id = 0,
     cf_frame_index = i, cf_pub_id = [], cf_bundles = []\<rparr>"

fun out_index :: "(frame_ptr \<times> channel_frame spsc) option \<Rightarrow> u64 option" where
  "out_index (Some (Some f, q)) = Some (cf_frame_index f)"
| "out_index _ = None"

fun after_pop :: "(frame_ptr \<times> channel_frame spsc) option \<Rightarrow> channel_frame spsc \<Rightarrow> channel_frame spsc" where
  "after_pop (Some (f, q')) q = q'"
| "after_pop None q = q"

definition test_push_pop_basic :: "channel_frame spsc \<Rightarrow> bool" where
  "test_push_pop_basic q =
     (let r = try_push (Some (test_frame 7)) q; p = try_pop (snd r)
      in fst r \<and> out_index p = Some 7 \<and> q_empty (after_pop p (snd r)))"

definition test_drop_newest :: "channel_frame spsc \<Rightarrow> bool" where
  "test_drop_newest q =
     (let r0 = try_push (Some (test_frame 0)) q; r1 = try_push (Some (test_frame 1)) (snd r0);
          r2 = try_push (Some (test_frame 2)) (snd r1); r = try_push (Some (test_frame 99)) (snd r2)
      in fst r0 \<and> fst r1 \<and> fst r2 \<and> \<not> fst r \<and> total_dropped (snd r) = 1 \<and>
         out_index (try_pop (snd r)) = Some 0)"

definition empty_ring :: "u64 \<Rightarrow> channel_frame spsc" where
  "empty_ring c = \<lparr>q_capacity = c, q_buffer = replicate (unat c) None, q_head = 0, q_tail = 0,
     q_pushed = 0, q_dropped = 0\<rparr>"

lemma queue_tests_pass:
  "queue_new 4 = Inr (empty_ring 4)" "test_push_pop_basic (empty_ring 4)"
  "queue_new 3 = Inr (empty_ring 3)" "test_drop_newest (empty_ring 3)"
proof -
  show "queue_new 4 = Inr (empty_ring 4)" "queue_new 3 = Inr (empty_ring 3)"
    by (simp_all add: queue_new_def queue_max_size_def empty_ring_def)
qed (code_simp+)

section \<open>The channel manager\<close>

definition test_start_stop :: bool where
  "test_start_stop =
     (let c0 = cm_new; c1 = cm_start_capture ''c1'' [StereoImage, DepthMap] c0;
          c2 = cm_stop_capture ''c1'' [StereoImage] c1
      in \<not> is_active c0 StereoImage \<and> is_active c1 StereoImage \<and> is_active c1 DepthMap \<and>
         subscriber_count c1 StereoImage = 1 \<and> \<not> is_active c2 StereoImage \<and> is_active c2 DepthMap)"

definition test_refcount :: bool where
  "test_refcount =
     (let c2 = cm_start_capture ''c2'' [StereoImage] (cm_start_capture ''c1'' [StereoImage] cm_new);
          c3 = cm_stop_capture ''c1'' [StereoImage] c2; c4 = cm_stop_capture ''c2'' [StereoImage] c3
      in subscriber_count c2 StereoImage = 2 \<and> is_active c3 StereoImage \<and>
         subscriber_count c3 StereoImage = 1 \<and> \<not> is_active c4 StereoImage)"

definition test_disconnect :: bool where
  "test_disconnect =
     (let c1 = cm_start_capture ''c5'' [IMU, Temperature] cm_new; r = disconnect_client ''c5'' c1
      in is_active c1 IMU \<and> fst r \<and> \<not> is_active (snd r) IMU \<and> \<not> is_active (snd r) Temperature)"

definition test_force :: bool where
  "test_force =
     (let c1 = snd (activate_channel PointCloud cm_new); c2 = snd (deactivate_channel PointCloud c1)
      in \<not> is_active cm_new PointCloud \<and> is_active c1 PointCloud \<and> group_active c1 Visual3D \<and>
         \<not> is_active c2 PointCloud)"

definition test_group_active :: bool where
  "test_group_active =
     (let c1 = cm_start_capture ''c9'' [Barometer] cm_new
      in \<not> group_active cm_new SensorData \<and> group_active c1 SensorData \<and>
         last_subscriber_left c1 Visual2D)"

lemma channel_manager_tests_pass:
  "test_start_stop" "test_refcount" "test_disconnect" "test_force" "test_group_active"
  by code_simp+

section \<open>The parameters\<close>

definition make_int :: "string \<Rightarrow> int \<Rightarrow> int \<Rightarrow> int \<Rightarrow> parameter" where
  "make_int n def lo hi = \<lparr>p_name = n, p_value = Integer def, p_min = Integer lo, p_max = Integer hi,
     p_default_value = Integer def, p_is_readonly = False, p_is_available = True,
     p_needs_reopen = False, p_enum_options = []\<rparr>"

definition test_mode :: parameter where
  "test_mode = \<lparr>p_name = ''depth_mode'', p_value = Enum ''NEURAL'', p_min = Integer 0, p_max = Integer 0,
     p_default_value = Enum ''NEURAL'', p_is_readonly = False, p_is_available = True,
     p_needs_reopen = False, p_enum_options = [''NONE'', ''NEURAL'', ''ULTRA'']\<rparr>"

definition fps_params :: params where
  "fps_params = register_parameter (make_int ''fps'' 30 1 240) Map.empty"

definition test_register_get :: bool where
  "test_register_get \<longleftrightarrow> map_option p_value (param_get ''fps'' fps_params) = Some (Integer 30) \<and>
     param_has ''fps'' fps_params \<and> \<not> param_has ''nope'' fps_params"

definition test_set_in_range :: bool where
  "test_set_in_range =
     (case set_value ''fps'' (Integer 60) [] fps_params of (ok, err, pm) \<Rightarrow>
        ok \<and> map_option p_value (param_get ''fps'' pm) = Some (Integer 60))"

definition test_out_of_range :: bool where
  "test_out_of_range =
     (case set_value ''fps'' (Integer 1000) [] fps_params of (ok, err, pm) \<Rightarrow> \<not> ok \<and> err \<noteq> [])"

definition test_unknown :: bool where
  "test_unknown \<longleftrightarrow> \<not> fst (set_value ''x'' (Integer 1) [] Map.empty)"

definition test_enum :: bool where
  "test_enum =
     (case set_value ''depth_mode'' (Enum ''ULTRA'') [] (register_parameter test_mode Map.empty) of
        (ok, err, pm) \<Rightarrow> ok \<and> \<not> fst (set_value ''depth_mode'' (Enum ''BAD'') err pm))"

definition test_type_mismatch :: bool where
  "test_type_mismatch \<longleftrightarrow> \<not> fst (set_value ''fps'' (Enum ''foo'') [] fps_params)"

lemmas parameter_test_defs = fps_params_def make_int_def test_mode_def register_parameter_def
  param_get_def param_has_def set_value_cases admits_def value_ok_def same_type_def
  enum_allowed_def set_error_def

lemma parameter_tests_pass:
  "test_register_get" "test_set_in_range" "test_out_of_range" "test_unknown" "test_enum"
  "test_type_mismatch"
  by (simp_all add: test_register_get_def test_set_in_range_def test_out_of_range_def
      test_unknown_def test_enum_def test_type_mismatch_def parameter_test_defs)

section \<open>The stress test\<close>

text \<open>
  A producer that pushes the frames \<open>0\<close> to \<open>N - 1\<close>, each until it is accepted, and a consumer that
  pops until it has \<open>N\<close>, checking that the indices do not decrease; both in any interleaving of
  their calls. \<open>tr_ok\<close> is the conjunction of the consumer's expectations.
\<close>

record stress =
  tr_queue :: "channel_frame spsc"
  tr_next :: nat
  tr_last :: u64
  tr_count :: nat
  tr_ok :: bool

definition stress_start :: "channel_frame spsc \<Rightarrow> stress" where
  "stress_start q = \<lparr>tr_queue = q, tr_next = 0, tr_last = 0, tr_count = 0, tr_ok = True\<rparr>"

inductive stress_step :: "nat \<Rightarrow> stress \<Rightarrow> stress \<Rightarrow> bool" for N where
  Produce: "tr_next s < N \<Longrightarrow> try_push (Some (test_frame (of_nat (tr_next s)))) (tr_queue s) = (ok, q) \<Longrightarrow>
    stress_step N s (s\<lparr>tr_queue := q, tr_next := tr_next s + (if ok then 1 else 0)\<rparr>)"
| Consume: "tr_count s < N \<Longrightarrow> try_pop (tr_queue s) = Some (f, q) \<Longrightarrow>
    stress_step N s (s\<lparr>tr_queue := q, tr_count := tr_count s + 1,
      tr_ok := (tr_ok s \<and> f \<noteq> None \<and> tr_last s \<le> cf_frame_index (the f)),
      tr_last := cf_frame_index (the f)\<rparr>)"
| Retry: "tr_count s < N \<Longrightarrow> try_pop (tr_queue s) = None \<Longrightarrow> stress_step N s s"

definition stress_ok :: "nat \<Rightarrow> stress \<Rightarrow> bool" where
  "stress_ok N s \<longleftrightarrow> q_at 0 (tr_queue s) \<and> q_cap (tr_queue s) = 64 \<and> tr_ok s \<and>
     tr_count s \<le> tr_next s \<and> tr_next s \<le> N \<and>
     tr_last s = of_nat (tr_count s - 1) \<and>
     q_items (tr_queue s) = map (\<lambda>i. Some (test_frame (of_nat i))) [tr_count s..<tr_next s]"

lemma stress_cap: "q_cap q = 64 \<Longrightarrow> q_at n q \<Longrightarrow> q_at 0 q"
  by (auto simp: q_at_def)

lemma stress_step_ok:
  assumes "stress_step N s s'" "N < 2 ^ 64" "stress_ok N s"
  shows "stress_ok N s'"
  using assms(1)
proof cases
  case (Produce ok q)
  let ?f = "Some (test_frame (of_nat (tr_next s)))"
  have at: "q_at 0 (tr_queue s)" and cap: "q_cap (tr_queue s) = 64" using assms(3) by (simp_all add: stress_ok_def)
  have inv: "q_invar (tr_queue s)" and room: "q_room (tr_queue s)"
    using at q_at_room [OF at] by (simp_all add: q_at_def)
  have q: "q = snd (try_push ?f (tr_queue s))" "ok = fst (try_push ?f (tr_queue s))" using Produce(3) by simp_all
  have "q_at (Suc 0) q" using q_at_push [OF at] by (simp add: q(1))
  moreover have c: "q_cap q = 64" using cap by (simp add: q(1) q_cap_push)
  ultimately have "q_at 0 q" using stress_cap by blast
  moreover have "q_items q = q_items (tr_queue s) @ (if ok then [?f] else [])"
    using ring.push_items [OF inv room, of ?f] by (simp add: q)
  ultimately show ?thesis
    using assms(3) c Produce(1,2) by (auto simp: stress_ok_def)
next
  case (Consume f q)
  have at: "q_at 0 (tr_queue s)" using assms(3) by (simp add: stress_ok_def)
  then have inv: "q_invar (tr_queue s)" by (simp add: q_at_def)
  have pop: "q_items (tr_queue s) = f # q_items q" "q_cap q = q_cap (tr_queue s)"
    using ring.pop_first [OF inv Consume(3)] by simp_all
  have items: "q_items (tr_queue s) = map (\<lambda>i. Some (test_frame (of_nat i))) [tr_count s..<tr_next s]"
    using assms(3) by (simp add: stress_ok_def)
  have lt: "tr_count s < tr_next s" using items pop(1) by (cases "tr_count s < tr_next s") simp_all
  then have f: "f = Some (test_frame (of_nat (tr_count s)))"
    and r: "q_items q = map (\<lambda>i. Some (test_frame (of_nat i))) [Suc (tr_count s)..<tr_next s]"
    using items pop(1) by (simp_all add: upt_conv_Cons)
  have "tr_count s < 2 ^ 64" using lt assms(2,3) by (simp add: stress_ok_def)
  then have "(of_nat (tr_count s - 1) :: u64) \<le> of_nat (tr_count s)"
    by (simp add: word_le_nat_alt unat_of_nat)
  then show ?thesis
    using assms(3) lt f r pop(2) q_at_pop [OF at Consume(3)] Consume(1)
    by (auto simp: stress_ok_def test_frame_def)
next
  case Retry
  then show ?thesis using assms(3) by simp
qed

lemma stress_reachable_ok:
  assumes "queue_new 64 = Inr q" "N < 2 ^ 64"
  shows "(stress_step N)\<^sup>*\<^sup>* (stress_start q) s \<Longrightarrow> stress_ok N s"
proof (induction rule: rtranclp_induct)
  case base
  then show ?case
    using queue_new_at [OF assms(1)] by (simp add: stress_ok_def stress_start_def)
qed (rule stress_step_ok [OF _ assms(2)])

text \<open>
  The stress test passes, for every interleaving and every number of frames: no expectation of the
  consumer fails, when it has all its frames so has the producer pushed all of his, and until then
  one of the two can make progress.
\<close>

lemma producer_consumer_stress_passes:
  assumes "queue_new 64 = Inr q" "N < 2 ^ 64" "(stress_step N)\<^sup>*\<^sup>* (stress_start q) s"
  shows "tr_ok s" and "tr_count s \<le> N" and "tr_count s = N \<Longrightarrow> tr_next s = N"
    and "tr_count s < N \<Longrightarrow> \<exists>s'. stress_step N s s' \<and>
      tr_next s + tr_count s < tr_next s' + tr_count s'"
proof -
  have ok: "stress_ok N s" by (rule stress_reachable_ok [OF assms(1,2,3)])
  then show "tr_ok s" "tr_count s \<le> N" "tr_count s = N \<Longrightarrow> tr_next s = N"
    by (simp_all add: stress_ok_def)
  assume lt: "tr_count s < N"
  have at: "q_at 0 (tr_queue s)" and cap: "q_cap (tr_queue s) = 64" using ok by (simp_all add: stress_ok_def)
  have inv: "q_invar (tr_queue s)" and room: "q_room (tr_queue s)"
    using at q_at_room [OF at] by (simp_all add: q_at_def)
  show "\<exists>s'. stress_step N s s' \<and> tr_next s + tr_count s < tr_next s' + tr_count s'"
  proof (cases "q_items (tr_queue s) = []")
    case True
    let ?f = "Some (test_frame (of_nat (tr_next s)))"
    have nx: "tr_next s < N" using True ok lt by (auto simp: stress_ok_def)
    have "fst (try_push ?f (tr_queue s))"
      using ring.push_items [OF inv room, of ?f] True cap by simp
    then obtain q' where "try_push ?f (tr_queue s) = (True, q')"
      by (cases "try_push ?f (tr_queue s)") simp
    from stress_step.Produce [OF nx this] show ?thesis by auto
  next
    case False
    obtain q' where "try_pop (tr_queue s) = Some (hd (q_items (tr_queue s)), q')"
      by (rule ring.pop_nonempty [OF inv False])
    from stress_step.Consume [OF lt this] show ?thesis by auto
  qed
qed

end
