(* ===== verification/Spec2Isabelle.thy ===== *)
theory Spec2Isabelle
  imports SPSCMemory Logging DataPath ParameterThreads PayloadMemory CaptureThread PublisherThread
    SubscriptionPath ServerStop NodeService Startup Signals UnitTests
begin

text \<open>
  A verification development for SimVisionSDK, a service that simulates a stereo camera.

  \<^bold>\<open>The program and how its parts interact.\<close> \<open>src/main.cpp\<close> loads a configuration, registers the
  camera parameters, overlays them with the settings of the last run and wires the components:
  \<^item> the \<open>SimDataSource\<close> serves stereo pairs from a directory and computes synthetic maps, clouds
    and sensor samples;
  \<^item> the \<open>CaptureEngine\<close> thread asks the \<open>ChannelManager\<close> which channels are active, builds one
    frame for each of the three groups and pushes it into the \<open>DataPipeline\<close>;
  \<^item> the \<open>DataPipeline\<close> holds one bounded queue (\<open>ChannelFrameQueue\<close>) per group and wakes the
    consumer through a flag;
  \<^item> the \<open>DataPublisher\<close> thread pops every queue and sends each frame as a multipart ZeroMQ
    message, and broadcasts the shutdown event;
  \<^item> the \<open>AdminServer\<close> accepts TLS connections, hands them to a pool of workers, reads an HTTP
    request, lets the \<open>CommandHandler\<close> run one command over the sessions, channels,
    parameters and pipeline, and writes the reply.

  \<^bold>\<open>Which theory models what.\<close> The C++ name of a function is the name of its definition, up to
  a prefix or suffix where the name clashes.
  \<^item> \<open>Prelude\<close>: machine integers as words, C++ exceptions as the left side of a sum, and the
    containers \<open>std::map\<close> and \<open>std::set\<close> as lists in key order.
  \<^item> \<open>Json\<close>: JSON documents; the JSON library is the record \<open>json_lib\<close>.
  \<^item> \<open>SimTypes\<close> (\<open>src/common/Types.cpp\<close>): data types, groups, frames, clock readings.
  \<^item> \<open>SPSCQueue\<close> (\<open>src/data/SPSCQueue.cpp\<close>): the ring buffer with its 64-bit counters; the
    abstraction function reads the slots between the counters as a list. \<open>SPSCThreads\<close> splits
    \<open>try_push\<close> and \<open>try_pop\<close> into their single memory accesses and interleaves them;
    \<open>SPSCMemory\<close> adds the memory orders: histories of the counters, stale loads, and the clocks
    that release stores pass to acquire loads, by which data races are detected.
  \<^item> \<open>Pipeline\<close> (\<open>src/data/DataPipeline.cpp\<close>): the operations, and the handshake of \<open>push\<close> and
    \<open>pop_all\<close> over the mutex and the condition variable step by step.
  \<^item> \<open>ChannelManager\<close> (\<open>src/data/ChannelManager.cpp\<close>): subscriptions per client, counters per
    data type, forced channels.
  \<^item> \<open>Parameters\<close> (\<open>src/common/Parameter.cpp\<close>), \<open>Responses\<close> (\<open>src/common/Response.cpp\<close>),
    \<open>Sessions\<close> (\<open>src/api/SessionManager.cpp\<close>), \<open>Logging\<close> (\<open>src/common/Logger.cpp\<close>),
    \<open>Configuration\<close> (\<open>src/common/Config.cpp\<close>).
  \<^item> \<open>ImageProbe\<close>, \<open>DataSource\<close> and \<open>Generators\<close> (\<open>src/datasource/SimDataSource.cpp\<close>): the probe of
    PNG, JPEG and BMP headers with checked reads; loading and serving pairs; the generators.
    \<open>TextNumbers\<close> is \<open>std::stoul\<close>.
  \<^item> \<open>Capture\<close> (\<open>src/capture/CaptureEngine.cpp\<close>): frames, one round and the loop. \<open>CaptureThread\<close>
    has the pacer and the thread's loop step by step against \<open>stop\<close>, and the parameters a round
    depends on.
  \<^item> \<open>Publisher\<close> (\<open>src/data/DataPublisher.cpp\<close>): sockets, multipart sends, counters, the loop,
    the shutdown broadcast. The list of all sends is a ghost component of the state. \<open>DataPath\<close>
    joins engine, pipeline, publisher and flushes into one system. \<open>PayloadMemory\<close> follows the use
    counts behind the zero-copy sends: frames, the hints of \<open>send_frame\<close>, and \<open>payload_free\<close>.
    \<open>PublisherThread\<close> is the thread's loop step by step against \<open>stop\<close>; what it shares with
    \<open>CaptureThread\<close> is the locale of \<open>StopProtocol\<close>.
  \<^item> \<open>Commands\<close> (\<open>src/api/CommandHandler.cpp\<close>): routing and every command; \<open>TextSearch\<close> holds the
    lemmas on \<open>std::string::find\<close> behind it. \<open>CommandThreads\<close> splits the commands into their calls
    and interleaves those of several workers, which no lock of the handler prevents;
    \<open>ParameterThreads\<close> does so for the commands on parameters, and for the listing of the channels.
    \<open>CommandEffects\<close> has the commands that end a data flow, with the flushing of the queues, and
    \<open>CaptureControl\<close> the capture rounds that read the tables the commands change; \<open>SubscriptionPath\<close>
    follows a subscription on to the message on the wire.
  \<^item> \<open>HttpRequest\<close>, \<open>Connections\<close> and \<open>ServerThreads\<close> (\<open>src/api/AdminServer.cpp\<close>): reading and
    parsing a request; one connection from the handshake to the reply, and the framing of the
    reply; start, stop, the accepting thread, the workers and their queue as a step relation, with
    or without spurious wake-ups. \<open>ServerStop\<close> follows \<open>stop\<close> to its end.
  \<^item> \<open>Service\<close> (\<open>src/main.cpp\<close>): the registered parameters, the settings file, initialisation,
    start and shutdown. \<open>MainProgram\<close> is \<open>main\<close> from the command line to its return value, the
    destructors included; \<open>NodeService\<close> is the handler it wires and its states while it serves;
    \<open>Startup\<close> has the ways to the waiting loop and \<open>Signals\<close> the dispositions, the signal handler and
    what each signal does to the process.
  \<^item> \<open>UnitTests\<close> (\<open>tests/\<close>): the repository's own tests, run on the models.
\<close>

text \<open>
  \<^bold>\<open>What the lemmas show.\<close>
  \<^item> Queue and pipeline: the ring buffer implements a bounded FIFO and every loss is counted; under
    every interleaving of one producer and one consumer, with the staleness the memory orders
    allow, no two accesses to a slot race and no item is lost or doubled; frames leave the pipeline in the order they entered it; a sleeping
    consumer never misses a wake-up. With two consumers, or at the wrap of the counters with a
    capacity that does not divide \<open>2^64\<close>, this fails, and concrete runs show how.
  \<^item> Channels: the counters refine an abstract registry of which client subscribes to which type;
    disconnecting releases all subscriptions of the client, and through every command the
    subscribers stay connected clients, also when commands of different clients overlap; two
    overlapping requests of one client can break this.
  \<^item> Data path: from the capture engine to the wire, frames of a group arrive complete, once and in
    order, and what is missing was refused by a full queue, flushed or is still queued. A bundle
    lives exactly as long as a frame or a message refers to it, whatever send fails.
  \<^item> Capture and commands: frames carry exactly what connected clients hold or what is forced;
    after the last client has left nothing is captured or queued, apart from a round in flight;
    \<open>stop\<close> of the engine returns within one period, that of the publisher within its time-out and the
    sending of what is queued; parameters other than the frame rate and the depth mode
    have no effect on a round.
  \<^item> Parameters: \<open>set_value\<close> on every branch; no history of operations leaves a value outside
    its range or changes a read-only one; saved settings come back after a restart.
  \<^item> Data: no probe reads outside its buffer; probed sizes are the header's; loading finds exactly
    the complete pairs, in index order; serving is round robin; layouts, lengths and the loops of
    the generators; the stereo payload can be split again; one capture round publishes exactly
    the active bundles; the header describes the parts that follow it; counters count what was
    sent and dropped.
  \<^item> Requests: a well-formed request is read exactly, however the transport cuts it; routing by
    path, alias or body; which commands throw and when; what a connection does with each outcome,
    and that a client can read the reply back; the queue of pending connections is bounded and
    loses none; \<open>stop\<close> returns within a bounded number of steps or leaves one sleeping worker, and
    when that can happen. From startup on every well-formed request is answered, with the
    exceptions the theorem lists. Overlapping parameter commands are as if run one by one.
  \<^item> Service: what the loader admits, the lifecycle of the components, and the registered defaults;
    how \<open>main\<close> starts and which errors end it before; how it ends, and that a shutdown does not get
    past \<open>zmq_ctx_destroy\<close> without a second signal.

  \<^bold>\<open>Interfaces.\<close> Clients rest on locales, each interpreted on the model's own definitions in the
  theory that provides them: the bounded queue and its draining, the subscription registry, the
  guarded store of parameters, and the contract of threads that are stopped by a flag, which the
  capture thread, the publisher thread and the threads of the server fulfil.

  \<^bold>\<open>Loops, bounds and fuel.\<close> Loops over data are structural or have a measure (\<open>pop_loop\<close>: the
  distance of the counters; \<open>jpeg_scan\<close>: the bytes left). The read and write loops over a TLS
  connection and the wait for a signal may run for ever: they are \<open>partial_function (option)\<close> and not
  returning is \<open>None\<close>; that they return is proved for peers that deliver, and that they do not for a silent peer. The
  loops of the capture and the publisher thread run over a finite list of rounds, the answers of
  the environment in each: a run of any length is an instance. There is no fuel anywhere.

  \<^bold>\<open>Parameters of the model.\<close> The JSON library, ZeroMQ, OpenSSL and sockets, the rounding
  floating-point arithmetic, sine and cosine, clocks, the file system and the iteration order of
  hash tables are arguments. Hypotheses on them are their documented behaviour, and
  each theorem with such a hypothesis is applied to a concrete instance.

  \<^bold>\<open>Not modelled.\<close> Build files, scripts, certificates, assets and documentation have
  no program logic. Left out of the modelled files: how long the main thread sleeps, memory
  exhaustion, signals other than the five of \<open>Signals\<close>, and the log lines of components other than
  the logger. Outside \<open>SPSCMemory\<close> atomics are sequentially
  consistent; the statistics counters, which only their own values depend on, are so there too.
\<close>

end
